(* ===== verification/Prelude.thy ===== *)
theory Prelude
  imports
    "HOL-Library.Word"
    "HOL-Library.Monad_Syntax"
begin

unbundle bit_operations_syntax

text \<open>
  Shared vocabulary of the development.

  \<^item> The C integer types are words of their width; \<open>u64\<close> is also \<open>size_t\<close> and
    \<open>uintptr_t\<close> on the supported target.
  \<^item> A C expression with undefined behaviour (an access outside a buffer, a signed
    overflow, a division by zero, a call through a null function pointer) has the value
    \<^const>\<open>None\<close>; every other computation returns \<^const>\<open>Some\<close>. Statements are
    sequenced by the option monad, so a theorem \<open>f x = Some y\<close> says that \<open>f\<close> runs
    without undefined behaviour and what it computes.
  \<^item> \<open>foreach\<close> is a counted \<open>for\<close> loop over the list of its counter values;
    \<open>foreach_brk\<close> is the same loop with a \<open>break\<close>.
  \<^item> \<open>paints f s P v\<close> is the specification of code that writes memory: run on the
    bytes \<open>s\<close>, \<open>f\<close> succeeds, keeps the length, puts \<open>v i\<close> at every address
    \<open>i\<close> with \<open>P i\<close> and leaves the others alone.
\<close>

section \<open>Machine types\<close>

type_synonym u8 = "8 word"
type_synonym u16 = "16 word"
type_synonym u32 = "32 word"
type_synonym u64 = "64 word"
type_synonym bytes = "u8 list"
type_synonym ptr = u64

abbreviation (input) NULL :: ptr where "NULL \<equiv> 0"

named_theorems c_simps \<open>evaluation rules for the C primitives\<close>
named_theorems word_simps \<open>reading words as natural numbers and integers\<close>

section \<open>Signed 32-bit arithmetic\<close>

text \<open>
  \<open>int32_t\<close> values are integers; \<open>i32 z\<close> is the result of a signed operation whose
  exact result is \<open>z\<close>: undefined when it does not fit.
\<close>

definition in_i32 :: "int \<Rightarrow> bool" where
  "in_i32 z \<longleftrightarrow> - (2 ^ 31) \<le> z \<and> z < 2 ^ 31"

definition i32 :: "int \<Rightarrow> int option" where
  "i32 z = (if in_i32 z then Some z else None)"

lemma i32_Some [c_simps]: "in_i32 z \<Longrightarrow> i32 z = Some z"
  by (simp add: i32_def)

lemma i32_eq_Some_iff: "i32 z = Some y \<longleftrightarrow> in_i32 z \<and> y = z"
  by (auto simp: i32_def)

lemma in_i32I [intro]: "- (2 ^ 31) \<le> z \<Longrightarrow> z < 2 ^ 31 \<Longrightarrow> in_i32 z"
  by (simp add: in_i32_def)

lemma in_i32_between: "in_i32 a \<Longrightarrow> in_i32 b \<Longrightarrow> a \<le> z \<Longrightarrow> z \<le> b \<Longrightarrow> in_i32 z"
  by (auto simp: in_i32_def)

text \<open>The cast \<open>(int32_t)w\<close> of an unsigned value below \<open>2\<^sup>3\<^sup>1\<close> is that value.\<close>

lemma sint_small [word_simps]:
  fixes w :: u32
  assumes "unat w < 2 ^ 31"
  shows "sint w = int (unat w)"
proof -
  have "int (unat w) < int (2 ^ 31)"
    using assms by (simp only: of_nat_less_iff)
  then have "signed_take_bit 31 (uint w) = uint w"
    using order_trans [OF _ uint_ge_0 [of w], of "- 2147483648"]
    by (intro signed_take_bit_int_eq_self) simp_all
  then show ?thesis
    by (simp add: sint_uint)
qed

lemma sint_uint_small:
  fixes w :: u32
  assumes "uint w < 2 ^ 31"
  shows "sint w = uint w"
proof -
  have "int (unat w) < int (2 ^ 31)"
    using assms by simp
  then have "unat w < 2 ^ 31"
    by (simp only: of_nat_less_iff)
  from sint_small [OF this] show ?thesis by simp
qed

section \<open>Reading words\<close>

lemma unat_add_small [word_simps]:
  fixes a b :: "'a :: len word"
  shows "unat a + unat b < 2 ^ LENGTH('a) \<Longrightarrow> unat (a + b) = unat a + unat b"
  by (simp add: unat_word_ariths)

lemma unat_mult_small [word_simps]:
  fixes a b :: "'a :: len word"
  shows "unat a * unat b < 2 ^ LENGTH('a) \<Longrightarrow> unat (a * b) = unat a * unat b"
  by (simp add: unat_word_ariths)

lemma unat_of_nat_small [word_simps]:
  "n < 2 ^ LENGTH('a) \<Longrightarrow> unat (of_nat n :: 'a :: len word) = n"
  by (simp add: unat_of_nat take_bit_nat_eq_self)

lemma unat_lt_u32: "unat (w :: u32) < 2 ^ 32"
  using unsigned_less [of w, where 'a = nat] by simp

lemma unat_lt_u64: "unat (w :: u64) < 2 ^ 64"
  using unsigned_less [of w, where 'a = nat] by simp

lemma unat_lt_u8: "unat (w :: u8) < 2 ^ 8"
  using unsigned_less [of w, where 'a = nat] by simp

lemma unat_u64_of_u32 [simp]: "unat (ucast (w :: u32) :: u64) = unat w"
  by (simp add: unsigned_ucast_eq take_bit_nat_eq_self less_trans [OF unat_lt_u32])

text \<open>Comparisons of a natural number with a word, as the simplifier leaves them.\<close>

lemma int_compare_uint [simp]:
  "int n < uint w \<longleftrightarrow> n < unat w" "uint w \<le> int n \<longleftrightarrow> unat w \<le> n"
  "int n \<le> uint w \<longleftrightarrow> n \<le> unat w" "uint w < int n \<longleftrightarrow> unat w < n"
  "int n = uint w \<longleftrightarrow> n = unat w" "uint w = int n \<longleftrightarrow> unat w = n"
  by (simp_all only: uint_nat of_nat_less_iff of_nat_le_iff of_nat_eq_iff)

lemma nat_less_unat [simp]: "0 \<le> z \<Longrightarrow> nat z < unat w \<longleftrightarrow> z < uint w"
  by (simp add: nat_less_iff)

lemma unat_le_nat [simp]: "0 \<le> z \<Longrightarrow> unat w \<le> nat z \<longleftrightarrow> uint w \<le> z"
  by (simp add: le_nat_iff)

lemma and_not_mask_eq: "x AND NOT (mask k) = push_bit k (drop_bit k (x :: 'a :: len word))"
  by (rule bit_word_eqI) (auto simp: bit_simps)

lemma unat_and_not_mask [word_simps]:
  fixes x :: "'a :: len word"
  shows "unat (x AND NOT (mask k)) = unat x div 2 ^ k * 2 ^ k"
proof -
  have "unat x div 2 ^ k * 2 ^ k < 2 ^ LENGTH('a)"
    using unsigned_less [of x, where 'a = nat] by (rule le_less_trans [rotated]) simp
  then show ?thesis
    by (simp only: and_not_mask_eq unsigned_push_bit_eq unat_drop_bit_eq)
       (simp add: push_bit_eq_mult drop_bit_eq_div take_bit_nat_eq_self)
qed

lemma unat_and_mask [word_simps]:
  fixes x :: "'a :: len word"
  shows "unat (x AND mask k) = unat x mod 2 ^ k"
  by (simp only: unsigned_take_bit_eq flip: take_bit_eq_mask) (simp only: take_bit_eq_mod)

section \<open>Memory\<close>

definition load :: "bytes \<Rightarrow> nat \<Rightarrow> u8 option" where
  "load s i = (if i < length s then Some (s ! i) else None)"

definition store :: "nat \<Rightarrow> u8 \<Rightarrow> bytes \<Rightarrow> bytes option" where
  "store i v s = (if i < length s then Some (s[i := v]) else None)"

lemma load_Some [c_simps]: "i < length s \<Longrightarrow> load s i = Some (s ! i)"
  by (simp add: load_def)

lemma store_Some [c_simps]: "i < length s \<Longrightarrow> store i v s = Some (s[i := v])"
  by (simp add: store_def)

text \<open>\<open>memcpy(dst + d, src + k, n)\<close> between different objects.\<close>

definition copy_bytes :: "bytes \<Rightarrow> nat \<Rightarrow> nat \<Rightarrow> nat \<Rightarrow> bytes \<Rightarrow> bytes option" where
  "copy_bytes src k d n dst =
     (if k + n \<le> length src \<and> d + n \<le> length dst
      then Some (take d dst @ take n (drop k src) @ drop (d + n) dst) else None)"

text \<open>Three bytes of a pixel written in channel order.\<close>

definition put_rgb :: "nat \<Rightarrow> u8 \<Rightarrow> u8 \<Rightarrow> u8 \<Rightarrow> bytes \<Rightarrow> bytes option" where
  "put_rgb p r g b s = do {
     s \<leftarrow> store p r s;
     s \<leftarrow> store (p + 1) g s;
     store (p + 2) b s }"

section \<open>Loops\<close>

fun foreach :: "'a list \<Rightarrow> ('a \<Rightarrow> 's \<Rightarrow> 's option) \<Rightarrow> 's \<Rightarrow> 's option" where
  "foreach [] body s = Some s"
| "foreach (x # xs) body s = Option.bind (body x s) (foreach xs body)"

text \<open>The loop body of \<open>foreach_brk\<close> also says whether it left the loop by \<open>break\<close>.\<close>

fun foreach_brk :: "'a list \<Rightarrow> ('a \<Rightarrow> 's \<Rightarrow> (bool \<times> 's) option) \<Rightarrow> 's \<Rightarrow> 's option" where
  "foreach_brk [] body s = Some s"
| "foreach_brk (x # xs) body s =
     (case body x s of
        None \<Rightarrow> None
      | Some (brk, s') \<Rightarrow> if brk then Some s' else foreach_brk xs body s')"

lemma bind_Some_map: "Option.bind m (\<lambda>x. Some (f x)) = map_option f m"
  by (cases m) simp_all

lemma foreach_append:
  "foreach (xs @ ys) body s = Option.bind (foreach xs body s) (foreach ys body)"
  by (induction xs arbitrary: s) (auto simp: fun_eq_iff intro!: Option.bind_cong)

lemma foreach_snoc: "foreach (xs @ [x]) f s = Option.bind (foreach xs f s) (f x)"
proof -
  have "Option.bind m (foreach [] f) = m" for m
    by (cases m) simp_all
  then show ?thesis
    by (cases "foreach xs f s") (simp_all add: foreach_append)
qed

lemma foreach_cong [fundef_cong]:
  assumes "xs = ys" and "s = t" and "\<And>x s. x \<in> set ys \<Longrightarrow> body x s = body' x s"
  shows "foreach xs body s = foreach ys body' t"
proof -
  have "foreach ys body t = foreach ys body' t"
    using assms(3) by (induction ys arbitrary: t) (auto intro!: Option.bind_cong)
  then show ?thesis using assms by simp
qed

text \<open>A loop over the indices of an array is a loop over its elements.\<close>

lemma foreach_nth:
  assumes "n = length xs"
  shows "foreach [0..<n] (\<lambda>i s. if i < length xs then f (xs ! i) s else None) s = foreach xs f s"
proof -
  have map: "foreach (map g ys) f s = foreach ys (\<lambda>y. f (g y)) s" for g :: "nat \<Rightarrow> 'a" and ys s
    by (induction ys arbitrary: s) (auto intro!: Option.bind_cong)
  have "foreach [0..<n] (\<lambda>i s. if i < length xs then f (xs ! i) s else None) s =
      foreach [0..<n] (\<lambda>i. f (xs ! i)) s"
    using assms by (intro foreach_cong) simp_all
  also have "\<dots> = foreach (map ((!) xs) [0..<n]) f s"
    by (simp add: map)
  finally show ?thesis
    using assms by (simp add: map_nth)
qed

text \<open>A loop whose body always succeeds is a fold.\<close>

lemma foreach_fold:
  assumes "\<And>x s. x \<in> set xs \<Longrightarrow> body x s = Some (g x s)"
  shows "foreach xs body s = Some (fold g xs s)"
  using assms by (induction xs arbitrary: s) auto

text \<open>The invariant rule: total correctness of a counted loop.\<close>

lemma foreach_invariant:
  assumes "I s"
    and "\<And>x s. x \<in> set xs \<Longrightarrow> I s \<Longrightarrow> \<exists>s'. body x s = Some s' \<and> I s'"
  shows "\<exists>s'. foreach xs body s = Some s' \<and> I s'"
  using assms
proof (induction xs arbitrary: s)
  case Nil
  then show ?case by simp
next
  case (Cons x xs)
  obtain s' where "body x s = Some s'" and "I s'"
    using Cons.prems by (meson list.set_intros(1))
  then show ?case
    using Cons.IH [of s'] Cons.prems(2) by simp
qed

text \<open>The same rule with the loop counter in the invariant.\<close>

lemma foreach_upt_invariant:
  assumes "I 0 s"
    and "\<And>k s. k < n \<Longrightarrow> I k s \<Longrightarrow> \<exists>s'. body k s = Some s' \<and> I (Suc k) s'"
  shows "\<exists>s'. foreach [0..<n] body s = Some s' \<and> I n s'"
  using assms
proof (induction n)
  case 0
  then show ?case by simp
next
  case (Suc n)
  then obtain s' where "foreach [0..<n] body s = Some s'" and "I n s'"
    by (metis less_Suc_eq)
  moreover obtain s'' where "body n s' = Some s''" and "I (Suc n) s''"
    using Suc.prems(2) [of n s'] \<open>I n s'\<close> by auto
  ultimately show ?case
    by (simp add: foreach_append)
qed

text \<open>A \<open>break\<close> whose condition depends on the counter only cuts the list of counter values.\<close>

lemma foreach_brk_takeWhile:
  assumes "\<And>x s. x \<in> set xs \<Longrightarrow>
      body x s = (if stop x then Some (True, s) else map_option (Pair False) (step x s))"
  shows "foreach_brk xs body s = foreach (takeWhile (\<lambda>x. \<not> stop x) xs) step s"
  using assms
proof (induction xs arbitrary: s)
  case (Cons x xs)
  then show ?case
    by (cases "stop x"; cases "step x s") auto
qed simp

lemma set_takeWhile_upto:
  assumes "\<And>a b. a \<le> b \<Longrightarrow> P b \<Longrightarrow> P a"
  shows "set (takeWhile P [m..n]) = {z. m \<le> z \<and> z \<le> n \<and> P z}"
proof (induction "nat (n - m + 1)" arbitrary: m)
  case 0
  then show ?case by auto
next
  case (Suc k)
  then have "[m..n] = m # [m + 1..n]"
    by (simp add: upto_rec1)
  moreover have "set (takeWhile P [m + 1..n]) = {z. m + 1 \<le> z \<and> z \<le> n \<and> P z}"
    using Suc.hyps(2) by (intro Suc.hyps(1)) simp
  ultimately show ?case
    using assms [of m] Suc.hyps(2) by auto
qed

section \<open>Painting memory\<close>

definition paints :: "(bytes \<Rightarrow> bytes option) \<Rightarrow> bytes \<Rightarrow> (nat \<Rightarrow> bool) \<Rightarrow> (nat \<Rightarrow> u8) \<Rightarrow> bool" where
  "paints f s P v \<longleftrightarrow>
     (\<exists>s'. f s = Some s' \<and> length s' = length s \<and>
           (\<forall>i < length s. s' ! i = (if P i then v i else s ! i)))"

lemma paintsI:
  assumes "f s = Some s'" and "length s' = length s"
    and "\<And>i. i < length s \<Longrightarrow> s' ! i = (if P i then v i else s ! i)"
  shows "paints f s P v"
  using assms by (auto simp: paints_def)

lemma paintsE:
  assumes "paints f s P v"
  obtains s' where "f s = Some s'" and "length s' = length s"
    and "\<And>i. i < length s \<Longrightarrow> P i \<Longrightarrow> s' ! i = v i"
    and "\<And>i. i < length s \<Longrightarrow> \<not> P i \<Longrightarrow> s' ! i = s ! i"
  using assms by (auto simp: paints_def)

lemma paints_skip: "paints Some s (\<lambda>_. False) v"
  by (simp add: paints_def)

lemma paints_store: "i < length s \<Longrightarrow> paints (store i x) s (\<lambda>k. k = i) (\<lambda>_. x)"
  by (auto simp: paints_def c_simps nth_list_update)

text \<open>Two specifications of one effect: what matters is the value at the painted addresses.\<close>

lemma paints_cong:
  assumes "paints f s P v"
    and "\<And>i. i < length s \<Longrightarrow> P i = Q i"
    and "\<And>i. i < length s \<Longrightarrow> P i \<Longrightarrow> v i = w i"
  shows "paints f s Q w"
  using assms by (fastforce simp: paints_def)

lemma paints_seq:
  assumes "paints f s P v"
    and "\<And>s'. f s = Some s' \<Longrightarrow> length s' = length s \<Longrightarrow>
           (\<And>i. i < length s \<Longrightarrow> \<not> P i \<Longrightarrow> s' ! i = s ! i) \<Longrightarrow> paints g s' Q w"
  shows "paints (\<lambda>s. Option.bind (f s) g) s (\<lambda>i. P i \<or> Q i) (\<lambda>i. if Q i then w i else v i)"
proof -
  obtain s' where s': "f s = Some s'" "length s' = length s"
    "\<And>i. i < length s \<Longrightarrow> s' ! i = (if P i then v i else s ! i)"
    using assms(1) by (auto simp: paints_def)
  then have "paints g s' Q w"
    by (intro assms(2)) auto
  with s' show ?thesis
    by (auto simp: paints_def)
qed

text \<open>
  A loop of painting steps with one value function: what the iterations write is the union
  of their footprints. A step may rely on every byte outside the union being unchanged.
\<close>

lemma paints_foreach:
  assumes "\<And>x s. x \<in> set xs \<Longrightarrow> length s = length s0 \<Longrightarrow>
      (\<And>i. i < length s0 \<Longrightarrow> \<not> (\<exists>y \<in> set xs. P y i) \<Longrightarrow> s ! i = s0 ! i) \<Longrightarrow>
      paints (body x) s (P x) v"
  shows "paints (foreach xs body) s0 (\<lambda>i. \<exists>x \<in> set xs. P x i) v"
proof -
  define U where "U i \<longleftrightarrow> (\<exists>y \<in> set xs. P y i)" for i
  have "set ys \<subseteq> set xs \<Longrightarrow> length s = length s0 \<Longrightarrow>
      (\<And>i. i < length s0 \<Longrightarrow> \<not> U i \<Longrightarrow> s ! i = s0 ! i) \<Longrightarrow>
      paints (foreach ys body) s (\<lambda>i. \<exists>x \<in> set ys. P x i) v" for ys s
  proof (induction ys arbitrary: s)
    case Nil
    then show ?case by (simp add: paints_def)
  next
    case (Cons y ys)
    have "paints (body y) s (P y) v"
      using Cons.prems by (intro assms) (auto simp: U_def)
    then obtain s' where s': "body y s = Some s'" "length s' = length s"
      "\<And>i. i < length s \<Longrightarrow> s' ! i = (if P y i then v i else s ! i)"
      by (auto simp: paints_def)
    have "paints (foreach ys body) s' (\<lambda>i. \<exists>x \<in> set ys. P x i) v"
      using Cons.prems s' by (intro Cons.IH) (auto simp: U_def)
    with s' show ?case
      by (auto simp: paints_def)
  qed
  from this [of xs s0] show ?thesis
    by simp
qed

lemma paints_put_rgb:
  assumes "p + 2 < length s"
  shows "paints (put_rgb p r g b) s (\<lambda>i. p \<le> i \<and> i < p + 3)
           (\<lambda>i. if i = p then r else if i = p + 1 then g else b)"
  using assms
  by (intro paintsI [where s' = "s[p := r, p + 1 := g, p + 2 := b]"])
     (auto simp: put_rgb_def c_simps nth_list_update)

lemma paints_copy_bytes:
  assumes "k + n \<le> length src" and "d + n \<le> length s"
  shows "paints (copy_bytes src k d n) s (\<lambda>i. d \<le> i \<and> i < d + n) (\<lambda>i. src ! (i - d + k))"
proof (rule paintsI [where s' = "take d s @ take n (drop k src) @ drop (d + n) s"])
  show "copy_bytes src k d n s = Some (take d s @ take n (drop k src) @ drop (d + n) s)"
    using assms by (simp add: copy_bytes_def)
  show "length (take d s @ take n (drop k src) @ drop (d + n) s) = length s"
    using assms by simp
  fix i assume i: "i < length s"
  show "(take d s @ take n (drop k src) @ drop (d + n) s) ! i =
      (if d \<le> i \<and> i < d + n then src ! (i - d + k) else s ! i)"
    using assms i by (auto simp: nth_append add.commute)
qed

lemmas paints_rules = paints_skip paints_store paints_put_rgb paints_copy_bytes

end
