(* ===== verification/Float32.thy ===== *)
theory Float32
  imports Prelude "HOL-Library.Log_Nat"
begin

text \<open>
  The binary32 arithmetic that the layout code uses (\<open>float\<close> in \<open>pipeline/canvas.c\<close>,
  \<open>pipeline/canvas.h\<close> and \<open>pipeline/layout.c\<close>): values are rationals, the two
  infinities or a NaN; every operation rounds its exact result to nearest, ties to even, to
  24 bits of precision, with subnormals and overflow to infinity. The sign of zero is not
  kept: the program divides only by converted unsigned integers and by a positive constant,
  so no result depends on it.
\<close>

section \<open>Rounding\<close>

definition pow2 :: "int \<Rightarrow> rat" where
  "pow2 k = (if 0 \<le> k then 2 ^ nat k else 1 / 2 ^ nat (- k))"

definition round_even :: "rat \<Rightarrow> int" where
  "round_even x = (let f = \<lfloor>x\<rfloor>; d = x - of_int f in
     if d < 1 / 2 then f else if 1 / 2 < d then f + 1 else if even f then f else f + 1)"

text \<open>The exponent \<open>e\<close> with \<open>2\<^sup>e \<le> |x| < 2\<^sup>e\<^sup>+\<^sup>1\<close> of a non-zero \<open>x\<close>.\<close>

definition exponent :: "rat \<Rightarrow> int" where
  "exponent x = (case quotient_of \<bar>x\<bar> of (p, q) \<Rightarrow>
     let e = bitlen p - bitlen q in if pow2 e \<le> \<bar>x\<bar> then e else e - 1)"

text \<open>The exponent of the unit in the last place, \<open>-149\<close> for subnormals.\<close>

definition ulp_exponent :: "rat \<Rightarrow> int" where
  "ulp_exponent x = max (exponent x - 23) (- 149)"

definition round24 :: "rat \<Rightarrow> rat" where
  "round24 x = (if x = 0 then 0 else
     let u = pow2 (ulp_exponent x) in of_int (round_even (x / u)) * u)"

section \<open>Values and operations\<close>

datatype f32 = Fin rat | PInf | NInf | NaN

definition fround :: "rat \<Rightarrow> f32" where
  "fround x = (let r = round24 x in if r \<ge> 2 ^ 128 then PInf else if r \<le> - (2 ^ 128) then NInf else Fin r)"

definition f_inf :: "rat \<Rightarrow> f32" where
  "f_inf z = (if z > 0 then PInf else if z < 0 then NInf else NaN)"

fun f_sign :: "f32 \<Rightarrow> rat" where
  "f_sign (Fin a) = sgn a"
| "f_sign PInf = 1"
| "f_sign NInf = - 1"
| "f_sign NaN = 0"

fun fadd :: "f32 \<Rightarrow> f32 \<Rightarrow> f32" where
  "fadd (Fin a) (Fin b) = fround (a + b)"
| "fadd NaN _ = NaN"
| "fadd _ NaN = NaN"
| "fadd PInf NInf = NaN"
| "fadd NInf PInf = NaN"
| "fadd PInf _ = PInf"
| "fadd NInf _ = NInf"
| "fadd (Fin _) y = y"

fun fmul :: "f32 \<Rightarrow> f32 \<Rightarrow> f32" where
  "fmul (Fin a) (Fin b) = fround (a * b)"
| "fmul NaN _ = NaN"
| "fmul _ NaN = NaN"
| "fmul x y = f_inf (f_sign x * f_sign y)"

fun fdiv :: "f32 \<Rightarrow> f32 \<Rightarrow> f32" where
  "fdiv (Fin a) (Fin b) = (if b = 0 then f_inf (sgn a) else fround (a / b))"
| "fdiv NaN _ = NaN"
| "fdiv _ NaN = NaN"
| "fdiv (Fin _) _ = Fin 0"
| "fdiv x (Fin b) = f_inf (f_sign x * (if b < 0 then - 1 else 1))"
| "fdiv _ _ = NaN"

fun flt :: "f32 \<Rightarrow> f32 \<Rightarrow> bool" where
  "flt (Fin a) (Fin b) \<longleftrightarrow> a < b"
| "flt NaN _ \<longleftrightarrow> False"
| "flt _ NaN \<longleftrightarrow> False"
| "flt NInf y \<longleftrightarrow> y \<noteq> NInf"
| "flt x PInf \<longleftrightarrow> x \<noteq> PInf"
| "flt _ _ \<longleftrightarrow> False"

text \<open>The conversions \<open>(float)n\<close> and \<open>(uint32_t)f\<close>; the latter truncates and is undefined out of range.\<close>

definition f_of_u32 :: "u32 \<Rightarrow> f32" where
  "f_of_u32 n = fround (of_nat (unat n))"

fun u32_of_f :: "f32 \<Rightarrow> u32 option" where
  "u32_of_f (Fin a) = (if - 1 < a \<and> a < 2 ^ 32 then Some (of_nat (nat \<lfloor>a\<rfloor>)) else None)"
| "u32_of_f _ = None"

section \<open>The error of rounding\<close>

lemma pow2_powi: "pow2 k = 2 powi k"
  by (simp add: pow2_def power_int_def inverse_eq_divide power_one_over)

lemma pow2_pos [simp]: "0 < pow2 k"
  by (simp add: pow2_def)

lemma pow2_neq_0 [simp]: "pow2 k \<noteq> 0"
  using pow2_pos [of k] by (metis less_irrefl)

lemma pow2_add: "pow2 (a + b) = pow2 a * pow2 b"
  by (simp add: pow2_powi power_int_add)

lemma pow2_mono: "a \<le> b \<Longrightarrow> pow2 a \<le> pow2 b"
  by (simp add: pow2_powi power_int_increasing)

lemma bitlen_bounds':
  assumes "0 < p"
  shows "pow2 (bitlen p - 1) \<le> rat_of_int p" and "rat_of_int p < pow2 (bitlen p)"
proof -
  have b: "1 \<le> bitlen p"
    using bitlen_nonneg [of p] bitlen_eq_zero_iff [of p] assms by linarith
  have "2 ^ nat (bitlen p - 1) \<le> p \<and> p < 2 ^ nat (bitlen p)"
    using bitlen_bounds [of p] assms by simp
  then have "rat_of_int (2 ^ nat (bitlen p - 1)) \<le> rat_of_int p"
    "rat_of_int p < rat_of_int (2 ^ nat (bitlen p))"
    by (simp_all only: of_int_le_iff of_int_less_iff)
  then show "pow2 (bitlen p - 1) \<le> rat_of_int p" and "rat_of_int p < pow2 (bitlen p)"
    using b by (simp_all add: pow2_def)
qed

lemma exponent_bounds:
  assumes "x \<noteq> 0"
  shows "pow2 (exponent x) \<le> \<bar>x\<bar>" and "\<bar>x\<bar> < pow2 (exponent x + 1)"
proof -
  obtain p q where pq: "quotient_of \<bar>x\<bar> = (p, q)" by fastforce
  then have x: "\<bar>x\<bar> = of_int p / of_int q" and q: "0 < q"
    by (simp_all add: quotient_of_div quotient_of_denom_pos)
  have p: "0 < p"
  proof -
    have "0 < rat_of_int p / of_int q"
      using assms x by (metis zero_less_abs_iff)
    then show ?thesis
      using q by (simp add: zero_less_divide_iff)
  qed
  define e where "e = bitlen p - bitlen q"
  note bp = bitlen_bounds' [OF p] and bq = bitlen_bounds' [OF q]
  have "\<bar>x\<bar> * of_int q < pow2 (e + 1) * of_int q"
  proof -
    have "\<bar>x\<bar> * of_int q = of_int p" using x q by simp
    also have "\<dots> < pow2 (bitlen p)" by (rule bp)
    also have "\<dots> = pow2 (e + 1) * pow2 (bitlen q - 1)"
      by (simp add: e_def flip: pow2_add)
    also have "\<dots> \<le> pow2 (e + 1) * of_int q"
      using bq(1) by (simp add: mult_left_mono order.strict_implies_order)
    finally show ?thesis .
  qed
  then have up: "\<bar>x\<bar> < pow2 (e + 1)"
    using q by simp
  have "pow2 (e - 1) * of_int q \<le> \<bar>x\<bar> * of_int q"
  proof -
    have "pow2 (e - 1) * of_int q \<le> pow2 (e - 1) * pow2 (bitlen q)"
      using bq(2) by (intro mult_left_mono) (simp_all add: order.strict_implies_order)
    also have "\<dots> = pow2 (bitlen p - 1)"
      by (simp add: e_def flip: pow2_add)
    also have "\<dots> \<le> of_int p" by (rule bp)
    also have "\<dots> = \<bar>x\<bar> * of_int q" using x q by simp
    finally show ?thesis .
  qed
  then have lo: "pow2 (e - 1) \<le> \<bar>x\<bar>"
    using q by simp
  have ex: "exponent x = (if pow2 e \<le> \<bar>x\<bar> then e else e - 1)"
    by (simp add: exponent_def pq e_def Let_def)
  show "pow2 (exponent x) \<le> \<bar>x\<bar>" using lo ex by simp
  show "\<bar>x\<bar> < pow2 (exponent x + 1)" using up ex by simp
qed

lemma round_even_error: "\<bar>of_int (round_even x) - x\<bar> \<le> 1 / 2"
proof -
  have "rat_of_int \<lfloor>x\<rfloor> \<le> x" "x < rat_of_int \<lfloor>x\<rfloor> + 1"
    using floor_correct [of x] by simp_all
  then show ?thesis
    by (auto simp: round_even_def Let_def abs_le_iff)
qed

lemma round24_error: "\<bar>round24 x - x\<bar> \<le> \<bar>x\<bar> / 2 ^ 24 + 1 / 2 ^ 150"
proof (cases "x = 0")
  case False
  define u where "u = pow2 (ulp_exponent x)"
  have u: "0 < u" by (simp add: u_def)
  have "\<bar>round24 x - x\<bar> = \<bar>(of_int (round_even (x / u)) - x / u) * u\<bar>"
    using False u by (simp add: round24_def u_def Let_def left_diff_distrib)
  also have "\<dots> \<le> 1 / 2 * u"
    using round_even_error [of "x / u"] u by (simp add: abs_mult mult_right_mono)
  also have "\<dots> \<le> \<bar>x\<bar> / 2 ^ 24 + 1 / 2 ^ 150"
  proof (cases "exponent x - 23 \<le> - 149")
    case True
    then have "u = pow2 (- 149)" by (simp add: u_def ulp_exponent_def)
    then show ?thesis by (simp add: pow2_def)
  next
    case False
    then have "u * 2 ^ 23 = pow2 (exponent x)"
      by (simp add: u_def ulp_exponent_def pow2_powi power_int_diff)
    then have "u * 2 ^ 23 \<le> \<bar>x\<bar>"
      using exponent_bounds(1) [OF \<open>x \<noteq> 0\<close>] by simp
    then show ?thesis by simp
  qed
  finally show ?thesis .
qed (simp add: round24_def)

lemma round_even_nonneg: "0 \<le> x \<Longrightarrow> 0 \<le> round_even x"
  by (auto simp: round_even_def Let_def)

lemma round24_nonneg: "0 \<le> x \<Longrightarrow> 0 \<le> round24 x"
  by (simp add: round24_def Let_def round_even_nonneg order.strict_implies_order)

text \<open>In the range the program uses, an operation stays finite and close to the exact result.\<close>

lemma fround_approx:
  assumes "0 \<le> x" and "x \<le> 2 ^ 100"
  obtains a where "fround x = Fin a" and "0 \<le> a" and "a \<le> x + x / 2 ^ 24 + 1 / 2 ^ 150"
    and "x - x / 2 ^ 24 - 1 / 2 ^ 150 \<le> a"
proof -
  have e: "\<bar>round24 x - x\<bar> \<le> x / 2 ^ 24 + 1 / 2 ^ 150"
    using round24_error [of x] assms(1) by simp
  have le: "round24 x \<le> x + x / 2 ^ 24 + 1 / 2 ^ 150" "x - x / 2 ^ 24 - 1 / 2 ^ 150 \<le> round24 x"
    using abs_le_D1 [OF e] abs_le_D2 [OF e] by linarith+
  moreover have "x + x / 2 ^ 24 + 1 / 2 ^ 150 < 2 ^ 128"
    using assms by simp
  ultimately have "round24 x < 2 ^ 128"
    by (rule_tac le_less_trans)
  moreover have "0 \<le> round24 x" by (rule round24_nonneg [OF assms(1)])
  ultimately have "fround x = Fin (round24 x)"
    by (simp add: fround_def Let_def)
  then show thesis
    using that le round24_nonneg [OF assms(1)] by blast
qed

section \<open>Scaling an integer by a quotient\<close>

lemma f_of_u32_approx:
  obtains a where "f_of_u32 n = Fin a" and "0 \<le> a"
    and "a \<le> of_nat (unat n) + of_nat (unat n) / 2 ^ 24 + 1 / 2 ^ 150"
    and "of_nat (unat n) - of_nat (unat n) / 2 ^ 24 - 1 / 2 ^ 150 \<le> a"
proof -
  have "rat_of_nat (unat n) \<le> of_nat (2 ^ 32)"
    using unat_lt_u32 [of n] by (simp only: of_nat_le_iff order.strict_implies_order)
  then have "rat_of_nat (unat n) \<le> 2 ^ 100" by simp
  with fround_approx [of "of_nat (unat n)"] that show ?thesis
    unfolding f_of_u32_def by (metis of_nat_0_le_iff)
qed

lemma f_of_u32_bounds:
  assumes "f_of_u32 n = Fin a"
  shows "0 \<le> a" and "a \<le> 2 ^ 33" and "n \<noteq> 0 \<Longrightarrow> 1 / 2 \<le> a" and "n = 0 \<Longrightarrow> a = 0"
    and "a \<le> of_nat (unat n) + of_nat (unat n) / 2 ^ 24 + 1 / 2 ^ 150"
proof -
  have N: "rat_of_nat (unat n) \<le> 2 ^ 32"
  proof -
    have "rat_of_nat (unat n) \<le> of_nat (2 ^ 32)"
      using unat_lt_u32 [of n] by (simp only: of_nat_le_iff order.strict_implies_order)
    then show ?thesis by simp
  qed
  obtain b where b: "f_of_u32 n = Fin b" "0 \<le> b"
    "b \<le> of_nat (unat n) + of_nat (unat n) / 2 ^ 24 + 1 / 2 ^ 150"
    "of_nat (unat n) - of_nat (unat n) / 2 ^ 24 - 1 / 2 ^ 150 \<le> b"
    by (rule f_of_u32_approx)
  then have ab: "b = a" using assms by simp
  show "0 \<le> a" "a \<le> of_nat (unat n) + of_nat (unat n) / 2 ^ 24 + 1 / 2 ^ 150"
    using b ab by simp_all
  show "a \<le> 2 ^ 33" using b(3) N unfolding ab by simp
  show "1 / 2 \<le> a" if "n \<noteq> 0"
  proof -
    have "1 \<le> unat n" using that by (simp add: Suc_leI unat_gt_0)
    then have "rat_of_nat 1 \<le> rat_of_nat (unat n)" by (simp only: of_nat_le_iff)
    then have "1 \<le> rat_of_nat (unat n)" by (simp only: of_nat_1)
    then show ?thesis using b(4) unfolding ab by simp
  qed
  show "a = 0" if "n = 0"
    using that assms by (simp add: f_of_u32_def fround_def round24_def)
qed

text \<open>The quotient of two converted integers is finite and close to the exact one.\<close>

lemma fdiv_u32_approx:
  assumes "n \<noteq> 0" and m: "f_of_u32 m = Fin b" and n: "f_of_u32 n = Fin a"
  obtains q where "fdiv (f_of_u32 m) (f_of_u32 n) = Fin q" and "0 \<le> q"
    and "q \<le> b / a + b / a / 2 ^ 24 + 1 / 2 ^ 150" and "q \<le> 2 ^ 36"
proof -
  note a = f_of_u32_bounds [OF n] and b = f_of_u32_bounds [OF m]
  have a0: "1 / 2 \<le> a" using a(3) assms(1) by blast
  have "b / a \<le> b / (1 / 2)"
    using a0 b(1) by (intro divide_left_mono) simp_all
  also have "\<dots> \<le> 2 ^ 34" using b(2) by simp
  finally have ba: "b / a \<le> 2 ^ 34" .
  then have "b / a \<le> 2 ^ 100" by simp
  moreover have "0 \<le> b / a" using a0 b(1) by simp
  ultimately obtain q where "fround (b / a) = Fin q" "0 \<le> q" "q \<le> b / a + b / a / 2 ^ 24 + 1 / 2 ^ 150"
    using fround_approx [of "b / a"] by metis
  moreover from this(3) ba have "q \<le> 2 ^ 36" by simp
  ultimately show ?thesis
    using that m n a0 by simp
qed

text \<open>
  Scaling an integer by a factor not above the rounded quotient of a bound by that integer
  never passes the bound: three roundings of a value below \<open>2\<^sup>2\<^sup>1\<close> lose less than one half.
\<close>

lemma scaled_le_bound:
  assumes bound: "unat m < 2 ^ 21" and n: "f_of_u32 n = Fin a"
    and q: "0 \<le> q" "q \<le> q'" and q': "n \<noteq> 0 \<Longrightarrow> fdiv (f_of_u32 m) (f_of_u32 n) = Fin q'"
    and small: "q \<le> 2 ^ 36"
  obtains r where "u32_of_f (fmul (f_of_u32 n) (Fin q)) = Some r" and "unat r \<le> unat m"
proof (cases "n = 0")
  case True
  then have "u32_of_f (fmul (f_of_u32 n) (Fin q)) = Some 0"
    using f_of_u32_bounds(4) [OF n] n by (simp add: fround_def round24_def)
  then show ?thesis using that by simp
next
  case False
  obtain b where m: "f_of_u32 m = Fin b" by (rule f_of_u32_approx)
  note a = f_of_u32_bounds [OF n] and b = f_of_u32_bounds [OF m]
  have a0: "1 / 2 \<le> a" using a(3) False by blast
  obtain q1 where "fdiv (f_of_u32 m) (f_of_u32 n) = Fin q1" "q1 \<le> b / a + b / a / 2 ^ 24 + 1 / 2 ^ 150"
    using fdiv_u32_approx [OF False m n] by metis
  then have "q' \<le> b / a + b / a / 2 ^ 24 + 1 / 2 ^ 150"
    using q' False by simp
  then have "a * q \<le> a * (b / a + b / a / 2 ^ 24 + 1 / 2 ^ 150)"
    using q(2) a0 by (intro mult_left_mono) simp_all
  also have "\<dots> = b + b / 2 ^ 24 + a / 2 ^ 150"
    using a0 by (simp add: distrib_left)
  finally have aq: "a * q \<le> b + b / 2 ^ 24 + a / 2 ^ 150" .
  have M: "rat_of_nat (unat m) \<le> 2 ^ 21"
  proof -
    have "rat_of_nat (unat m) \<le> of_nat (2 ^ 21)" using bound by (simp only: of_nat_le_iff order.strict_implies_order)
    then show ?thesis by simp
  qed
  have "a * q \<le> 2 ^ 33 * 2 ^ 36"
    using a(1,2) q(1) small by (intro mult_mono) simp_all
  then have "a * q \<le> 2 ^ 100" by simp
  moreover have "0 \<le> a * q" using a0 q(1) by simp
  ultimately obtain c where c: "fround (a * q) = Fin c" "0 \<le> c" "c \<le> a * q + a * q / 2 ^ 24 + 1 / 2 ^ 150"
    using fround_approx [of "a * q"] by metis
  have "c < of_nat (unat m) + 1"
    using c(3) aq b(5) M a(2) by simp
  then have "\<lfloor>c\<rfloor> < int (unat m) + 1"
    by (subst floor_less_iff) (simp del: of_nat_unat)
  then have fl: "nat \<lfloor>c\<rfloor> \<le> unat m"
    by linarith
  moreover have "c < 2 ^ 32" using \<open>c < of_nat (unat m) + 1\<close> M by simp
  ultimately have "u32_of_f (fmul (f_of_u32 n) (Fin q)) = Some (of_nat (nat \<lfloor>c\<rfloor>))"
    using n c by simp
  moreover have "unat (of_nat (nat \<lfloor>c\<rfloor>) :: u32) = nat \<lfloor>c\<rfloor>"
    using fl bound by (intro unat_of_nat_small) simp
  ultimately show ?thesis
    using that fl by simp
qed

end
