(* ===== verification/Core_Types.thy ===== *)
theory Core_Types
  imports Float32
begin

text \<open>
  The types every layer shares: the result codes of \<open>core/result.h\<close> with the two tables
  that name them, the opcodes, the CPU capability mask, the image buffer descriptor, the
  grid cell and the print job.
\<close>

section \<open>Result codes\<close>

text \<open>
  The seven enumerators of \<open>img_result_t\<close>. C lets any integer be cast to the enumeration
  (the encoder's \<open>-1\<close> is): \<open>IMG_RESULT_RAW\<close> stands for such a value.
\<close>

datatype img_result =
    IMG_SUCCESS
  | IMG_ERR_NOMEM
  | IMG_ERR_FORMAT
  | IMG_ERR_SECURITY
  | IMG_ERR_IO
  | IMG_ERR_HW_UNSUP
  | IMG_ERR_INTERNAL
  | IMG_RESULT_RAW int

fun img_result_name :: "img_result \<Rightarrow> string" where
  "img_result_name IMG_SUCCESS = ''IMG_SUCCESS''"
| "img_result_name IMG_ERR_NOMEM = ''IMG_ERR_NOMEM''"
| "img_result_name IMG_ERR_FORMAT = ''IMG_ERR_FORMAT''"
| "img_result_name IMG_ERR_SECURITY = ''IMG_ERR_SECURITY''"
| "img_result_name IMG_ERR_IO = ''IMG_ERR_IO''"
| "img_result_name IMG_ERR_HW_UNSUP = ''IMG_ERR_HW_UNSUP''"
| "img_result_name IMG_ERR_INTERNAL = ''IMG_ERR_INTERNAL''"
| "img_result_name (IMG_RESULT_RAW _) = ''IMG_ERR_UNKNOWN''"

fun img_error_to_string :: "img_result \<Rightarrow> string" where
  "img_error_to_string IMG_SUCCESS = ''SUCCESS''"
| "img_error_to_string IMG_ERR_NOMEM = ''NOMEM''"
| "img_error_to_string IMG_ERR_FORMAT = ''FORMAT''"
| "img_error_to_string IMG_ERR_SECURITY = ''SECURITY''"
| "img_error_to_string _ = ''UNKNOWN''"

text \<open>
  \<open>img_log_error\<close> prints one line to \<open>stderr\<close>, and nothing for a success; the model
  returns the line. A null \<open>msg\<close> is \<^const>\<open>None\<close>.
\<close>

definition img_log_error :: "img_result \<Rightarrow> string \<Rightarrow> string option \<Rightarrow> string option" where
  "img_log_error res func msg =
     (if res = IMG_SUCCESS then None
      else Some (''[ERROR] func='' @ func @ '' code='' @ img_error_to_string res @ '' msg='' @
             (case msg of Some m \<Rightarrow> m | None \<Rightarrow> ''none'') @ [CHR 0x0A]))"

definition is_enumerator :: "img_result \<Rightarrow> bool" where
  "is_enumerator r \<longleftrightarrow> (\<forall>z. r \<noteq> IMG_RESULT_RAW z)"

section \<open>Opcodes\<close>

definition OP_RESIZE :: u32 where "OP_RESIZE = 0x01"
definition OP_CROP :: u32 where "OP_CROP = 0x02"
definition OP_GRAYSCALE :: u32 where "OP_GRAYSCALE = 0x03"
definition OP_BRIGHTNESS :: u32 where "OP_BRIGHTNESS = 0x04"
definition OP_RESIZE_H :: u32 where "OP_RESIZE_H = 0x10"
definition OP_RESIZE_V :: u32 where "OP_RESIZE_V = 0x11"
definition OP_CUSTOM_BASE :: u32 where "OP_CUSTOM_BASE = 0x1000"

lemmas opcode_defs =
  OP_RESIZE_def OP_CROP_def OP_GRAYSCALE_def OP_BRIGHTNESS_def OP_RESIZE_H_def OP_RESIZE_V_def
  OP_CUSTOM_BASE_def

section \<open>CPU capabilities\<close>

type_synonym cpu_caps = u32

definition CPU_CAP_AVX2 :: cpu_caps where "CPU_CAP_AVX2 = 1"
definition CPU_CAP_AVX512 :: cpu_caps where "CPU_CAP_AVX512 = 2"
definition CPU_CAP_NEON :: cpu_caps where "CPU_CAP_NEON = 4"

definition img_cpu_has_avx2 :: "cpu_caps \<Rightarrow> bool" where
  "img_cpu_has_avx2 caps \<longleftrightarrow> caps AND CPU_CAP_AVX2 \<noteq> 0"

definition img_cpu_has_avx512 :: "cpu_caps \<Rightarrow> bool" where
  "img_cpu_has_avx512 caps \<longleftrightarrow> caps AND CPU_CAP_AVX512 \<noteq> 0"

definition img_cpu_has_neon :: "cpu_caps \<Rightarrow> bool" where
  "img_cpu_has_neon caps \<longleftrightarrow> caps AND CPU_CAP_NEON \<noteq> 0"

text \<open>
  Detection on x86-64: \<open>max_leaf\<close> is what \<open>__get_cpuid_max\<close> returns and \<open>ebx\<close> the
  register of leaf 7.
\<close>

definition img_cpu_detect_caps :: "u32 \<Rightarrow> u32 \<Rightarrow> cpu_caps" where
  "img_cpu_detect_caps max_leaf ebx =
     (if max_leaf \<ge> 7 then
        (if ebx AND push_bit 5 1 \<noteq> 0 then CPU_CAP_AVX2 else 0) OR
        (if ebx AND push_bit 16 1 \<noteq> 0 then CPU_CAP_AVX512 else 0)
      else 0)"

lemmas cpu_defs =
  CPU_CAP_AVX2_def CPU_CAP_AVX512_def CPU_CAP_NEON_def img_cpu_has_avx2_def
  img_cpu_has_avx512_def img_cpu_has_neon_def

section \<open>Image buffers\<close>

text \<open>
  A buffer descriptor. Its \<open>data\<close> field is an address; the bytes it points to are passed
  beside the descriptor to the code that reads or writes them.
\<close>

record img_buffer =
  data :: ptr
  width :: u32
  height :: u32
  channels :: u32
  stride :: u32

definition empty_buffer :: img_buffer where
  "empty_buffer = \<lparr>data = NULL, width = 0, height = 0, channels = 0, stride = 0\<rparr>"

text \<open>
  \<open>rgb_view buf n\<close>: the descriptor is an RGB image whose rows are packed and whose bytes
  lie within \<open>n\<close> bytes of storage. Every image the print pipeline builds has this shape.
\<close>

definition rgb_view :: "img_buffer \<Rightarrow> nat \<Rightarrow> bool" where
  "rgb_view buf n \<longleftrightarrow>
     channels buf = 3 \<and> unat (stride buf) = 3 * unat (width buf) \<and>
     3 * unat (width buf) * unat (height buf) \<le> n"

abbreviation W :: "img_buffer \<Rightarrow> nat" where "W buf \<equiv> unat (width buf)"
abbreviation H :: "img_buffer \<Rightarrow> nat" where "H buf \<equiv> unat (height buf)"

lemma rgb_viewD:
  assumes "rgb_view buf n"
  shows "channels buf = 3" and "unat (stride buf) = 3 * W buf" and "3 * W buf * H buf \<le> n"
  using assms by (auto simp: rgb_view_def)

text \<open>The address of channel \<open>c\<close> of pixel \<open>(x, y)\<close> in a packed image of width \<open>w\<close>.\<close>

definition pix :: "nat \<Rightarrow> nat \<Rightarrow> nat \<Rightarrow> nat \<Rightarrow> nat" where
  "pix w x y c = 3 * w * y + 3 * x + c"

lemma pix_in_view:
  assumes "x < w" and "y < h" and "c < 3"
  shows "pix w x y c < 3 * w * h"
proof -
  have "pix w x y c < 3 * w * y + 3 * w"
    using assms by (simp add: pix_def)
  also have "\<dots> = 3 * w * Suc y" by simp
  also have "\<dots> \<le> 3 * w * h"
    using assms(2) by (intro mult_le_mono2) simp
  finally show ?thesis .
qed

text \<open>Every byte of a packed image is one channel of one pixel.\<close>

lemma pix_row: "x < w \<Longrightarrow> c < 3 \<Longrightarrow> pix w x y c div (3 * w) = y"
  by (simp add: pix_def div_eq_dividend_iff add.assoc)

lemma pix_col: "x < w \<Longrightarrow> c < 3 \<Longrightarrow> pix w x y c mod (3 * w) div 3 = x"
  by (simp add: pix_def add.assoc)

lemma pix_channel:
  assumes "c < 3"
  shows "pix w x y c mod 3 = c"
proof -
  have "pix w x y c = c + (w * y + x) * 3"
    by (simp add: pix_def)
  then have "pix w x y c mod 3 = c mod 3"
    by (simp only: mod_mult_self1)
  then show ?thesis
    using assms by simp
qed

lemma pix_inject:
  assumes "x < w" "c < 3" "x' < w" "c' < 3"
  shows "pix w x y c = pix w x' y' c' \<longleftrightarrow> x = x' \<and> y = y' \<and> c = c'"
  using assms by (metis pix_channel pix_col pix_row)

lemma pix_surj:
  assumes "0 < w"
  shows "i = pix w (i mod (3 * w) div 3) (i div (3 * w)) (i mod 3)"
    and "i mod (3 * w) div 3 < w" and "i mod 3 < 3"
proof -
  have "i mod (3 * w) = 3 * (i mod (3 * w) div 3) + i mod 3"
    by (metis mod_mod_cancel dvd_triv_left mult_div_mod_eq)
  then show "i = pix w (i mod (3 * w) div 3) (i div (3 * w)) (i mod 3)"
    by (metis (no_types, lifting) add.assoc mult_div_mod_eq pix_def)
  have "i mod (3 * w) < 3 * w"
    using assms by simp
  then show "i mod (3 * w) div 3 < w"
    by (simp add: less_mult_imp_div_less mult.commute)
qed simp

section \<open>Print jobs and grid cells\<close>

datatype img_scale_mode = IMG_FIT | IMG_FILL

record img_job =
  abi_version :: u32
  photo_w_cm :: f32
  photo_h_cm :: f32
  dpi :: u32
  cols :: u32
  rows :: u32
  gap :: u32
  padding :: u32
  border_px :: u32
  bleed_px :: u32
  crop_mark_px :: u32
  crop_thickness :: u32
  crop_offset_px :: u32
  scale_mode :: img_scale_mode
  bg_r :: u8
  bg_g :: u8
  bg_b :: u8

definition IMG_JOB_ABI_VERSION :: u32 where "IMG_JOB_ABI_VERSION = 1"

text \<open>\<open>img_job_defaults\<close>: the literals \<open>4.5f\<close> and \<open>3.5f\<close> are exact.\<close>

definition img_job_defaults :: img_job where
  "img_job_defaults =
     \<lparr>abi_version = IMG_JOB_ABI_VERSION, photo_w_cm = Fin (9 / 2), photo_h_cm = Fin (7 / 2),
      dpi = 300, cols = 2, rows = 3, gap = 15, padding = 20, border_px = 2, bleed_px = 10,
      crop_mark_px = 20, crop_thickness = 2, crop_offset_px = 8, scale_mode = IMG_FILL,
      bg_r = 255, bg_g = 255, bg_b = 255\<rparr>"

record img_cell =
  cell_x :: u32
  cell_y :: u32
  cell_w :: u32
  cell_h :: u32

record img_layout =
  cells :: "img_cell list"
  count :: u32

end
