(* ===== verification/Arena.thy ===== *)
theory Arena
  imports Core_Types
begin

text \<open>
  The bump allocator of \<open>memory/arena.c\<close> and its clients \<open>img_batch_create\<close> (theory \<open>Context\<close>)
  (\<open>core/batch_builder.c\<close>) and \<open>img_pipeline_build\<close> (\<open>pipeline/pipeline_build.c\<close>).
\<close>

section \<open>Operations\<close>

record img_arena =
  base :: ptr
  asize :: u64
  offset :: u64

definition align64 :: "u64 \<Rightarrow> u64" where
  "align64 x = (x + 63) AND NOT 63"

text \<open>
  \<open>hdr_ok\<close> says whether \<open>malloc\<close> gave room for the header, \<open>mem\<close> is what
  \<open>aligned_alloc\<close> returned for the rounded size.
\<close>

definition img_arena_create :: "bool \<Rightarrow> (u64 \<Rightarrow> ptr) \<Rightarrow> u64 \<Rightarrow> img_arena option" where
  "img_arena_create hdr_ok aligned_alloc n =
     (if \<not> hdr_ok then None
      else let n = align64 n; mem = aligned_alloc n in
        if mem = NULL then None
        else Some \<lparr>base = mem, asize = n, offset = 0\<rparr>)"

definition img_arena_alloc :: "img_arena option \<Rightarrow> u64 \<Rightarrow> ptr \<times> img_arena option" where
  "img_arena_alloc arena n =
     (case arena of
        None \<Rightarrow> (NULL, None)
      | Some a \<Rightarrow>
          let n = align64 n in
          if offset a + n > asize a then (NULL, Some a)
          else (base a + offset a, Some (a\<lparr>offset := offset a + n\<rparr>)))"

definition img_arena_alloc_aligned :: "img_arena option \<Rightarrow> u64 \<Rightarrow> u64 \<Rightarrow> ptr \<times> img_arena option" where
  "img_arena_alloc_aligned arena n align =
     (case arena of
        None \<Rightarrow> (NULL, None)
      | Some a \<Rightarrow>
          if align = 0 then (NULL, Some a)
          else let aligned_offset = (offset a + align - 1) AND NOT (align - 1) in
            if aligned_offset + n > asize a then (NULL, Some a)
            else (base a + aligned_offset, Some (a\<lparr>offset := aligned_offset + n\<rparr>)))"

definition img_arena_reset :: "img_arena option \<Rightarrow> img_arena option" where
  "img_arena_reset arena = map_option (\<lambda>a. a\<lparr>offset := 0\<rparr>) arena"

section \<open>Alignment\<close>

lemma align64_mask: "align64 x = (x + 63) AND NOT (mask 6)"
proof -
  have "(mask 6 :: u64) = 63" by (simp add: mask_eq_exp_minus_1)
  then show ?thesis by (simp add: align64_def)
qed

lemma unat_align64_wrap: "unat (align64 x) = unat (x + 63) div 64 * 64"
  by (simp add: align64_mask unat_and_not_mask)

lemma unat_align64:
  assumes "unat x + 63 < 2 ^ 64"
  shows "unat (align64 x) = (unat x + 63) div 64 * 64"
proof -
  have "unat (x + 63) = unat x + 63"
    using assms unat_add_small [of x 63] by simp
  then show ?thesis
    by (simp add: unat_align64_wrap)
qed

lemma align64_dvd: "64 dvd unat (align64 x)"
  by (simp add: unat_align64_wrap)

lemma align64_ge: "unat x + 63 < 2 ^ 64 \<Longrightarrow> unat x \<le> unat (align64 x)"
  by (simp add: unat_align64)

section \<open>Well-formed arenas\<close>

text \<open>
  The storage is an object of the C heap: it does not wrap around the address space and is
  smaller than \<open>PTRDIFF_MAX\<close>.
\<close>

definition arena_wf :: "img_arena \<Rightarrow> bool" where
  "arena_wf a \<longleftrightarrow> base a \<noteq> NULL \<and> unat (offset a) \<le> unat (asize a) \<and> unat (asize a) < 2 ^ 63 \<and>
     unat (base a) + unat (asize a) < 2 ^ 64"

lemma arena_wfD:
  assumes "arena_wf a"
  shows "base a \<noteq> NULL" and "unat (offset a) \<le> unat (asize a)" and "unat (asize a) < 2 ^ 63"
    and "unat (base a) + unat (asize a) < 2 ^ 64"
  using assms by (auto simp: arena_wf_def)

lemma arena_create_wf:
  assumes "img_arena_create hdr_ok aligned_alloc n = Some a"
    and "unat n \<le> 2 ^ 62"
    and "unat (aligned_alloc (align64 n)) + unat (align64 n) < 2 ^ 64"
  shows "arena_wf a \<and> unat n \<le> unat (asize a) \<and> offset a = 0"
proof -
  have "unat (align64 n) < 2 ^ 63"
    using assms(2) by (simp add: unat_align64)
  then show ?thesis
    using assms align64_ge [of n]
    by (auto simp: img_arena_create_def arena_wf_def Let_def split: if_splits)
qed

text \<open>The capacity test of \<open>img_arena_alloc\<close> reads as the exact inequality below \<open>2\<^sup>6\<^sup>3\<close>.\<close>

lemma unat_offset_add:
  assumes "arena_wf a" and "unat n < 2 ^ 63"
  shows "unat (offset a + n) = unat (offset a) + unat n"
  using arena_wfD [OF assms(1)] assms(2) by (intro unat_add_small) simp

lemma unat_base_add:
  assumes "arena_wf a" and "unat n \<le> unat (asize a)"
  shows "unat (base a + n) = unat (base a) + unat n"
  using arena_wfD [OF assms(1)] assms(2) by (intro unat_add_small) simp

lemma align64_lt: "unat n \<le> 2 ^ 62 \<Longrightarrow> unat (align64 n) < 2 ^ 63"
  by (simp add: unat_align64)

lemma arena_alloc_cases:
  assumes "arena_wf a" and "unat n \<le> 2 ^ 62"
  obtains
    (full) "img_arena_alloc (Some a) n = (NULL, Some a)"
      and "unat (asize a) < unat (offset a) + unat (align64 n)"
  | (room) a' where "img_arena_alloc (Some a) n = (base a + offset a, Some a')"
      and "base a' = base a" and "asize a' = asize a"
      and "unat (offset a') = unat (offset a) + unat (align64 n)"
      and "unat (offset a') \<le> unat (asize a)"
proof (cases "offset a + align64 n > asize a")
  case True
  then show ?thesis
    using full assms align64_lt [OF assms(2)]
    by (simp add: img_arena_alloc_def word_less_nat_alt unat_offset_add)
next
  case False
  then show ?thesis
    using room [of "a\<lparr>offset := offset a + align64 n\<rparr>"] assms align64_lt [OF assms(2)]
    by (simp add: img_arena_alloc_def word_less_nat_alt unat_offset_add)
qed

text \<open>
  A successful allocation of up to \<open>2\<^sup>6\<^sup>2\<close> bytes returns a region that starts where
  the arena's used part ends, is inside the arena, and is inside the new used part; an
  allocation fails exactly when the rounded size does not fit, and then changes nothing.
\<close>

theorem arena_alloc_correct:
  assumes "arena_wf a" and "unat n \<le> 2 ^ 62"
  shows "case img_arena_alloc (Some a) n of
      (p, None) \<Rightarrow> False
    | (p, Some a') \<Rightarrow>
        arena_wf a' \<and>
        (if unat (asize a) < unat (offset a) + (unat n + 63) div 64 * 64
         then p = NULL \<and> a' = a
         else p \<noteq> NULL \<and> base a' = base a \<and> asize a' = asize a \<and>
           unat p = unat (base a) + unat (offset a) \<and>
           unat p + unat n \<le> unat (base a) + unat (offset a') \<and>
           unat (offset a') \<le> unat (asize a))"
  using assms
proof (cases rule: arena_alloc_cases)
  case full
  then show ?thesis
    using assms by (simp add: unat_align64)
next
  case (room a')
  have p: "unat (base a + offset a) = unat (base a) + unat (offset a)"
    using arena_wfD [OF assms(1)] by (intro unat_base_add assms)
  moreover have "unat n \<le> unat (align64 n)"
    using assms(2) by (intro align64_ge) simp
  moreover have "base a + offset a \<noteq> NULL"
    using p arena_wfD(1) [OF assms(1)] by (metis add_is_0 unat_0 unat_eq_zero)
  ultimately show ?thesis
    using room arena_wfD [OF assms(1)] assms(2) by (simp add: unat_align64 arena_wf_def)
qed

theorem arena_alloc_correct_witness:
  "arena_wf \<lparr>base = 4096, asize = 1048576, offset = 64\<rparr> \<and>
   img_arena_alloc (Some \<lparr>base = 4096, asize = 1048576, offset = 64\<rparr>) 100 =
     (4160, Some \<lparr>base = 4096, asize = 1048576, offset = 192\<rparr>)"
  using arena_alloc_correct [of "\<lparr>base = 4096, asize = 1048576, offset = 64\<rparr>" 100]
  by (simp add: arena_wf_def img_arena_alloc_def align64_def)

section \<open>Sequences of allocations\<close>

text \<open>The regions a sequence of requests is given, in order; a refused request gives none.\<close>

fun arena_allocs :: "img_arena \<Rightarrow> u64 list \<Rightarrow> (ptr \<times> u64) list \<times> img_arena" where
  "arena_allocs a [] = ([], a)"
| "arena_allocs a (n # ns) =
     (case img_arena_alloc (Some a) n of
        (p, None) \<Rightarrow> ([], a)
      | (p, Some a') \<Rightarrow>
          (let (rs, a'') = arena_allocs a' ns in (if p = NULL then rs else (p, n) # rs, a'')))"

definition in_arena :: "img_arena \<Rightarrow> nat \<Rightarrow> ptr \<times> u64 \<Rightarrow> bool" where
  "in_arena a lo r \<longleftrightarrow> unat (base a) + lo \<le> unat (fst r) \<and>
     unat (fst r) + unat (snd r) \<le> unat (base a) + unat (asize a)"

definition before :: "ptr \<times> u64 \<Rightarrow> ptr \<times> u64 \<Rightarrow> bool" where
  "before r q \<longleftrightarrow> unat (fst r) + unat (snd r) \<le> unat (fst q)"

text \<open>
  C16. The regions handed out by any sequence of requests of at most \<open>2\<^sup>6\<^sup>2\<close> bytes each are
  pairwise disjoint, in increasing order, and inside the arena's storage above the offset it
  started from. The bound is needed: \<open>arena_alloc_wraps\<close> below is a request near \<open>2\<^sup>6\<^sup>4\<close> bytes that
  is accepted and lets the next region overlap an old one.
\<close>

theorem arena_allocs_disjoint:
  assumes "arena_wf a" and "\<forall>n \<in> set ns. unat n \<le> 2 ^ 62"
  shows "arena_wf (snd (arena_allocs a ns)) \<and> sorted_wrt before (fst (arena_allocs a ns)) \<and>
    (\<forall>r \<in> set (fst (arena_allocs a ns)). in_arena a (unat (offset a)) r)"
  using assms
proof (induction ns arbitrary: a)
  case Nil
  then show ?case by simp
next
  case (Cons n ns)
  have n: "unat n \<le> 2 ^ 62" and ns: "\<forall>n \<in> set ns. unat n \<le> 2 ^ 62"
    using Cons.prems by auto
  obtain p o' where step: "img_arena_alloc (Some a) n = (p, o')"
    by fastforce
  obtain a' where a': "o' = Some a'"
    using arena_alloc_cases [OF Cons.prems(1) n] step by (metis prod.inject)
  have IH: "arena_wf a' \<Longrightarrow> arena_wf (snd (arena_allocs a' ns)) \<and>
      sorted_wrt before (fst (arena_allocs a' ns)) \<and>
      (\<forall>r \<in> set (fst (arena_allocs a' ns)). in_arena a' (unat (offset a')) r)"
    using Cons.IH ns by blast
  show ?case
    using Cons.prems(1) n
  proof (cases rule: arena_alloc_cases)
    case full
    then show ?thesis
      using step a' IH Cons.prems(1) by (simp add: split_beta)
  next
    case (room b)
    have wf': "arena_wf a'" and b: "b = a'"
      using room step a' Cons.prems(1) by (auto simp: arena_wf_def)
    have p: "p = base a + offset a" "unat p = unat (base a) + unat (offset a)"
      using room step unat_base_add [OF Cons.prems(1)] arena_wfD(2) [OF Cons.prems(1)] by auto
    have "unat n \<le> unat (align64 n)"
      using n by (intro align64_ge) simp
    then have "in_arena a (unat (offset a)) (p, n)"
      and "\<forall>r \<in> set (fst (arena_allocs a' ns)). before (p, n) r \<and> in_arena a (unat (offset a)) r"
      using IH [OF wf'] p room b by (fastforce simp: in_arena_def before_def)+
    then show ?thesis
      using step a' IH [OF wf'] by (auto simp: split_beta)
  qed
qed

theorem arena_allocs_disjoint_witness:
  "fst (arena_allocs \<lparr>base = 4096, asize = 256, offset = 0\<rparr> [10, 100, 100, 1]) =
     [(4096, 10), (4160, 100), (4288, 1)] \<and>
   sorted_wrt before (fst (arena_allocs \<lparr>base = 4096, asize = 256, offset = 0\<rparr> [10, 100, 100, 1]))"
  using arena_allocs_disjoint [of "\<lparr>base = 4096, asize = 256, offset = 0\<rparr>" "[10, 100, 100, 1]"]
  by (simp add: arena_wf_def img_arena_alloc_def align64_def)

text \<open>
  The test \<open>offset + size > asize\<close> is not overflow-safe: a request near \<open>2\<^sup>6\<^sup>4\<close> is
  accepted and moves the offset \<^emph>\<open>back\<close>, so that the next allocation overlaps an old one.
\<close>

lemma arena_alloc_wraps:
  "img_arena_alloc (Some \<lparr>base = 4096, asize = 1048576, offset = 128\<rparr>) (- 64) =
     (4224, Some \<lparr>base = 4096, asize = 1048576, offset = 64\<rparr>)"
  by (simp add: img_arena_alloc_def align64_def)

section \<open>Explicit alignment\<close>

lemma arena_alloc_aligned_correct:
  assumes "arena_wf a" and "k < 62" and "unat n \<le> 2 ^ 62"
  shows "case img_arena_alloc_aligned (Some a) n (2 ^ k) of
      (p, None) \<Rightarrow> False
    | (p, Some a') \<Rightarrow> arena_wf a' \<and>
        (let o' = (unat (offset a) + 2 ^ k - 1) div 2 ^ k * 2 ^ k in
         if unat (asize a) < o' + unat n then p = NULL \<and> a' = a
         else unat p = unat (base a) + o' \<and> unat (offset a') = o' + unat n)"
proof -
  define o' where "o' = (unat (offset a) + 2 ^ k - 1) div 2 ^ k * 2 ^ k"
  define w where "w = (offset a + 2 ^ k - 1) AND NOT (2 ^ k - 1 :: u64)"
  have lt: "(2 :: nat) ^ k < 2 ^ 62"
    using assms(2) by (intro power_strict_increasing) auto
  then have k: "unat (2 ^ k :: u64) = 2 ^ k"
    using unat_of_nat_small [where 'a = 64, of "2 ^ k"] by simp
  have "unat (offset a + 2 ^ k) = unat (offset a) + 2 ^ k"
    using arena_wfD [OF assms(1)] k lt by (subst unat_add_small) auto
  then have "unat (offset a + 2 ^ k - 1) = unat (offset a) + 2 ^ k - 1"
    by (simp add: unat_sub_if' trans_le_add2)
  then have w: "unat w = o'"
    by (simp add: w_def o'_def unat_and_not_mask flip: mask_eq_exp_minus_1)
  have "o' \<le> unat (offset a) + 2 ^ k"
    unfolding o'_def by (rule order_trans [OF div_times_less_eq_dividend]) simp
  then have wn: "unat (w + n) = o' + unat n"
    using w arena_wfD [OF assms(1)] lt assms(3) by (subst unat_add_small) auto
  have p: "o' + unat n \<le> unat (asize a) \<Longrightarrow> unat (base a + w) = unat (base a) + o'"
    using w arena_wfD [OF assms(1)] by (subst unat_add_small) auto
  have "(2 ^ k :: u64) \<noteq> 0"
    using k by (metis unat_0 power_not_zero zero_neq_numeral)
  then show ?thesis
    unfolding o'_def [symmetric]
    using arena_wfD [OF assms(1)] assms(1) wn p
    by (simp add: img_arena_alloc_aligned_def Let_def word_less_nat_alt arena_wf_def flip: w_def)
qed

end
