(* ===== verification/Slab.thy ===== *)
theory Slab
  imports Arena
begin

text \<open>
  The fixed-block allocator of \<open>memory/slab.c\<close>. Memory is a map from block addresses to
  block contents; the free list is threaded through the blocks themselves, the link being
  the first eight bytes of a free block (\<open>slab_block_t.next\<close>), so client data and links
  share storage as in the source. Without the address sanitizer \<open>img_poison_block\<close> is a
  no-op, which is what is modelled.
\<close>

section \<open>Pointers stored in memory\<close>

type_synonym heap = "ptr \<Rightarrow> bytes"

definition le_encode :: "u64 \<Rightarrow> bytes" where
  "le_encode v = map (\<lambda>i. ucast (drop_bit (8 * i) v)) [0..<8]"

definition le_decode :: "bytes \<Rightarrow> u64" where
  "le_decode bs = foldr (\<lambda>b acc. ucast b OR push_bit 8 acc) bs 0"

lemma length_le_encode [simp]: "length (le_encode v) = 8"
  by (simp add: le_encode_def)

lemma take_bit_split_byte:
  fixes w :: u64
  shows "ucast (ucast w :: u8) OR push_bit 8 (take_bit n (drop_bit 8 w)) = take_bit (8 + n) w"
  by (rule bit_word_eqI) (auto simp: bit_simps)

lemma decode_slice:
  "foldr (\<lambda>b acc. ucast b OR push_bit 8 acc) 
       (map (\<lambda>i. ucast (drop_bit (8 * i) v) :: u8) [k..<k + n]) 0 =
     take_bit (8 * n) (drop_bit (8 * k) (v :: u64))"
proof (induction n arbitrary: k)
  case 0
  then show ?case by simp
next
  case (Suc n)
  have "[k..<k + Suc n] = k # [Suc k..<Suc k + n]"
    by (simp add: upt_conv_Cons)
  then show ?case
    using Suc.IH [of "Suc k"] take_bit_split_byte [of "drop_bit (8 * k) v" "8 * n"]
    by (simp add: add.commute)
qed

lemma le_decode_encode [simp]: "le_decode (le_encode v) = v"
  using decode_slice [of v 0 8] by (simp add: le_decode_def le_encode_def take_bit_word_eq_self)

definition read_next :: "heap \<Rightarrow> ptr \<Rightarrow> ptr option" where
  "read_next h p = (if 8 \<le> length (h p) then Some (le_decode (take 8 (h p))) else None)"

definition write_next :: "ptr \<Rightarrow> ptr \<Rightarrow> heap \<Rightarrow> heap option" where
  "write_next p v h =
     (if 8 \<le> length (h p) then Some (h(p := le_encode v @ drop 8 (h p))) else None)"

lemma read_next_write [c_simps]:
  assumes "write_next p v h = Some h'"
  shows "read_next h' q = (if q = p then Some v else read_next h q)"
  using assms by (auto simp: write_next_def read_next_def split: if_splits)

lemma write_next_frame:
  assumes "write_next p v h = Some h'"
  shows "q \<noteq> p \<Longrightarrow> h' q = h q" and "length (h' q) = length (h q)"
  using assms by (auto simp: write_next_def split: if_splits)

section \<open>Operations\<close>

record img_slab_pool =
  free_list :: ptr
  memory :: ptr
  total_size :: u64
  block_size :: u64
  block_count :: u64
  numa_node :: int

text \<open>
  \<open>hdr_ok\<close>: \<open>malloc\<close> gave room for the pool header; \<open>node\<close>: the NUMA node of the
  calling CPU; \<open>numa_alloc\<close>: what \<open>img_numa_alloc_onnode\<close> returns for a size. The
  inner option is the null pool of a failed creation, the outer one undefined behaviour (the
  division by a zero block size).
\<close>

definition img_slab_create ::
  "bool \<Rightarrow> int \<Rightarrow> (u64 \<Rightarrow> ptr) \<Rightarrow> u64 \<Rightarrow> u64 \<Rightarrow> heap \<Rightarrow> (img_slab_pool option \<times> heap) option" where
  "img_slab_create hdr_ok node numa_alloc tot blk h =
     (if \<not> hdr_ok then Some (None, h)
      else let blk = align64 blk; tot = align64 tot; mem = numa_alloc tot in
        if mem = NULL then Some (None, h)
        else if blk = 0 then None
        else do {
          let count = tot div blk;
          (fl, h) \<leftarrow> foreach [0..<unat count]
            (\<lambda>i (fl, h). do {
               h \<leftarrow> write_next (mem + of_nat i * blk) fl h;
               Some (mem + of_nat i * blk, h) }) (NULL, h);
          Some (Some \<lparr>free_list = fl, memory = mem, total_size = tot, block_size = blk,
                     block_count = count, numa_node = node\<rparr>, h) })"

definition img_slab_alloc :: "img_slab_pool option \<Rightarrow> heap \<Rightarrow> (ptr \<times> img_slab_pool option) option" where
  "img_slab_alloc pool h =
     (case pool of
        None \<Rightarrow> Some (NULL, None)
      | Some s \<Rightarrow>
          if free_list s = NULL then Some (NULL, Some s)
          else do {
            nxt \<leftarrow> read_next h (free_list s);
            Some (free_list s, Some (s\<lparr>free_list := nxt\<rparr>)) })"

definition img_slab_free ::
  "img_slab_pool option \<Rightarrow> ptr \<Rightarrow> heap \<Rightarrow> (img_slab_pool option \<times> heap) option" where
  "img_slab_free pool p h =
     (case pool of
        None \<Rightarrow> Some (None, h)
      | Some s \<Rightarrow>
          if p = NULL then Some (Some s, h)
          else do {
            h \<leftarrow> write_next p (free_list s) h;
            Some (Some (s\<lparr>free_list := p\<rparr>), h) })"

definition img_slab_block_size :: "img_slab_pool option \<Rightarrow> u64" where
  "img_slab_block_size pool = (case pool of None \<Rightarrow> 0 | Some s \<Rightarrow> block_size s)"

section \<open>The free list\<close>

fun chain :: "heap \<Rightarrow> ptr \<Rightarrow> ptr list \<Rightarrow> bool" where
  "chain h p [] \<longleftrightarrow> p = NULL"
| "chain h p (x # xs) \<longleftrightarrow> p = x \<and> x \<noteq> NULL \<and> (\<exists>q. read_next h x = Some q \<and> chain h q xs)"

lemma chain_unique: "chain h p xs \<Longrightarrow> chain h p ys \<Longrightarrow> xs = ys"
proof (induction xs arbitrary: p ys)
  case Nil
  then show ?case by (cases ys) auto
next
  case (Cons x xs)
  then show ?case by (cases ys) auto
qed

lemma chain_cong:
  assumes "\<And>x. x \<in> set xs \<Longrightarrow> h' x = h x"
  shows "chain h' p xs = chain h p xs"
  using assms by (induction xs arbitrary: p) (auto simp: read_next_def)

definition blocks :: "img_slab_pool \<Rightarrow> ptr set" where
  "blocks s = {memory s + of_nat i * block_size s | i. i < unat (block_count s)}"

text \<open>
  The representation invariant: \<open>xs\<close> lists the free blocks in allocation order, without
  repetition, and every block of the pool has its full size in memory.
\<close>

definition slab_wf :: "heap \<Rightarrow> img_slab_pool \<Rightarrow> ptr list \<Rightarrow> bool" where
  "slab_wf h s xs \<longleftrightarrow>
     chain h (free_list s) xs \<and> distinct xs \<and> set xs \<subseteq> blocks s \<and> NULL \<notin> blocks s \<and>
     8 \<le> unat (block_size s) \<and> (\<forall>p \<in> blocks s. length (h p) = unat (block_size s))"

lemma slab_wfD:
  assumes "slab_wf h s xs"
  shows "chain h (free_list s) xs" and "distinct xs" and "set xs \<subseteq> blocks s"
    and "NULL \<notin> blocks s" and "8 \<le> unat (block_size s)"
    and "\<And>p. p \<in> blocks s \<Longrightarrow> length (h p) = unat (block_size s)"
  using assms by (auto simp: slab_wf_def)

lemma blocks_free_list [simp]: "blocks (s\<lparr>free_list := p\<rparr>) = blocks s"
  by (simp add: blocks_def)

lemma slab_alloc_Nil:
  assumes "slab_wf h s []"
  shows "img_slab_alloc (Some s) h = Some (NULL, Some s)"
  using slab_wfD(1) [OF assms] by (simp add: img_slab_alloc_def)

lemma slab_alloc_Cons:
  assumes "slab_wf h s (x # xs)"
  obtains q where "img_slab_alloc (Some s) h = Some (x, Some (s\<lparr>free_list := q\<rparr>))"
    and "slab_wf h (s\<lparr>free_list := q\<rparr>) xs" and "x \<noteq> NULL" and "x \<in> blocks s" and "x \<notin> set xs"
proof -
  obtain q where q: "read_next h x = Some q" "chain h q xs" "free_list s = x" "x \<noteq> NULL"
    using slab_wfD(1) [OF assms] by auto
  show ?thesis
  proof (rule that [of q])
    show "img_slab_alloc (Some s) h = Some (x, Some (s\<lparr>free_list := q\<rparr>))"
      using q by (simp add: img_slab_alloc_def)
  qed (use q assms in \<open>auto simp: slab_wf_def\<close>)
qed

lemma slab_free_wf:
  assumes "slab_wf h s xs" and "p \<in> blocks s" and "p \<notin> set xs"
  obtains h' where "img_slab_free (Some s) p h = Some (Some (s\<lparr>free_list := p\<rparr>), h')"
    and "slab_wf h' (s\<lparr>free_list := p\<rparr>) (p # xs)" and "\<And>q. q \<noteq> p \<Longrightarrow> h' q = h q"
proof -
  have "p \<noteq> NULL" and len: "length (h p) = unat (block_size s)"
    using slab_wfD [OF assms(1)] assms(2) by auto
  then obtain h' where h': "write_next p (free_list s) h = Some h'"
    using slab_wfD(5) [OF assms(1)] by (simp add: write_next_def)
  have "\<And>x. x \<in> set xs \<Longrightarrow> h' x = h x"
    using assms(3) write_next_frame(1) [OF h'] by metis
  then have "chain h' (free_list s) xs"
    using slab_wfD(1) [OF assms(1)] chain_cong [of xs h' h] by blast
  with h' \<open>p \<noteq> NULL\<close> assms write_next_frame(2) [OF h'] show ?thesis
    by (intro that [of h'])
       (auto simp: img_slab_free_def slab_wf_def read_next_write write_next_frame(1) [OF h'])
qed

text \<open>A client that owns a block may fill it with anything of the same length.\<close>

lemma slab_client_write:
  assumes "slab_wf h s xs" and "p \<notin> set xs" and "length bs = length (h p)"
  shows "slab_wf (h(p := bs)) s xs"
proof -
  have "chain (h(p := bs)) (free_list s) xs"
    using assms(2) slab_wfD(1) [OF assms(1)] by (subst chain_cong [where h = h]) auto
  then show ?thesis
    using assms by (simp add: slab_wf_def)
qed

lemma slab_other_write:
  assumes "slab_wf h s xs" and "p \<notin> blocks s"
  shows "slab_wf (h(p := bs)) s xs"
proof -
  have "chain (h(p := bs)) (free_list s) xs"
    using assms(2) slab_wfD(1,3) [OF assms(1)] by (subst chain_cong [where h = h]) auto
  then show ?thesis
    using assms by (auto simp: slab_wf_def)
qed

section \<open>Creation\<close>

text \<open>
  What the source relies on of \<open>img_numa_alloc_onnode\<close>: the region it returns does not
  wrap around the address space, and its bytes are there, seen as the pool's blocks.
\<close>

definition fresh_region :: "heap \<Rightarrow> ptr \<Rightarrow> u64 \<Rightarrow> u64 \<Rightarrow> bool" where
  "fresh_region h mem tot blk \<longleftrightarrow> unat mem + unat tot < 2 ^ 64 \<and>
     (\<forall>i < unat (tot div blk). length (h (mem + of_nat i * blk)) = unat blk)"

lemma block_addr:
  assumes "unat mem + unat tot < 2 ^ 64" and "i < unat (tot div blk)"
  shows "unat (mem + of_nat i * blk) = unat mem + i * unat (blk :: u64)"
    and "unat mem + i * unat blk + unat blk \<le> unat mem + unat tot"
proof -
  have "Suc i * unat blk \<le> unat tot div unat blk * unat blk"
    using assms(2) by (intro mult_le_mono1) (simp add: unat_div_distrib)
  also have "\<dots> \<le> unat tot" by simp
  finally show "unat mem + i * unat blk + unat blk \<le> unat mem + unat tot" by simp
  then have lt: "unat mem + i * unat blk < 2 ^ 64"
    using assms(1) by simp
  have i: "unat (of_nat i :: u64) = i"
    using assms(2) unat_lt_u64 [of "tot div blk"] by (intro unat_of_nat_small) simp
  then have "unat (of_nat i * blk) = i * unat blk"
    using lt unat_mult_small [of "of_nat i :: u64" blk] by simp
  then show "unat (mem + of_nat i * blk) = unat mem + i * unat blk"
    using lt unat_add_small [of mem "of_nat i * blk"] by simp
qed

lemma block_addr_inject:
  assumes "unat mem + unat tot < 2 ^ 64" and "blk \<noteq> (0 :: u64)"
    and "i < unat (tot div blk)" and "j < unat (tot div blk)"
  shows "mem + of_nat i * blk = mem + of_nat j * blk \<longleftrightarrow> i = j"
proof
  assume "mem + of_nat i * blk = mem + of_nat j * blk"
  then have "i * unat blk = j * unat blk"
    using block_addr(1) [OF assms(1,3)] block_addr(1) [OF assms(1,4)] by (metis add_left_cancel)
  then show "i = j"
    using assms(2) by (simp add: unat_eq_zero)
qed simp

lemma slab_create_wf:
  assumes "mem \<noteq> NULL" and "align64 b \<noteq> 0"
    and region: "fresh_region h mem (align64 t) (align64 b)"
  obtains s h' where
    "img_slab_create True node (\<lambda>_. mem) t b h = Some (Some s, h')"
    and "block_size s = align64 b" and "memory s = mem"
    and "block_count s = align64 t div align64 b"
    and "slab_wf h' s (map (\<lambda>i. mem + of_nat i * align64 b) (rev [0..<unat (block_count s)]))"
proof -
  define blk where "blk = align64 b"
  define n where "n = unat (align64 t div blk)"
  define addr where "addr = (\<lambda>i. mem + of_nat i * blk)"
  have nowrap: "unat mem + unat (align64 t) < 2 ^ 64"
    and len: "\<And>i. i < n \<Longrightarrow> length (h (addr i)) = unat blk"
    using region by (auto simp: fresh_region_def blk_def n_def addr_def)
  have inj: "\<And>i j. i < n \<Longrightarrow> j < n \<Longrightarrow> addr i = addr j \<longleftrightarrow> i = j"
    using block_addr_inject [OF nowrap] assms(2) by (simp add: addr_def n_def blk_def)
  have addr0: "addr i \<noteq> NULL" if "i < n" for i
    using block_addr(1) [OF nowrap, of i blk] that assms(1)
    by (metis add_is_0 addr_def n_def unat_0 unat_eq_zero)
  have blk8: "8 \<le> unat blk"
    using assms(2) align64_dvd [of b] dvd_imp_le [of 64 "unat blk"]
    by (simp add: blk_def unat_gt_0)
  define I where "I k st = (case st of (fl, h') \<Rightarrow> chain h' fl (map addr (rev [0..<k])) \<and>
      (\<forall>q. length (h' q) = length (h q)))" for k st
  define body where "body i = (\<lambda>(fl, h). do { h \<leftarrow> write_next (addr i) fl h; Some (addr i, h) })" for i
  have step: "\<exists>s'. body k st = Some s' \<and> I (Suc k) s'" if k: "k < n" and "I k st" for k st
  proof -
    obtain fl h1 where st: "st = (fl, h1)" by fastforce
    have I: "chain h1 fl (map addr (rev [0..<k]))" "\<And>q. length (h1 q) = length (h q)"
      using that(2) by (auto simp: I_def st)
    then obtain h2 where h2: "write_next (addr k) fl h1 = Some h2"
      using len [OF k] blk8 by (simp add: write_next_def)
    have "\<And>x. x \<in> set (map addr (rev [0..<k])) \<Longrightarrow> h2 x = h1 x"
      using write_next_frame(1) [OF h2] inj k by fastforce
    then have "chain h2 fl (map addr (rev [0..<k]))"
      using I(1) chain_cong by blast
    then show ?thesis
      using st h2 I(2) addr0 [OF k] write_next_frame(2) [OF h2]
      by (simp add: I_def body_def read_next_write)
  qed
  have "\<exists>st. foreach [0..<n] body (NULL, h) = Some st \<and> I n st"
    by (rule foreach_upt_invariant [where I = I]) (use step in \<open>auto simp: I_def\<close>)
  then obtain fl h' where loop: "foreach [0..<n] body (NULL, h) = Some (fl, h')"
    and I: "I n (fl, h')"
    by auto
  define s where "s = \<lparr>free_list = fl, memory = mem, total_size = align64 t, block_size = blk,
      block_count = align64 t div blk, numa_node = node\<rparr>"
  have blocks: "blocks s = addr ` {..<n}"
    by (auto simp: blocks_def s_def addr_def n_def)
  have "slab_wf h' s (map addr (rev [0..<n]))"
    using I blocks len addr0 blk8 inj
    by (auto simp: slab_wf_def I_def s_def distinct_map inj_on_def)
  then show ?thesis
    using loop assms(1,2)
    by (intro that [of s h'])
       (auto simp: img_slab_create_def s_def n_def blk_def addr_def body_def Let_def cong: foreach_cong)
qed

section \<open>The allocator interface\<close>

text \<open>
  A client of the pool: it asks for a block, gives back a block it owns (requests to free a
  block it does not own are ignored here, as no such client exists) or fills one of its
  blocks. \<open>owned\<close> lists the blocks it holds.
\<close>

datatype client_op = Get | Put ptr | Fill ptr bytes

fun client_run ::
  "('p option \<Rightarrow> heap \<Rightarrow> (ptr \<times> 'p option) option) \<Rightarrow>
   ('p option \<Rightarrow> ptr \<Rightarrow> heap \<Rightarrow> ('p option \<times> heap) option) \<Rightarrow>
   client_op list \<Rightarrow> 'p option \<times> heap \<times> ptr list \<Rightarrow> ('p option \<times> heap \<times> ptr list) option" where
  "client_run alloc release [] st = Some st"
| "client_run alloc release (Get # ops) (s, h, owned) = do {
     (p, s) \<leftarrow> alloc s h;
     client_run alloc release ops (s, h, if p = NULL then owned else p # owned) }"
| "client_run alloc release (Put p # ops) (s, h, owned) =
     (if p \<in> set owned then do {
        (s, h) \<leftarrow> release s p h;
        client_run alloc release ops (s, h, remove1 p owned) }
      else client_run alloc release ops (s, h, owned))"
| "client_run alloc release (Fill p bs # ops) (s, h, owned) =
     client_run alloc release ops
       (s, if p \<in> set owned \<and> length bs = length (h p) then h(p := bs) else h, owned)"

locale block_allocator =
  fixes inv :: "heap \<Rightarrow> 'p \<Rightarrow> ptr list \<Rightarrow> bool"
    and pool_blocks :: "'p \<Rightarrow> ptr set"
    and alloc :: "'p option \<Rightarrow> heap \<Rightarrow> (ptr \<times> 'p option) option"
    and release :: "'p option \<Rightarrow> ptr \<Rightarrow> heap \<Rightarrow> ('p option \<times> heap) option"
  assumes alloc_empty: "inv h s [] \<Longrightarrow> alloc (Some s) h = Some (NULL, Some s)"
    and alloc_block: "inv h s (x # xs) \<Longrightarrow>
      \<exists>s'. alloc (Some s) h = Some (x, Some s') \<and> inv h s' xs \<and> pool_blocks s' = pool_blocks s \<and>
           x \<noteq> NULL \<and> x \<in> pool_blocks s \<and> x \<notin> set xs"
    and release_block: "inv h s xs \<Longrightarrow> p \<in> pool_blocks s \<Longrightarrow> p \<notin> set xs \<Longrightarrow>
      \<exists>s' h'. release (Some s) p h = Some (Some s', h') \<and> inv h' s' (p # xs) \<and>
              pool_blocks s' = pool_blocks s \<and> (\<forall>q. q \<noteq> p \<longrightarrow> h' q = h q)"
    and client_write: "inv h s xs \<Longrightarrow> p \<notin> set xs \<Longrightarrow> length bs = length (h p) \<Longrightarrow> inv (h(p := bs)) s xs"
begin

text \<open>Every block is free or owned by the client, never both, and never twice.\<close>

definition balanced :: "heap \<Rightarrow> 'p \<Rightarrow> ptr list \<Rightarrow> ptr list \<Rightarrow> bool" where
  "balanced h s xs owned \<longleftrightarrow> inv h s xs \<and> distinct (xs @ owned) \<and>
     set (xs @ owned) = pool_blocks s"

lemma balanced_run:
  assumes "balanced h s xs owned"
  shows "\<exists>s' h' xs' owned'. client_run alloc release ops (Some s, h, owned) = Some (Some s', h', owned') \<and>
      balanced h' s' xs' owned' \<and> pool_blocks s' = pool_blocks s"
  using assms
proof (induction ops arbitrary: h s xs owned)
  case Nil
  then show ?case by auto
next
  case (Cons op ops)
  note bal = Cons.prems [unfolded balanced_def]
  show ?case
  proof (cases op)
    case Get
    show ?thesis
    proof (cases xs)
      case Nil
      then show ?thesis
        using Cons.IH [OF Cons.prems] bal Get alloc_empty [of h s] by simp
    next
      case (Cons x ys)
      then obtain s' where "alloc (Some s) h = Some (x, Some s')" "inv h s' ys"
        "pool_blocks s' = pool_blocks s" "x \<noteq> NULL"
        using alloc_block [of h s x ys] bal by auto
      moreover have "balanced h s' ys (x # owned)"
        using calculation bal Cons by (auto simp: balanced_def)
      ultimately show ?thesis
        using Cons.IH [of h s' ys "x # owned"] Get by simp
    qed
  next
    case (Put p)
    show ?thesis
    proof (cases "p \<in> set owned")
      case True
      then obtain s' h' where "release (Some s) p h = Some (Some s', h')" "inv h' s' (p # xs)"
        "pool_blocks s' = pool_blocks s"
        using release_block [of h s xs p] bal by auto
      moreover have "balanced h' s' (p # xs) (remove1 p owned)"
        using calculation bal True by (auto simp: balanced_def)
      ultimately show ?thesis
        using Cons.IH [of h' s' "p # xs" "remove1 p owned"] Put True by auto
    next
      case False
      then show ?thesis using Cons.IH [OF Cons.prems] Put by simp
    qed
  next
    case (Fill p bs)
    show ?thesis
    proof (cases "p \<in> set owned \<and> length bs = length (h p)")
      case True
      then have "balanced (h(p := bs)) s xs owned"
        using bal client_write [of h s xs p bs] by (auto simp: balanced_def)
      from Cons.IH [OF this] show ?thesis
        unfolding Fill client_run.simps if_P [OF True] .
    next
      case False
      from Cons.IH [OF Cons.prems] show ?thesis
        unfolding Fill client_run.simps if_not_P [OF False] .
    qed
  qed
qed

end

interpretation slab: block_allocator slab_wf blocks img_slab_alloc img_slab_free
proof unfold_locales
  fix h s x xs
  assume "slab_wf h s (x # xs)"
  then show "\<exists>s'. img_slab_alloc (Some s) h = Some (x, Some s') \<and> slab_wf h s' xs \<and>
      blocks s' = blocks s \<and> x \<noteq> NULL \<and> x \<in> blocks s \<and> x \<notin> set xs"
    by (rule slab_alloc_Cons) (auto simp: blocks_free_list)
next
  fix h s xs p
  assume "slab_wf h s xs" "p \<in> blocks s" "p \<notin> set xs"
  then show "\<exists>s' h'. img_slab_free (Some s) p h = Some (Some s', h') \<and> slab_wf h' s' (p # xs) \<and>
      blocks s' = blocks s \<and> (\<forall>q. q \<noteq> p \<longrightarrow> h' q = h q)"
    by (rule slab_free_wf) (auto simp: blocks_free_list)
qed (simp_all add: slab_alloc_Nil slab_client_write)

section \<open>Properties\<close>

text \<open>
  C7. From the moment a pool is created, whatever a client that frees only its own blocks
  does, the allocator never misbehaves and every block of the pool is either on the free
  list or owned by the client, exactly once: no leak, no double hand-out.
\<close>

theorem slab_never_leaks:
  assumes "mem \<noteq> NULL" and "align64 b \<noteq> 0" and "fresh_region h mem (align64 t) (align64 b)"
  shows "\<exists>s h0 s' h' xs owned.
    img_slab_create True node (\<lambda>_. mem) t b h = Some (Some s, h0) \<and>
    client_run img_slab_alloc img_slab_free ops (Some s, h0, []) = Some (Some s', h', owned) \<and>
    chain h' (free_list s') xs \<and> distinct (xs @ owned) \<and>
    set (xs @ owned) = {mem + of_nat i * align64 b | i. i < unat (align64 t div align64 b)}"
proof -
  obtain s h0 where s: "img_slab_create True node (\<lambda>_. mem) t b h = Some (Some s, h0)"
    "block_size s = align64 b" "memory s = mem" "block_count s = align64 t div align64 b"
    and wf: "slab_wf h0 s (map (\<lambda>i. mem + of_nat i * align64 b) (rev [0..<unat (block_count s)]))"
    using slab_create_wf [OF assms] by metis
  have blocks: "blocks s = {mem + of_nat i * align64 b | i. i < unat (align64 t div align64 b)}"
    using s by (simp add: blocks_def)
  have "slab.balanced h0 s (map (\<lambda>i. mem + of_nat i * align64 b) (rev [0..<unat (block_count s)])) []"
    using wf slab_wfD(2) [OF wf] blocks s by (auto simp: slab.balanced_def)
  then obtain s' h' xs owned where
    run: "client_run img_slab_alloc img_slab_free ops (Some s, h0, []) = Some (Some s', h', owned)"
    and bal: "slab.balanced h' s' xs owned" and "blocks s' = blocks s"
    using slab.balanced_run by meson
  then have "distinct (xs @ owned)"
    "set (xs @ owned) = {mem + of_nat i * align64 b | i. i < unat (align64 t div align64 b)}"
    using blocks by (simp_all only: slab.balanced_def)
  moreover have "chain h' (free_list s') xs"
    using bal slab_wfD(1) by (simp only: slab.balanced_def)
  ultimately show ?thesis
    using s(1) run by blast
qed

theorem slab_never_leaks_witness:
  "\<exists>s h0 s' h' xs owned.
    img_slab_create True 0 (\<lambda>_. 4096) 128 64 (\<lambda>_. replicate 64 0) = Some (Some s, h0) \<and>
    client_run img_slab_alloc img_slab_free [Get, Get, Put 4096] (Some s, h0, []) =
      Some (Some s', h', owned) \<and>
    chain h' (free_list s') xs \<and> distinct (xs @ owned) \<and>
    set (xs @ owned) = {4096 + of_nat i * align64 64 | i. i < unat (align64 128 div align64 64)}"
proof (rule slab_never_leaks)
  show "fresh_region (\<lambda>_. replicate 64 0) 4096 (align64 128) (align64 64)"
    by (simp add: fresh_region_def align64_def)
qed (simp_all add: align64_def)

text \<open>
  Freeing a block twice is not detected: the free list becomes cyclic and the same block is
  then handed out to every later request.
\<close>

lemma slab_double_free:
  assumes "slab_wf h s xs" and "p \<in> blocks s" and "p \<notin> set xs"
  shows "\<exists>s1 h1 s2 h2. img_slab_free (Some s) p h = Some (Some s1, h1) \<and>
    img_slab_free (Some s1) p h1 = Some (Some s2, h2) \<and>
    img_slab_alloc (Some s2) h2 = Some (p, Some s2)"
proof -
  obtain h1 where h1: "img_slab_free (Some s) p h = Some (Some (s\<lparr>free_list := p\<rparr>), h1)"
    and wf1: "slab_wf h1 (s\<lparr>free_list := p\<rparr>) (p # xs)"
    using slab_free_wf [OF assms] by blast
  have p: "p \<noteq> NULL" and len: "8 \<le> length (h1 p)"
    using slab_wfD [OF wf1] assms(2) slab_wfD(5) [OF assms(1)] by auto
  obtain h2 where h2: "write_next p p h1 = Some h2"
    using len by (simp add: write_next_def)
  have "img_slab_free (Some (s\<lparr>free_list := p\<rparr>)) p h1 = Some (Some (s\<lparr>free_list := p\<rparr>), h2)"
    using p h2 by (simp add: img_slab_free_def)
  moreover have "img_slab_alloc (Some (s\<lparr>free_list := p\<rparr>)) h2 = Some (p, Some (s\<lparr>free_list := p\<rparr>))"
    using p by (simp add: img_slab_alloc_def read_next_write [OF h2])
  ultimately show ?thesis
    using h1 by blast
qed

text \<open>A concrete pool of eight blocks of one kilobyte, as \<open>img_slab_create\<close> sets it up.\<close>

definition demo_created :: "img_slab_pool option \<times> heap" where
  "demo_created = the (img_slab_create True 0 (\<lambda>_. 65536) 8192 1024 (\<lambda>_. replicate 1024 0))"

definition demo_pool :: img_slab_pool where "demo_pool = the (fst demo_created)"

definition demo_heap :: heap where "demo_heap = snd demo_created"

definition demo_free :: "ptr list" where
  "demo_free = map (\<lambda>i. 65536 + of_nat i * 1024) (rev [0..<8])"

lemma demo_pool_wf:
  "slab_wf demo_heap demo_pool demo_free" "block_size demo_pool = 1024" "length demo_free = 8" "demo_free \<noteq> []"
  "blocks demo_pool = set demo_free"
proof -
  have a: "align64 1024 = 1024" "align64 8192 = 8192"
    by (simp_all add: align64_def)
  have fresh: "fresh_region (\<lambda>_. replicate 1024 0) 65536 8192 1024"
    by (simp add: fresh_region_def)
  obtain s h where
    "img_slab_create True 0 (\<lambda>_. 65536) 8192 1024 (\<lambda>_. replicate 1024 0) = Some (Some s, h)"
    "block_size s = 1024" "block_count s = 8192 div 1024" "memory s = 65536"
    "slab_wf h s (map (\<lambda>i. 65536 + of_nat i * 1024) (rev [0..<unat (block_count s)]))"
    by (rule slab_create_wf [of 65536 1024 "\<lambda>_. replicate 1024 0" 8192 0, unfolded a, OF _ _ fresh])
       (simp, simp, blast)
  then show "slab_wf demo_heap demo_pool demo_free" "block_size demo_pool = 1024" "blocks demo_pool = set demo_free"
    by (auto simp: demo_heap_def demo_pool_def demo_created_def demo_free_def blocks_def)
  show "length demo_free = 8" "demo_free \<noteq> []" by (simp_all add: demo_free_def)
qed

section \<open>Buffers inside slab blocks\<close>

text \<open>
  \<open>img_buffer_from_slab\<close> (\<open>api/v1/img_buffer_utils.h\<close>): a 64-byte header followed by the
  pixels. The product \<open>w * ch\<close> is computed in 32 bits before it is widened.
\<close>

definition hdr_size :: u64 where
  "hdr_size = (8 + 63) AND NOT 63"

definition img_buffer_from_slab ::
  "img_slab_pool option \<Rightarrow> u32 \<Rightarrow> u32 \<Rightarrow> u32 \<Rightarrow> heap \<Rightarrow>
   (img_buffer \<times> img_slab_pool option \<times> heap) option" where
  "img_buffer_from_slab pool w ht ch h =
     (if pool = None \<or> w = 0 \<or> ht = 0 \<or> ch = 0 then Some (empty_buffer, pool, h)
      else if ucast w > (- 1 :: u64) div ucast ch then Some (empty_buffer, pool, h)
      else let st = (ucast (w * ch) :: u64) in
        if st > (- 1) div ucast ht then Some (empty_buffer, pool, h)
        else let total = hdr_size + st * ucast ht in
          if total > img_slab_block_size pool then Some (empty_buffer, pool, h)
          else do {
            (mem, pool) \<leftarrow> img_slab_alloc pool h;
            if mem = NULL then Some (empty_buffer, pool, h)
            else if length (h mem) < 8 then None
            else Some (\<lparr>data = mem + hdr_size, width = w, height = ht, channels = ch,
                        stride = ucast st\<rparr>,
                       pool, h(mem := [1, 0, 0, 0, 0, 0, 0, 0] @ drop 8 (h mem))) })"

text \<open>The header the reference-counting functions of \<open>core/buffer_lifecycle.c\<close> use.\<close>

definition img_buf_hdr :: "img_buffer \<Rightarrow> ptr" where
  "img_buf_hdr buf = data buf - 8"

text \<open>
  The block a buffer of \<open>img_buffer_from_slab\<close> lives in starts with the header, but
  \<open>img_buf_hdr\<close> looks 56 bytes further on: acquire and release never touch the count that
  was initialised.
\<close>

lemma buf_hdr_mismatch:
  assumes "img_buffer_from_slab pool w ht ch h = Some (buf, pool', h')" and "data buf \<noteq> NULL"
  obtains mem where "img_slab_alloc pool h = Some (mem, pool')" and "data buf = mem + 64"
    and "img_buf_hdr buf = mem + 56"
  using assms
  by (auto simp: img_buffer_from_slab_def hdr_size_def empty_buffer_def img_buf_hdr_def Let_def
      split: if_splits Option.bind_splits)

text \<open>
  The 32-bit product makes the overflow guards ineffective: an image of \<open>2\<^sup>3\<^sup>1\<close> columns of two
  channels gets a block for zero bytes of pixels.
\<close>

lemma buffer_from_slab_wraps:
  assumes "slab_wf h s (x # xs)" and "64 \<le> block_size s" and "length (h x) \<ge> 8"
  shows "\<exists>pool' h'. img_buffer_from_slab (Some s) 0x80000000 1 2 h =
    Some (\<lparr>data = x + 64, width = 0x80000000, height = 1, channels = 2, stride = 0\<rparr>, pool', h')"
proof -
  obtain q where "img_slab_alloc (Some s) h = Some (x, Some (s\<lparr>free_list := q\<rparr>))" "x \<noteq> NULL"
    using slab_alloc_Cons [OF assms(1)] by metis
  then show ?thesis
    using assms(2,3)
    by (simp add: img_buffer_from_slab_def hdr_size_def img_slab_block_size_def)
qed

end
