(* ===== verification/Raster.thy ===== *)
theory Raster
  imports Core_Types
begin

text \<open>
  Regions of a packed RGB canvas. The drawing passes (\<open>pipeline/border.c\<close>,
  \<open>pipeline/crop_marks.c\<close>, \<open>pipeline/bleed.c\<close>) work in signed pixel coordinates and
  clip to the canvas; their effect is described by the set of pixel coordinates they paint.
\<close>

section \<open>Regions\<close>

type_synonym region = "int \<Rightarrow> int \<Rightarrow> bool"

definition in_region :: "img_buffer \<Rightarrow> region \<Rightarrow> nat \<Rightarrow> bool" where
  "in_region buf R i \<longleftrightarrow> i < 3 * W buf * H buf \<and>
     R (int (i mod (3 * W buf) div 3)) (int (i div (3 * W buf)))"

definition rect :: "int \<Rightarrow> int \<Rightarrow> int \<Rightarrow> int \<Rightarrow> region" where
  "rect x y w h px py \<longleftrightarrow> x \<le> px \<and> px < x + w \<and> y \<le> py \<and> py < y + h"

definition rgb_at :: "u8 \<Rightarrow> u8 \<Rightarrow> u8 \<Rightarrow> nat \<Rightarrow> u8" where
  "rgb_at r g b i = (if i mod 3 = 0 then r else if i mod 3 = 1 then g else b)"

lemma rgb_at_const [simp]: "rgb_at v v v = (\<lambda>_. v)"
  by (simp add: rgb_at_def fun_eq_iff)

lemma in_region_pix:
  assumes "x < W buf" and "y < H buf" and "c < 3"
  shows "in_region buf R (pix (W buf) x y c) \<longleftrightarrow> R (int x) (int y)"
  using assms by (simp add: in_region_def pix_in_view pix_row pix_col)

lemma in_region_Ex: "(\<exists>x \<in> A. in_region buf (R x) i) \<longleftrightarrow> in_region buf (\<lambda>px py. \<exists>x \<in> A. R x px py) i"
  by (auto simp: in_region_def)

lemma in_region_cong:
  assumes "\<And>x y. x < W buf \<Longrightarrow> y < H buf \<Longrightarrow> R (int x) (int y) \<longleftrightarrow> R' (int x) (int y)"
  shows "in_region buf R i \<longleftrightarrow> in_region buf R' i"
proof (cases "i < 3 * W buf * H buf")
  case True
  then have w: "0 < W buf"
    by (cases "W buf = 0") (simp_all)
  have "i div (3 * W buf) < H buf"
    using True by (simp add: less_mult_imp_div_less mult.commute mult.left_commute)
  then show ?thesis
    using assms [of "i mod (3 * W buf) div 3" "i div (3 * W buf)"] pix_surj(2) [OF w, of i]
    by (simp add: in_region_def)
qed (simp add: in_region_def)

section \<open>Painting regions\<close>

text \<open>One pixel.\<close>

lemma paints_pixel:
  assumes view: "rgb_view buf (length s)" and x: "x < W buf" and y: "y < H buf"
  shows "paints (put_rgb (y * unat (stride buf) + x * 3) r g b) s
           (in_region buf (\<lambda>px py. px = int x \<and> py = int y)) (rgb_at r g b)"
proof -
  define p where "p = pix (W buf) x y 0"
  have p: "y * unat (stride buf) + x * 3 = p"
    using rgb_viewD(2) [OF view] by (simp add: p_def pix_def)
  have p2: "p + 2 < 3 * W buf * H buf"
    using pix_in_view [OF x y, of 2] by (simp add: p_def pix_def)
  have pc: "p \<le> i \<and> i < p + 3 \<Longrightarrow> \<exists>c < 3. i = pix (W buf) x y c" for i
    by (intro exI [of _ "i - p"]) (auto simp: p_def pix_def)
  have reg: "in_region buf (\<lambda>px py. px = int x \<and> py = int y) i \<longleftrightarrow> p \<le> i \<and> i < p + 3" for i
  proof
    assume i: "in_region buf (\<lambda>px py. px = int x \<and> py = int y) i"
    have "0 < W buf" using x by simp
    then have "i = pix (W buf) x y (i mod 3)"
      using i pix_surj(1) [of "W buf" i] by (simp add: in_region_def)
    moreover have "i mod 3 < 3" by simp
    ultimately obtain c where "c < 3" "i = pix (W buf) x y c" by blast
    then show "p \<le> i \<and> i < p + 3" by (simp add: p_def pix_def)
  next
    assume "p \<le> i \<and> i < p + 3"
    with pc [of i] show "in_region buf (\<lambda>px py. px = int x \<and> py = int y) i"
      using x y by (auto simp: in_region_pix)
  qed
  have "p mod 3 = 0"
    by (simp add: p_def pix_channel)
  then have m: "(p + 1) mod 3 = 1" "(p + 2) mod 3 = 2" "p mod 3 = 0"
    by presburger+
  have "paints (put_rgb p r g b) s (\<lambda>i. p \<le> i \<and> i < p + 3)
      (\<lambda>i. if i = p then r else if i = p + 1 then g else b)"
    using p2 rgb_viewD(3) [OF view] by (intro paints_put_rgb) simp
  then show ?thesis
    unfolding p
  proof (rule paints_cong)
    fix i assume "p \<le> i \<and> i < p + 3"
    then consider "i = p" | "i = p + 1" | "i = p + 2" by linarith
    then show "(if i = p then r else if i = p + 1 then g else b) = rgb_at r g b i"
      using m by cases (simp_all add: rgb_at_def)
  qed (simp add: reg)
qed

lemma paints_region_cong:
  assumes "paints f s (in_region buf R) v"
    and "\<And>x y. x < W buf \<Longrightarrow> y < H buf \<Longrightarrow> R (int x) (int y) \<longleftrightarrow> R' (int x) (int y)"
  shows "paints f s (in_region buf R') v"
  using assms(1) by (rule paints_cong) (simp_all add: in_region_cong [of buf R R', OF assms(2)])

text \<open>Nothing drawn: every pixel is clipped away.\<close>

lemma paints_region_none:
  assumes "\<And>x y. x < W buf \<Longrightarrow> y < H buf \<Longrightarrow> \<not> R (int x) (int y)"
  shows "paints Some s (in_region buf R) v"
proof -
  have "in_region buf R i \<longleftrightarrow> in_region buf (\<lambda>_ _. False) i" for i
    using assms by (intro in_region_cong) auto
  then have "\<not> in_region buf R i" for i
    by (simp add: in_region_def)
  then show ?thesis
    by (simp add: paints_def)
qed

lemma paints_region_foreach:
  assumes "\<And>x s. x \<in> set xs \<Longrightarrow> length s = length s0 \<Longrightarrow> paints (body x) s (in_region buf (R x)) v"
  shows "paints (foreach xs body) s0 (in_region buf (\<lambda>px py. \<exists>x \<in> set xs. R x px py)) v"
  using paints_foreach [of xs s0 "\<lambda>x. in_region buf (R x)" body v] assms
  by (simp add: in_region_Ex)

lemma paints_region_seq:
  assumes "paints f s (in_region buf P) v"
    and "\<And>s'. length s' = length s \<Longrightarrow> paints g s' (in_region buf Q) v"
  shows "paints (\<lambda>s. Option.bind (f s) g) s (in_region buf (\<lambda>px py. P px py \<or> Q px py)) v"
  by (rule paints_cong [OF paints_seq [OF assms(1,2)]]) (auto simp: in_region_def)

section \<open>Painting with values that depend on the position\<close>

definition on_canvas :: "img_buffer \<Rightarrow> region" where
  "on_canvas canvas px py \<longleftrightarrow> 0 \<le> px \<and> px < int (W canvas) \<and> 0 \<le> py \<and> py < int (H canvas)"

definition px_at :: "img_buffer \<Rightarrow> bytes \<Rightarrow> int \<Rightarrow> int \<Rightarrow> nat \<Rightarrow> u8" where
  "px_at canvas s px py k = s ! pix (W canvas) (nat px) (nat py) k"

definition lift_v :: "img_buffer \<Rightarrow> (int \<Rightarrow> int \<Rightarrow> nat \<Rightarrow> u8) \<Rightarrow> nat \<Rightarrow> u8" where
  "lift_v canvas V i = V (int (i mod (3 * W canvas) div 3)) (int (i div (3 * W canvas))) (i mod 3)"

definition draws :: "img_buffer \<Rightarrow> (bytes \<Rightarrow> bytes option) \<Rightarrow> bytes \<Rightarrow> region \<Rightarrow> (int \<Rightarrow> int \<Rightarrow> nat \<Rightarrow> u8) \<Rightarrow> bool" where
  "draws canvas f s R V \<longleftrightarrow> paints f s (in_region canvas R) (lift_v canvas V)"

lemma on_canvas_nat:
  assumes "on_canvas canvas px py"
  shows "nat px < W canvas" "nat py < H canvas" "int (nat px) = px" "int (nat py) = py"
  using assms by (auto simp: on_canvas_def)

lemma lift_v_pix:
  assumes "on_canvas canvas px py" and "k < 3"
  shows "lift_v canvas V (pix (W canvas) (nat px) (nat py) k) = V px py k"
proof -
  note n = on_canvas_nat [OF assms(1)]
  show ?thesis
    unfolding lift_v_def pix_row [OF n(1) assms(2)] pix_col [OF n(1) assms(2)] pix_channel [OF assms(2)] n(3,4) ..
qed

lemma at_in_block:
  assumes "rgb_view canvas (length s)" and "on_canvas canvas px py" and "k < 3"
  shows "pix (W canvas) (nat px) (nat py) k < length s"
  using pix_in_view [OF on_canvas_nat(1,2) [OF assms(2)] assms(3)] rgb_viewD(3) [OF assms(1)] by simp

lemma drawsD:
  assumes "draws canvas f s R V" and "rgb_view canvas (length s)"
  obtains s' where "f s = Some s'" and "length s' = length s"
    and "\<And>px py k. on_canvas canvas px py \<Longrightarrow> k < 3 \<Longrightarrow>
      px_at canvas s' px py k = (if R px py then V px py k else px_at canvas s px py k)"
    and "\<And>i. i < length s \<Longrightarrow> 3 * W canvas * H canvas \<le> i \<Longrightarrow> s' ! i = s ! i"
proof -
  obtain s' where s': "f s = Some s'" "length s' = length s"
    and eq: "\<And>i. i < length s \<Longrightarrow> s' ! i = (if in_region canvas R i then lift_v canvas V i else s ! i)"
    using assms(1) by (auto simp: draws_def paints_def)
  show thesis
  proof (rule that [OF s'])
    fix px py k assume on: "on_canvas canvas px py" and k: "k < (3 :: nat)"
    then show "px_at canvas s' px py k = (if R px py then V px py k else px_at canvas s px py k)"
      using eq [OF at_in_block [OF assms(2) on k]] on_canvas_nat [OF on]
      by (simp add: px_at_def lift_v_pix in_region_pix)
  next
    fix i assume "i < length s" and "3 * W canvas * H canvas \<le> i"
    then show "s' ! i = s ! i" using eq [of i] by (simp add: in_region_def)
  qed
qed

lemma draws_exec:
  assumes "draws canvas f s R V" and "rgb_view canvas (length s)"
  shows "\<exists>s'. f s = Some s' \<and> length s' = length s \<and>
    (\<forall>px py k. on_canvas canvas px py \<longrightarrow> k < 3 \<longrightarrow>
       px_at canvas s' px py k = (if R px py then V px py k else px_at canvas s px py k))"
  by (rule drawsD [OF assms]) blast

lemma draws_cong:
  assumes "draws canvas f s R V" and "\<And>px py. on_canvas canvas px py \<Longrightarrow> R px py = R' px py"
  shows "draws canvas f s R' V"
  using assms(1) unfolding draws_def
  by (rule paints_region_cong) (simp add: assms(2) on_canvas_def)

lemma draws_none:
  assumes "\<And>px py. on_canvas canvas px py \<Longrightarrow> \<not> R px py"
  shows "draws canvas Some s R V"
  unfolding draws_def by (rule paints_region_none) (simp add: assms on_canvas_def)

lemma draws_foreach:
  assumes view: "rgb_view canvas (length s0)"
    and step: "\<And>x s. x \<in> set xs \<Longrightarrow> length s = length s0 \<Longrightarrow>
      (\<And>px py k. on_canvas canvas px py \<Longrightarrow> k < 3 \<Longrightarrow> \<not> (\<exists>y \<in> set xs. R y px py) \<Longrightarrow>
         px_at canvas s px py k = px_at canvas s0 px py k) \<Longrightarrow>
      draws canvas (body x) s (R x) V"
  shows "draws canvas (foreach xs body) s0 (\<lambda>px py. \<exists>x \<in> set xs. R x px py) V"
proof -
  have "paints (foreach xs body) s0 (\<lambda>i. \<exists>x \<in> set xs. in_region canvas (R x) i) (lift_v canvas V)"
  proof (rule paints_foreach)
    fix x s
    assume x: "x \<in> set xs" and len: "length s = length s0"
      and un: "\<And>i. i < length s0 \<Longrightarrow> \<not> (\<exists>y \<in> set xs. in_region canvas (R y) i) \<Longrightarrow> s ! i = s0 ! i"
    have "px_at canvas s px py k = px_at canvas s0 px py k"
      if on: "on_canvas canvas px py" and k: "k < 3" and "\<not> (\<exists>y \<in> set xs. R y px py)" for px py k
      using un [OF at_in_block [OF view on k]] that(3) on_canvas_nat [OF on] k
      by (simp add: px_at_def in_region_pix)
    from step [OF x len this] show "paints (body x) s (in_region canvas (R x)) (lift_v canvas V)"
      by (simp add: draws_def)
  qed
  then show ?thesis
    by (simp add: draws_def in_region_Ex)
qed

lemma draws_seq:
  assumes view: "rgb_view canvas (length s)" and f: "draws canvas f s P V"
    and g: "\<And>s'. length s' = length s \<Longrightarrow>
      (\<And>px py k. on_canvas canvas px py \<Longrightarrow> k < 3 \<Longrightarrow>
         px_at canvas s' px py k = (if P px py then V px py k else px_at canvas s px py k)) \<Longrightarrow>
      draws canvas g s' Q V"
  shows "draws canvas (\<lambda>s. Option.bind (f s) g) s (\<lambda>px py. P px py \<or> Q px py) V"
proof -
  obtain s' where s': "f s = Some s'" "length s' = length s"
    and vals: "\<And>px py k. on_canvas canvas px py \<Longrightarrow> k < 3 \<Longrightarrow>
      px_at canvas s' px py k = (if P px py then V px py k else px_at canvas s px py k)"
    by (rule drawsD [OF f view]) blast
  have "paints g s' (in_region canvas Q) (lift_v canvas V)"
    using g [OF s'(2) vals] by (simp add: draws_def)
  then have "paints (\<lambda>s. Option.bind (f s) g) s
      (\<lambda>i. in_region canvas P i \<or> in_region canvas Q i)
      (\<lambda>i. if in_region canvas Q i then lift_v canvas V i else lift_v canvas V i)"
    using f [unfolded draws_def] s'(1) by (intro paints_seq) auto
  then show ?thesis
    unfolding draws_def by (rule paints_cong) (auto simp: in_region_def)
qed

lemma put_rgb_draws:
  assumes view: "rgb_view canvas (length s)" and t: "on_canvas canvas tx ty"
  shows "draws canvas (put_rgb (nat ty * unat (stride canvas) + nat tx * 3) (V tx ty 0) (V tx ty 1) (V tx ty 2)) s
    (\<lambda>px py. px = tx \<and> py = ty) V"
proof -
  have "paints (put_rgb (nat ty * unat (stride canvas) + nat tx * 3) (V tx ty 0) (V tx ty 1) (V tx ty 2)) s
      (in_region canvas (\<lambda>px py. px = tx \<and> py = ty)) (rgb_at (V tx ty 0) (V tx ty 1) (V tx ty 2))"
    using paints_pixel [OF view on_canvas_nat(1,2) [OF t], of "V tx ty 0" "V tx ty 1" "V tx ty 2"]
    by (simp only: on_canvas_nat(3,4) [OF t])
  then show ?thesis
    unfolding draws_def
  proof (rule paints_cong)
    fix i assume "in_region canvas (\<lambda>px py. px = tx \<and> py = ty) i"
    then have "lift_v canvas V i = V tx ty (i mod 3)"
      by (simp add: in_region_def lift_v_def)
    moreover have "i mod 3 = 0 \<or> i mod 3 = 1 \<or> i mod 3 = 2" by presburger
    ultimately show "rgb_at (V tx ty 0) (V tx ty 1) (V tx ty 2) i = lift_v canvas V i"
      by (auto simp: rgb_at_def)
  qed simp
qed

section \<open>A small example\<close>

text \<open>A six by six canvas and a cell in its middle, on which the drawing passes are tried.\<close>

definition demo_canvas :: img_buffer where
  "demo_canvas = \<lparr>data = 4096, width = 6, height = 6, channels = 3, stride = 18\<rparr>"

definition demo_cell :: img_cell where
  "demo_cell = \<lparr>cell_x = 1, cell_y = 1, cell_w = 4, cell_h = 4\<rparr>"

definition demo_layout :: img_layout where
  "demo_layout = \<lparr>cells = [demo_cell], count = 1\<rparr>"

lemmas demo_defs = demo_canvas_def demo_cell_def demo_layout_def

end
