(* ===== verification/Canvas.thy ===== *)
theory Canvas
  imports Slab Raster
begin

text \<open>
  The A4 canvas of \<open>pipeline/canvas.c\<close>: page and photo sizes in pixels, the origin of the
  grid, and the background-filled buffer taken from the slab pool.
\<close>

section \<open>Operations\<close>

record img_canvas =
  buf :: img_buffer
  page_w_px :: u32
  page_h_px :: u32
  photo_w_px :: u32
  photo_h_px :: u32
  start_x :: u32
  start_y :: u32

definition IMG_A4_W_CM :: f32 where "IMG_A4_W_CM = Fin 21"
definition IMG_A4_H_CM :: f32 where "IMG_A4_H_CM = fround (297 / 10)"

definition img_cm_to_px :: "f32 \<Rightarrow> u32 \<Rightarrow> u32 option" where
  "img_cm_to_px cm d = u32_of_f (fadd (fdiv (fmul cm (f_of_u32 d)) (fround (254 / 100))) (Fin (1 / 2)))"

text \<open>The gaps between \<open>n\<close> photos, and the space left for them on a page side.\<close>

definition gaps :: "u32 \<Rightarrow> u32 \<Rightarrow> u32" where
  "gaps n g = (if n > 1 then (n - 1) * g else 0)"

definition avail :: "u32 \<Rightarrow> u32 \<Rightarrow> u32 \<Rightarrow> u32" where
  "avail page pad2 gs = (if page > pad2 + gs then page - pad2 - gs else 1)"

text \<open>The two sizes scaled down by one factor when either is over its limit.\<close>

definition scale_down :: "u32 \<Rightarrow> u32 \<Rightarrow> u32 \<Rightarrow> u32 \<Rightarrow> (u32 \<times> u32) option" where
  "scale_down photo_w photo_h max_pw max_ph =
     (if photo_w > max_pw \<or> photo_h > max_ph then
        let sx = (if max_pw > 0 then fdiv (f_of_u32 max_pw) (f_of_u32 photo_w) else Fin 1);
            sy = (if max_ph > 0 then fdiv (f_of_u32 max_ph) (f_of_u32 photo_h) else Fin 1);
            s = (if flt sx sy then sx else sy) in
        do {
          w \<leftarrow> u32_of_f (fmul (f_of_u32 photo_w) s);
          h \<leftarrow> u32_of_f (fmul (f_of_u32 photo_h) s);
          Some (w, h) }
      else Some (photo_w, photo_h))"

text \<open>
  The geometry part of \<open>img_canvas_init\<close>: everything before the allocation. The descriptor's
  buffer is filled in afterwards. A division by zero columns or rows is undefined.
\<close>

definition canvas_geometry :: "img_job \<Rightarrow> img_canvas \<Rightarrow> img_canvas option" where
  "canvas_geometry job canvas = do {
     pw \<leftarrow> img_cm_to_px IMG_A4_W_CM (dpi job);
     ph \<leftarrow> img_cm_to_px IMG_A4_H_CM (dpi job);
     photo_w \<leftarrow> img_cm_to_px (photo_w_cm job) (dpi job);
     photo_h \<leftarrow> img_cm_to_px (photo_h_cm job) (dpi job);
     let pad2 = padding job * 2;
     let h_gaps = gaps (cols job) (gap job);
     let v_gaps = gaps (rows job) (gap job);
     if cols job = 0 \<or> rows job = 0 then None
     else do {
       let max_pw = avail pw pad2 h_gaps div cols job;
       let max_ph = avail ph pad2 v_gaps div rows job;
       (photo_w, photo_h) \<leftarrow> scale_down photo_w photo_h max_pw max_ph;
       let photo_w = (if photo_w = 0 then 1 else photo_w);
       let photo_h = (if photo_h = 0 then 1 else photo_h);
       let grid_w = cols job * photo_w + h_gaps;
       Some (canvas\<lparr>page_w_px := pw, page_h_px := ph, photo_w_px := photo_w, photo_h_px := photo_h,
         start_x := (if pw > grid_w then (pw - grid_w) div 2 else padding job),
         start_y := padding job\<rparr>) } }"

text \<open>\<open>for (i = 0; i < n; i += 3)\<close>: the background colour.\<close>

definition fill_bg :: "u8 \<Rightarrow> u8 \<Rightarrow> u8 \<Rightarrow> nat \<Rightarrow> bytes \<Rightarrow> bytes option" where
  "fill_bg r g b n s = foreach [0..<(n + 2) div 3] (\<lambda>j. put_rgb (3 * j) r g b) s"

text \<open>The number of bytes of an RGB image, a \<open>size_t\<close>.\<close>

definition rgb_size :: "u32 \<Rightarrow> u32 \<Rightarrow> u64" where
  "rgb_size w h = ucast w * ucast h * 3"

definition img_canvas_init ::
  "img_canvas option \<Rightarrow> img_slab_pool option \<Rightarrow> img_job option \<Rightarrow> heap \<Rightarrow>
   (img_result \<times> img_canvas option \<times> img_slab_pool option \<times> heap) option" where
  "img_canvas_init canvas pool job h =
     (case (canvas, pool, job) of
        (Some canvas, Some _, Some job) \<Rightarrow> do {
          c \<leftarrow> canvas_geometry job canvas;
          let required = rgb_size (page_w_px c) (page_h_px c);
          if required > img_slab_block_size pool then Some (IMG_ERR_NOMEM, Some c, pool, h)
          else do {
            (mem, pool) \<leftarrow> img_slab_alloc pool h;
            if mem = NULL then Some (IMG_ERR_NOMEM, Some c, pool, h)
            else do {
              s \<leftarrow> fill_bg (bg_r job) (bg_g job) (bg_b job) (unat required) (h mem);
              Some (IMG_SUCCESS,
                Some (c\<lparr>buf := \<lparr>data = mem, width = page_w_px c, height = page_h_px c,
                               channels = 3, stride = page_w_px c * 3\<rparr>\<rparr>),
                pool, h(mem := s)) } } }
      | _ \<Rightarrow> Some (IMG_ERR_SECURITY, canvas, pool, h))"

definition img_canvas_free ::
  "img_canvas option \<Rightarrow> img_slab_pool option \<Rightarrow> heap \<Rightarrow> (img_canvas option \<times> img_slab_pool option \<times> heap) option" where
  "img_canvas_free canvas pool h =
     (case canvas of
        Some c \<Rightarrow>
          if data (buf c) \<noteq> NULL \<and> pool \<noteq> None then do {
            (pool, h) \<leftarrow> img_slab_free pool (data (buf c)) h;
            Some (Some (c\<lparr>buf := (buf c)\<lparr>data := NULL\<rparr>\<rparr>), pool, h) }
          else Some (canvas, pool, h)
      | None \<Rightarrow> Some (canvas, pool, h))"

section \<open>The geometry of the grid\<close>

text \<open>The smaller of two scale factors: finite, and not above either quotient.\<close>

lemma scale_factor:
  assumes "m1 \<noteq> 0" "m2 \<noteq> 0" and "n1 \<noteq> 0 \<or> n2 \<noteq> 0"
  defines "sx \<equiv> fdiv (f_of_u32 m1) (f_of_u32 n1)" and "sy \<equiv> fdiv (f_of_u32 m2) (f_of_u32 n2)"
  obtains q where "(if flt sx sy then sx else sy) = Fin q" and "0 \<le> q" and "q \<le> 2 ^ 36"
    and "\<exists>q'. q \<le> q' \<and> (n1 \<noteq> 0 \<longrightarrow> sx = Fin q')" and "\<exists>q'. q \<le> q' \<and> (n2 \<noteq> 0 \<longrightarrow> sy = Fin q')"
proof -
  obtain b1 a1 b2 a2 where f: "f_of_u32 m1 = Fin b1" "f_of_u32 n1 = Fin a1" "f_of_u32 m2 = Fin b2" "f_of_u32 n2 = Fin a2"
    using f_of_u32_approx [of m1] f_of_u32_approx [of n1] f_of_u32_approx [of m2] f_of_u32_approx [of n2] by metis
  have pos: "0 < b1" "0 < b2"
    using f_of_u32_bounds(3) [OF f(1)] f_of_u32_bounds(3) [OF f(3)] assms(1,2) by simp_all
  have zero: "n1 = 0 \<Longrightarrow> sx = PInf" "n2 = 0 \<Longrightarrow> sy = PInf"
    using f_of_u32_bounds(4) [OF f(2)] f_of_u32_bounds(4) [OF f(4)] pos f
    by (simp_all add: sx_def sy_def f_inf_def)
  have fx: "\<exists>q. sx = Fin q \<and> 0 \<le> q \<and> q \<le> 2 ^ 36" if "n1 \<noteq> 0"
    using fdiv_u32_approx [OF that f(1,2)] unfolding sx_def by metis
  have fy: "\<exists>q. sy = Fin q \<and> 0 \<le> q \<and> q \<le> 2 ^ 36" if "n2 \<noteq> 0"
    using fdiv_u32_approx [OF that f(3,4)] unfolding sy_def by metis
  consider "n1 = 0" "n2 \<noteq> 0" | "n1 \<noteq> 0" "n2 = 0" | "n1 \<noteq> 0" "n2 \<noteq> 0"
    using assms(3) by blast
  then show thesis
  proof cases
    case 1
    then obtain q where "sy = Fin q" "0 \<le> q" "q \<le> 2 ^ 36" using fy by blast
    with 1 zero that [of q] show ?thesis by auto
  next
    case 2
    then obtain q where "sx = Fin q" "0 \<le> q" "q \<le> 2 ^ 36" using fx by blast
    with 2 zero that [of q] show ?thesis by auto
  next
    case 3
    then obtain q r where "sx = Fin q" "0 \<le> q" "q \<le> 2 ^ 36" "sy = Fin r" "0 \<le> r" "r \<le> 2 ^ 36"
      using fx fy by blast
    note qr = this
    show ?thesis
    proof (cases "q < r")
      case True
      with qr show ?thesis by (intro that [of q]) (auto intro: exI [of _ r])
    next
      case False
      with qr show ?thesis by (intro that [of r]) (auto intro: exI [of _ q])
    qed
  qed
qed

lemma scale_down_le:
  assumes "0 < max_pw" "unat max_pw < 2 ^ 21" and "0 < max_ph" "unat max_ph < 2 ^ 21"
  obtains w h where "scale_down photo_w photo_h max_pw max_ph = Some (w, h)"
    and "unat w \<le> unat max_pw" and "unat h \<le> unat max_ph"
proof (cases "photo_w > max_pw \<or> photo_h > max_ph")
  case False
  then have "scale_down photo_w photo_h max_pw max_ph = Some (photo_w, photo_h)"
    by (auto simp: scale_down_def)
  then show ?thesis
    using that False by (simp add: not_less word_le_nat_alt)
next
  case True
  then have "photo_w \<noteq> 0 \<or> photo_h \<noteq> 0" using assms by auto
  with assms obtain q where
    s: "(if flt (fdiv (f_of_u32 max_pw) (f_of_u32 photo_w)) (fdiv (f_of_u32 max_ph) (f_of_u32 photo_h))
         then fdiv (f_of_u32 max_pw) (f_of_u32 photo_w) else fdiv (f_of_u32 max_ph) (f_of_u32 photo_h)) = Fin q"
    and q: "0 \<le> q" "q \<le> 2 ^ 36"
    and qx: "\<exists>q'. q \<le> q' \<and> (photo_w \<noteq> 0 \<longrightarrow> fdiv (f_of_u32 max_pw) (f_of_u32 photo_w) = Fin q')"
    and qy: "\<exists>q'. q \<le> q' \<and> (photo_h \<noteq> 0 \<longrightarrow> fdiv (f_of_u32 max_ph) (f_of_u32 photo_h) = Fin q')"
    using scale_factor [of max_pw max_ph photo_w photo_h] by auto
  obtain aw ah where a: "f_of_u32 photo_w = Fin aw" "f_of_u32 photo_h = Fin ah"
    using f_of_u32_approx [of photo_w] f_of_u32_approx [of photo_h] by metis
  obtain w where "u32_of_f (fmul (f_of_u32 photo_w) (Fin q)) = Some w" "unat w \<le> unat max_pw"
    using scaled_le_bound [OF assms(2) a(1) q(1)] q(2) qx by metis
  moreover obtain h where "u32_of_f (fmul (f_of_u32 photo_h) (Fin q)) = Some h" "unat h \<le> unat max_ph"
    using scaled_le_bound [OF assms(4) a(2) q(1)] q(2) qy by metis
  ultimately show ?thesis
    using that True assms(1,3) s by (simp add: scale_down_def)
qed

lemma avail_nat:
  assumes "unat n \<ge> 1" and "2 * unat pad + (unat n - 1) * unat g + unat n \<le> unat page" and "unat page < 2 ^ 21"
  shows "unat (gaps n g) = (unat n - 1) * unat g"
    and "unat (avail page (pad * 2) (gaps n g)) = unat page - 2 * unat pad - (unat n - 1) * unat g"
proof -
  have "unat (n - 1) = unat n - 1"
    using assms(1) by (simp add: unat_minus_one unat_gt_0 [symmetric])
  then show g: "unat (gaps n g) = (unat n - 1) * unat g"
    using assms unat_mult_small [of "n - 1" g]
    by (auto simp: gaps_def word_less_nat_alt not_less)
  have p: "unat (pad * 2) = 2 * unat pad"
    using assms(2,3) unat_mult_small [of pad 2] by simp
  have "unat (pad * 2 + gaps n g) = 2 * unat pad + (unat n - 1) * unat g"
    using assms p g by (subst unat_add_small) simp_all
  moreover have "unat (page - pad * 2 - gaps n g) = unat page - 2 * unat pad - (unat n - 1) * unat g"
    using assms p g by (simp add: unat_sub_if')
  ultimately show "unat (avail page (pad * 2) (gaps n g)) = unat page - 2 * unat pad - (unat n - 1) * unat g"
    using assms by (simp add: avail_def word_less_nat_alt)
qed

text \<open>
  A job whose padding, gaps and one pixel per photo fit the page. \<open>page_side\<close> is one side.
\<close>

definition side_fits :: "nat \<Rightarrow> nat \<Rightarrow> nat \<Rightarrow> nat \<Rightarrow> bool" where
  "side_fits page pad g n \<longleftrightarrow> 1 \<le> n \<and> page < 2 ^ 16 \<and> 2 * pad + (n - 1) * g + n \<le> page"

lemma side_limit:
  assumes "side_fits (unat page) (unat pad) (unat g) (unat n)"
  defines "m \<equiv> avail page (pad * 2) (gaps n g) div n"
  shows "0 < m" and "unat m < 2 ^ 21" and "2 * unat pad + (unat n - 1) * unat g + unat n * unat m \<le> unat page"
proof -
  have n: "1 \<le> unat n" and le: "2 * unat pad + (unat n - 1) * unat g + unat n \<le> unat page" and lt: "unat page < 2 ^ 21"
    using assms(1) by (auto simp: side_fits_def)
  note a = avail_nat [OF n le lt]
  have m: "unat m = (unat page - 2 * unat pad - (unat n - 1) * unat g) div unat n"
    by (simp add: m_def unat_div a)
  have "unat n \<le> unat page - 2 * unat pad - (unat n - 1) * unat g" using le by linarith
  then have "1 \<le> unat m" using n by (simp add: m div_greater_zero_iff Suc_le_eq)
  then show "0 < m" by (simp add: word_less_nat_alt)
  show "unat m < 2 ^ 21" using lt by (auto simp: m intro: le_less_trans [OF div_le_dividend])
  have "unat n * unat m \<le> unat page - 2 * unat pad - (unat n - 1) * unat g"
    unfolding m by simp
  then show "2 * unat pad + (unat n - 1) * unat g + unat n * unat m \<le> unat page"
    using le by linarith
qed

definition page_fits :: "img_job \<Rightarrow> bool" where
  "page_fits job \<longleftrightarrow>
     (\<exists>pw ph w h. img_cm_to_px IMG_A4_W_CM (dpi job) = Some pw \<and> img_cm_to_px IMG_A4_H_CM (dpi job) = Some ph \<and>
        img_cm_to_px (photo_w_cm job) (dpi job) = Some w \<and> img_cm_to_px (photo_h_cm job) (dpi job) = Some h \<and>
        side_fits (unat pw) (unat (padding job)) (unat (gap job)) (unat (cols job)) \<and>
        side_fits (unat ph) (unat (padding job)) (unat (gap job)) (unat (rows job)))"

text \<open>The grid the canvas is set up for: where it lies and that it fits the page.\<close>

definition grid_fits :: "img_job \<Rightarrow> img_canvas \<Rightarrow> bool" where
  "grid_fits job c \<longleftrightarrow>
     1 \<le> unat (cols job) \<and> 1 \<le> unat (rows job) \<and>
     1 \<le> unat (photo_w_px c) \<and> 1 \<le> unat (photo_h_px c) \<and>
     unat (start_x c) + unat (cols job) * unat (photo_w_px c) + (unat (cols job) - 1) * unat (gap job)
       + unat (padding job) \<le> unat (page_w_px c) \<and>
     unat (start_y c) + unat (rows job) * unat (photo_h_px c) + (unat (rows job) - 1) * unat (gap job)
       + unat (padding job) \<le> unat (page_h_px c) \<and>
     unat (padding job) \<le> unat (start_x c) \<and> start_y c = padding job \<and>
     unat (page_w_px c) < 2 ^ 16 \<and> unat (page_h_px c) < 2 ^ 16"

lemma geometry_fits:
  assumes "page_fits job"
  obtains c' where "canvas_geometry job c = Some c'" and "grid_fits job c'" and "buf c' = buf c"
proof -
  obtain pw ph w0 h0 where px: "img_cm_to_px IMG_A4_W_CM (dpi job) = Some pw"
    "img_cm_to_px IMG_A4_H_CM (dpi job) = Some ph"
    "img_cm_to_px (photo_w_cm job) (dpi job) = Some w0" "img_cm_to_px (photo_h_cm job) (dpi job) = Some h0"
    and sw: "side_fits (unat pw) (unat (padding job)) (unat (gap job)) (unat (cols job))"
    and sh: "side_fits (unat ph) (unat (padding job)) (unat (gap job)) (unat (rows job))"
    using assms by (auto simp: page_fits_def)
  define mw mh where "mw = avail pw (padding job * 2) (gaps (cols job) (gap job)) div cols job"
    and "mh = avail ph (padding job * 2) (gaps (rows job) (gap job)) div rows job"
  note lw = side_limit [OF sw, folded mw_def] and lh = side_limit [OF sh, folded mh_def]
  obtain w h where wh: "scale_down w0 h0 mw mh = Some (w, h)" "unat w \<le> unat mw" "unat h \<le> unat mh"
    using scale_down_le lw lh by metis
  define W' H' where "W' = (if w = 0 then 1 else w)" and "H' = (if h = 0 then 1 else h)"
  have W': "1 \<le> unat W'" "unat W' \<le> unat mw" and H': "1 \<le> unat H'" "unat H' \<le> unat mh"
    using wh lw(1) lh(1) by (auto simp: W'_def H'_def Suc_le_eq unat_gt_0 word_less_nat_alt)
  define C R G P where "C = unat (cols job)" and "R = unat (rows job)" and "G = unat (gap job)" and "P = unat (padding job)"
  have CR: "1 \<le> C" "1 \<le> R" using sw sh by (auto simp: side_fits_def C_def R_def)
  have lt: "unat pw < 2 ^ 16" "unat ph < 2 ^ 16" using sw sh by (auto simp: side_fits_def)
  have le: "2 * P + (C - 1) * G + C * unat W' \<le> unat pw" "2 * P + (R - 1) * G + R * unat H' \<le> unat ph"
    using lw(3) lh(3) mult_le_mono2 [OF W'(2), of C] mult_le_mono2 [OF H'(2), of R]
    unfolding C_def R_def G_def P_def by linarith+
  have gw: "unat (gaps (cols job) (gap job)) = (C - 1) * G"
    using avail_nat(1) [of "cols job" "padding job" "gap job" pw] sw by (simp add: side_fits_def C_def G_def)
  define grid where "grid = cols job * W' + gaps (cols job) (gap job)"
  have grid: "unat grid = C * unat W' + (C - 1) * G"
  proof -
    have "unat (cols job * W') = C * unat W'"
      using le(1) lt(1) by (simp add: unat_mult_small C_def)
    then show ?thesis
      using le(1) lt(1) gw by (simp add: grid_def unat_add_small)
  qed
  define sx where "sx = (if pw > grid then (pw - grid) div 2 else padding job)"
  have sx: "P \<le> unat sx" "unat sx + unat grid + P \<le> unat pw"
  proof -
    have "unat (pw - grid) = unat pw - unat grid" using le(1) grid by (simp add: unat_sub_if')
    then have "unat sx = (if unat pw > unat grid then (unat pw - unat grid) div 2 else P)"
      by (simp add: sx_def word_less_nat_alt unat_div P_def)
    moreover have "2 * P + unat grid \<le> unat pw" using le(1) grid by simp
    ultimately show "P \<le> unat sx" "unat sx + unat grid + P \<le> unat pw"
      by (auto split: if_splits)
  qed
  define c' where "c' = c\<lparr>page_w_px := pw, page_h_px := ph, photo_w_px := W', photo_h_px := H',
      start_x := sx, start_y := padding job\<rparr>"
  show thesis
  proof (rule that [of c'])
    have "cols job \<noteq> 0" "rows job \<noteq> 0" using CR by (auto simp: C_def R_def)
    then show "canvas_geometry job c = Some c'"
      using px wh by (simp add: canvas_geometry_def c'_def sx_def grid_def W'_def H'_def mw_def mh_def Let_def)
    show "grid_fits job c'"
      using CR W' H' sx grid le lt by (simp add: grid_fits_def c'_def C_def R_def G_def P_def)
  qed (simp add: c'_def)
qed

section \<open>Allocation and background\<close>

lemma fill_bg_paints:
  assumes "3 * k \<le> length s"
  shows "paints (fill_bg r g b (3 * k)) s (\<lambda>i. i < 3 * k) (rgb_at r g b)"
proof -
  have k: "(3 * k + 2) div 3 = k" by simp
  have "paints (foreach [0..<k] (\<lambda>j. put_rgb (3 * j) r g b)) s
      (\<lambda>i. \<exists>j \<in> set [0..<k]. 3 * j \<le> i \<and> i < 3 * j + 3) (rgb_at r g b)"
  proof (rule paints_foreach)
    fix j and s' :: bytes assume "j \<in> set [0..<k]" and "length s' = length s"
    then have "paints (put_rgb (3 * j) r g b) s' (\<lambda>i. 3 * j \<le> i \<and> i < 3 * j + 3)
        (\<lambda>i. if i = 3 * j then r else if i = 3 * j + 1 then g else b)"
      using assms by (intro paints_put_rgb) simp
    then show "paints (put_rgb (3 * j) r g b) s' (\<lambda>i. 3 * j \<le> i \<and> i < 3 * j + 3) (rgb_at r g b)"
    proof (rule paints_cong)
      fix i assume "3 * j \<le> i \<and> i < 3 * j + 3"
      then consider "i = 3 * j" | "i = 3 * j + 1" | "i = 3 * j + 2" by linarith
      moreover have "Suc (3 * j) mod 3 = 1" "Suc (Suc (3 * j)) mod 3 = 2" by presburger+
      ultimately show "(if i = 3 * j then r else if i = 3 * j + 1 then g else b) = rgb_at r g b i"
        by cases (simp_all add: rgb_at_def)
    qed simp
  qed
  then show ?thesis
    unfolding fill_bg_def k
  proof (rule paints_cong)
    show "(\<exists>j \<in> set [0..<k]. 3 * j \<le> i \<and> i < 3 * j + 3) = (i < 3 * k)" for i
      by (auto intro!: bexI [of _ "i div 3"])
  qed simp
qed

lemma unat_rgb_size:
  assumes "unat w < 2 ^ 30" and "unat h < 2 ^ 30"
  shows "unat (rgb_size w h) = 3 * unat w * unat h"
proof -
  have "unat w * unat h < 2 ^ 30 * 2 ^ 30"
    using assms by (intro mult_strict_mono) simp_all
  then have p: "unat w * unat h < 2 ^ 60" by simp
  then have "unat (ucast w * ucast h :: u64) = unat w * unat h"
    using unat_mult_small [of "ucast w :: u64" "ucast h"] by simp
  then show ?thesis
    using p unat_mult_small [of "ucast w * ucast h :: u64" 3] by (simp add: rgb_size_def)
qed

text \<open>The background colour of a job, by channel.\<close>

definition bg :: "img_job \<Rightarrow> nat \<Rightarrow> u8" where
  "bg job k = (if k = 0 then bg_r job else if k = 1 then bg_g job else bg_b job)"

definition canvas_ok :: "img_job \<Rightarrow> img_canvas \<Rightarrow> nat \<Rightarrow> bool" where
  "canvas_ok job c n \<longleftrightarrow> grid_fits job c \<and> rgb_view (buf c) n \<and>
     width (buf c) = page_w_px c \<and> height (buf c) = page_h_px c \<and> data (buf c) \<noteq> NULL"

lemma canvas_init_cases:
  assumes wf: "slab_wf h s xs" and job: "page_fits job"
  obtains
    (nomem) c' where "img_canvas_init (Some c) (Some s) (Some job) h = Some (IMG_ERR_NOMEM, Some c', Some s, h)"
      and "xs = [] \<or> unat (block_size s) < 3 * unat (page_w_px c') * unat (page_h_px c')" and "grid_fits job c'"
  | (ok) c' mem xs' s' h' where "xs = mem # xs'"
      and "img_canvas_init (Some c) (Some s) (Some job) h = Some (IMG_SUCCESS, Some c', Some s', h')"
      and "slab_wf h' s' xs'" and "blocks s' = blocks s" and "block_size s' = block_size s"
      and "mem \<in> blocks s" and "mem \<notin> set xs'"
      and "canvas_ok job c' (length (h' mem))" and "data (buf c') = mem" and "\<And>q. q \<noteq> mem \<Longrightarrow> h' q = h q"
      and "\<And>i. i < 3 * W (buf c') * H (buf c') \<Longrightarrow> h' mem ! i = bg job (i mod 3)"
proof -
  obtain c1 where c1: "canvas_geometry job c = Some c1" "grid_fits job c1"
    using geometry_fits [OF job] by metis
  define n where "n = unat (page_w_px c1) * unat (page_h_px c1)"
  have sz: "unat (rgb_size (page_w_px c1) (page_h_px c1)) = 3 * n"
    using c1(2) by (subst unat_rgb_size) (simp_all add: grid_fits_def n_def)
  show thesis
  proof (cases "rgb_size (page_w_px c1) (page_h_px c1) > block_size s \<or> xs = []")
    case True
    then have "img_canvas_init (Some c) (Some s) (Some job) h = Some (IMG_ERR_NOMEM, Some c1, Some s, h)"
      using c1 wf by (auto simp: img_canvas_init_def img_slab_block_size_def slab_alloc_Nil Let_def)
    moreover have "xs = [] \<or> unat (block_size s) < 3 * unat (page_w_px c1) * unat (page_h_px c1)"
      using True sz by (auto simp: word_less_nat_alt n_def)
    ultimately show thesis
      using nomem c1(2) by blast
  next
    case False
    then obtain mem xs' where xs: "xs = mem # xs'" by (cases xs) auto
    obtain q where al: "img_slab_alloc (Some s) h = Some (mem, Some (s\<lparr>free_list := q\<rparr>))"
      and wf': "slab_wf h (s\<lparr>free_list := q\<rparr>) xs'" and mem: "mem \<noteq> NULL" "mem \<in> blocks s" "mem \<notin> set xs'"
      using slab_alloc_Cons [OF wf [unfolded xs]] by metis
    have len: "3 * n \<le> length (h mem)"
      using slab_wfD(6) [OF wf mem(2)] False sz by (simp add: word_less_nat_alt not_less)
    obtain t where t: "fill_bg (bg_r job) (bg_g job) (bg_b job) (3 * n) (h mem) = Some t" "length t = length (h mem)"
      and tv: "\<And>i. i < length (h mem) \<Longrightarrow> t ! i = (if i < 3 * n then rgb_at (bg_r job) (bg_g job) (bg_b job) i else h mem ! i)"
      using fill_bg_paints [OF len, of "bg_r job" "bg_g job" "bg_b job"] by (auto simp: paints_def)
    define c' where "c' = c1\<lparr>buf := \<lparr>data = mem, width = page_w_px c1, height = page_h_px c1,
        channels = 3, stride = page_w_px c1 * 3\<rparr>\<rparr>"
    have "img_canvas_init (Some c) (Some s) (Some job) h =
        Some (IMG_SUCCESS, Some c', Some (s\<lparr>free_list := q\<rparr>), h(mem := t))"
      using c1 False al mem t sz by (simp add: img_canvas_init_def img_slab_block_size_def c'_def)
    moreover have "slab_wf (h(mem := t)) (s\<lparr>free_list := q\<rparr>) xs'"
      using wf' mem(3) t(2) by (rule slab_client_write)
    moreover have "canvas_ok job c' (length ((h(mem := t)) mem))"
      using c1(2) mem(1) len t(2) unat_mult_small [of "page_w_px c1" 3]
      by (auto simp: canvas_ok_def c'_def grid_fits_def rgb_view_def n_def)
    moreover have "(h(mem := t)) mem ! i = bg job (i mod 3)" if "i < 3 * W (buf c') * H (buf c')" for i
      using tv [of i] that len by (simp add: c'_def n_def rgb_at_def bg_def)
    ultimately show thesis
      using ok [of mem xs' c' "s\<lparr>free_list := q\<rparr>" "h(mem := t)"] xs mem by (simp add: c'_def)
  qed
qed

section \<open>Properties\<close>

text \<open>
  C11. \<open>img_canvas_init\<close> on a job that fits the page: it computes a grid of at least one pixel
  per photo that lies inside the page with the padding around it, despite the rounding of its
  float arithmetic. It fails with \<open>IMG_ERR_NOMEM\<close> exactly when the page does not fit a block or
  no block is left, changing nothing; otherwise it takes one block and paints the background.
\<close>

theorem canvas_init_correct:
  assumes "slab_wf h s xs" and "page_fits job"
  shows "\<exists>r c' s' h'. img_canvas_init (Some c) (Some s) (Some job) h = Some (r, Some c', Some s', h') \<and>
    grid_fits job c' \<and>
    (if xs = [] \<or> unat (block_size s) < 3 * unat (page_w_px c') * unat (page_h_px c')
     then r = IMG_ERR_NOMEM \<and> s' = s \<and> h' = h
     else r = IMG_SUCCESS \<and> slab_wf h' s' (tl xs) \<and> blocks s' = blocks s \<and> data (buf c') = hd xs \<and>
       canvas_ok job c' (length (h' (hd xs))) \<and> (\<forall>q. q \<noteq> hd xs \<longrightarrow> h' q = h q) \<and>
       (\<forall>i < 3 * W (buf c') * H (buf c'). h' (hd xs) ! i = bg job (i mod 3)))"
  using assms
proof (cases rule: canvas_init_cases [where c = c])
  case (nomem c')
  then show ?thesis by auto
next
  case (ok c' mem xs' s' h')
  have "canvas_ok job c' (length (h mem))" and "length (h mem) = unat (block_size s)"
    using ok slab_wfD(6) [OF assms(1)] slab_wfD(6) [OF ok(3)] by (simp_all)
  then have "\<not> unat (block_size s) < 3 * unat (page_w_px c') * unat (page_h_px c')"
    by (auto simp: canvas_ok_def rgb_view_def not_less)
  then show ?thesis
    using ok by (auto simp: canvas_ok_def)
qed

text \<open>A small job: a page of 8 by 12 pixels with one photo.\<close>

definition tiny_job :: img_job where
  "tiny_job = img_job_defaults\<lparr>dpi := 1, cols := 1, rows := 1, gap := 1, padding := 1, border_px := 1,
     bleed_px := 1, crop_mark_px := 1, crop_thickness := 1, crop_offset_px := 0\<rparr>"

definition zero_canvas :: img_canvas where
  "zero_canvas = \<lparr>buf = empty_buffer, page_w_px = 0, page_h_px = 0, photo_w_px = 0, photo_h_px = 0,
     start_x = 0, start_y = 0\<rparr>"

lemma tiny_px:
  "img_cm_to_px IMG_A4_W_CM 1 = Some 8" "img_cm_to_px IMG_A4_H_CM 1 = Some 12"
  "img_cm_to_px (Fin (9 / 2)) 1 = Some 2" "img_cm_to_px (Fin (7 / 2)) 1 = Some 1"
  by code_simp+

lemma tiny_fits: "page_fits tiny_job"
  by (simp add: page_fits_def tiny_job_def img_job_defaults_def tiny_px side_fits_def)

theorem canvas_init_correct_witness:
  "\<exists>r c' s' h'. img_canvas_init (Some zero_canvas) (Some demo_pool) (Some tiny_job) demo_heap = Some (r, Some c', Some s', h') \<and>
    grid_fits tiny_job c' \<and>
    (if demo_free = [] \<or> unat (block_size demo_pool) < 3 * unat (page_w_px c') * unat (page_h_px c')
     then r = IMG_ERR_NOMEM \<and> s' = demo_pool \<and> h' = demo_heap
     else r = IMG_SUCCESS \<and> slab_wf h' s' (tl demo_free) \<and> blocks s' = blocks demo_pool \<and> data (buf c') = hd demo_free \<and>
       canvas_ok tiny_job c' (length (h' (hd demo_free))) \<and> (\<forall>q. q \<noteq> hd demo_free \<longrightarrow> h' q = demo_heap q) \<and>
       (\<forall>i < 3 * W (buf c') * H (buf c'). h' (hd demo_free) ! i = bg tiny_job (i mod 3)))"
  by (rule canvas_init_correct [OF demo_pool_wf(1) tiny_fits])

end
