(* ===== verification/Blit.thy ===== *)
theory Blit
  imports Raster
begin

text \<open>
  The blit kernels of \<open>arch/x86_64/avx2/blit_avx2.c\<close>: the reference copies each row by
  \<open>memcpy\<close>, the AVX2 kernel by 32-byte chunks and a byte-wise tail. The locale
  \<open>simd_row\<close> is the contract of every kernel written in this style.
\<close>

section \<open>Chunks and a tail\<close>

definition chunked :: "nat \<Rightarrow> (nat \<Rightarrow> 's \<Rightarrow> 's option) \<Rightarrow> (nat \<Rightarrow> 's \<Rightarrow> 's option) \<Rightarrow> nat \<Rightarrow> 's \<Rightarrow> 's option" where
  "chunked lanes vec scalar n s = do {
     s \<leftarrow> foreach [0..<n div lanes] (\<lambda>i. vec (lanes * i)) s;
     foreach [n div lanes * lanes..<n] scalar s }"

text \<open>
  \<open>vec x\<close> processes the elements \<open>x\<close> to \<open>x + lanes - 1\<close> at once and does what the
  scalar code does on them one by one; then the whole row is the scalar loop.
\<close>

locale simd_row =
  fixes lanes :: nat
    and vec :: "nat \<Rightarrow> 's \<Rightarrow> 's option"
    and scalar :: "nat \<Rightarrow> 's \<Rightarrow> 's option"
  assumes lanes: "0 < lanes"
    and vec_scalar: "vec x s = foreach [x..<x + lanes] scalar s"
begin

lemma chunks: "foreach [0..<m] (\<lambda>i. vec (lanes * i)) s = foreach [0..<lanes * m] scalar s"
proof (induction m)
  case (Suc m)
  have "lanes * Suc m = lanes * m + lanes" by simp
  then have "[0..<lanes * Suc m] = [0..<lanes * m] @ [lanes * m..<lanes * m + lanes]"
    by (simp only: upt_add_eq_append [of 0, OF le0])
  moreover have "foreach [0..<Suc m] (\<lambda>i. vec (lanes * i)) s =
      Option.bind (foreach [0..<m] (\<lambda>i. vec (lanes * i)) s) (vec (lanes * m))"
    by (simp add: foreach_snoc)
  moreover have "vec (lanes * m) = foreach [lanes * m..<lanes * m + lanes] scalar"
    by (simp add: vec_scalar fun_eq_iff)
  ultimately show ?case
    by (simp only: Suc foreach_append)
qed simp

lemma simd_eq_scalar: "chunked lanes vec scalar n s = foreach [0..<n] scalar s"
proof -
  have "n = lanes * (n div lanes) + n mod lanes" by simp
  then have "[0..<n] = [0..<lanes * (n div lanes)] @ [lanes * (n div lanes)..<n]"
    by (metis upt_add_eq_append le0)
  then have "foreach [0..<n] scalar s =
      Option.bind (foreach [0..<lanes * (n div lanes)] scalar s) (foreach [lanes * (n div lanes)..<n] scalar)"
    by (metis foreach_append)
  then show ?thesis
    by (simp add: chunked_def chunks mult.commute [of _ lanes])
qed

end

section \<open>Copying\<close>

definition copy_byte :: "bytes \<Rightarrow> nat \<Rightarrow> nat \<Rightarrow> nat \<Rightarrow> bytes \<Rightarrow> bytes option" where
  "copy_byte src k d x s = do { v \<leftarrow> load src (k + x); store (d + x) v s }"

lemma take_drop_step:
  assumes "k + n < length src" and "d + n < length s"
  shows "(take d s @ take n (drop k src) @ drop (d + n) s)[d + n := src ! (k + n)] =
    take d s @ take (Suc n) (drop k src) @ drop (Suc (d + n)) s"
proof -
  have "drop (d + n) s = s ! (d + n) # drop (Suc (d + n)) s"
    using assms(2) by (simp add: Cons_nth_drop_Suc)
  moreover have "take (Suc n) (drop k src) = take n (drop k src) @ [src ! (k + n)]"
    using assms(1) by (simp add: take_Suc_conv_app_nth)
  ultimately show ?thesis
    using assms by (simp add: list_update_append)
qed

lemma copy_bytes_foreach:
  "foreach [0..<n] (copy_byte src k d) s =
     (if n = 0 then Some s
      else if k + n \<le> length src \<and> d + n \<le> length s
      then Some (take d s @ take n (drop k src) @ drop (d + n) s) else None)"
proof (induction n)
  case (Suc n)
  define t where "t = take d s @ take n (drop k src) @ drop (d + n) s"
  have step: "foreach [0..<Suc n] (copy_byte src k d) s =
      Option.bind (foreach [0..<n] (copy_byte src k d) s) (copy_byte src k d n)"
    by (simp add: foreach_snoc)
  have n: "n = 0 \<Longrightarrow> t = s" and len: "k + n \<le> length src \<Longrightarrow> d + n \<le> length s \<Longrightarrow> length t = length s"
    by (simp_all add: t_def)
  show ?case
    unfolding step Suc t_def [symmetric]
    using take_drop_step [of k n src d s, folded t_def] n len
    by (cases "n = 0") (auto simp: copy_byte_def load_def store_def)
qed simp

lemma copy_bytes_eq: "0 < n \<Longrightarrow> copy_bytes src k d n s = foreach [0..<n] (copy_byte src k d) s"
  by (simp add: copy_bytes_foreach copy_bytes_def)

lemma foreach_shift: "foreach [a..<a + n] f s = foreach [0..<n] (\<lambda>x. f (a + x)) s"
  by (induction n) (simp_all add: foreach_snoc)

interpretation copy_row: simd_row 32 "\<lambda>x. copy_bytes src (k + x) (d + x) 32" "copy_byte src k d"
  for src k d
proof unfold_locales
  show "copy_bytes src (k + x) (d + x) 32 s = foreach [x..<x + 32] (copy_byte src k d) s" for x s
    by (simp add: copy_bytes_eq foreach_shift copy_byte_def [abs_def] add.assoc)
qed simp

section \<open>The kernels\<close>

text \<open>
  The clipped height and width, the row loop, and the two ways to copy a row. A null
  descriptor is \<^const>\<open>None\<close>; \<open>src_mem\<close> is the storage of the source image. Row sizes
  within 32 bytes of \<open>2\<^sup>3\<^sup>2\<close> make the test \<open>x + 32 <= row_bytes\<close> wrap around and the chunk
  loop never end: no result.
\<close>

definition clip :: "u32 \<Rightarrow> u32 \<Rightarrow> u32 \<Rightarrow> u32" where
  "clip len pos limit = (if pos + len > limit then limit - pos else len)"

definition blit_rows ::
  "(nat \<Rightarrow> nat \<Rightarrow> nat \<Rightarrow> bytes \<Rightarrow> bytes option) \<Rightarrow> img_buffer option \<Rightarrow> img_buffer option \<Rightarrow> u32 \<Rightarrow> u32 \<Rightarrow> bytes \<Rightarrow> bytes option" where
  "blit_rows copy_row dst src dst_x dst_y s =
     (case (dst, src) of
        (Some dst, Some src) \<Rightarrow>
          if data dst = NULL \<or> data src = NULL then Some s
          else let nrows = clip (height src) dst_y (height dst);
                   ncols = clip (width src) dst_x (width dst);
                   row_bytes = unat (ncols * 3) in
            foreach [0..<unat nrows] (\<lambda>y.
              copy_row (y * unat (stride src))
                (unat (dst_y + of_nat y) * unat (stride dst) + unat dst_x * 3) row_bytes) s
      | _ \<Rightarrow> Some s)"

definition img_blit_avx2 :: "img_buffer option \<Rightarrow> img_buffer option \<Rightarrow> bytes \<Rightarrow> u32 \<Rightarrow> u32 \<Rightarrow> bytes \<Rightarrow> bytes option" where
  "img_blit_avx2 dst src src_mem =
     blit_rows (\<lambda>k d n s. if n \<ge> 2 ^ 32 - 32 then None
        else chunked 32 (\<lambda>x. copy_bytes src_mem (k + x) (d + x) 32) (copy_byte src_mem k d) n s) dst src"

definition img_blit_scalar :: "img_buffer option \<Rightarrow> img_buffer option \<Rightarrow> bytes \<Rightarrow> u32 \<Rightarrow> u32 \<Rightarrow> bytes \<Rightarrow> bytes option" where
  "img_blit_scalar dst src src_mem = blit_rows (\<lambda>k d n. copy_bytes src_mem k d n) dst src"

section \<open>Properties\<close>

lemma blit_rows_cong:
  assumes "\<And>k d s. f k d (unat (clip (width src) x (width dst) * 3)) s =
      g k d (unat (clip (width src) x (width dst) * 3)) s"
  shows "blit_rows f (Some dst) (Some src) x y s = blit_rows g (Some dst) (Some src) x y s"
  using assms by (auto simp: blit_rows_def Let_def intro!: foreach_cong)

lemma blit_avx2_scalar:
  assumes "0 < clip (width src) x (width dst) * 3"
    and "unat (clip (width src) x (width dst) * 3) < 2 ^ 32 - 32"
  shows "img_blit_avx2 (Some dst) (Some src) src_mem x y s = img_blit_scalar (Some dst) (Some src) src_mem x y s"
  unfolding img_blit_avx2_def img_blit_scalar_def
  using assms by (intro blit_rows_cong) (simp add: copy_row.simd_eq_scalar copy_bytes_eq unat_gt_0 word_neq_0_conv)

text \<open>
  C20. The AVX2 blit and its scalar reference are the same function, also when they fault, as
  long as a clipped row is not empty and is shorter than \<open>2\<^sup>3\<^sup>2 - 32\<close> bytes.
\<close>

theorem blit_avx2_eq_scalar:
  assumes "0 < clip (width src) x (width dst) * 3"
    and "unat (clip (width src) x (width dst) * 3) < 2 ^ 32 - 32"
  shows "img_blit_avx2 (Some dst) (Some src) src_mem x y s = img_blit_scalar (Some dst) (Some src) src_mem x y s"
  using assms by (rule blit_avx2_scalar)

theorem blit_avx2_eq_scalar_witness:
  "img_blit_avx2 (Some demo_canvas) (Some demo_canvas) (replicate 108 7) 0 0 (replicate 108 0) =
   img_blit_scalar (Some demo_canvas) (Some demo_canvas) (replicate 108 7) 0 0 (replicate 108 0)"
  by (rule blit_avx2_eq_scalar) (simp_all add: clip_def demo_canvas_def)

text \<open>The bytes of a row of pixels.\<close>

lemma row_region:
  assumes "x + w \<le> W buf" and "y < H buf"
  shows "in_region buf (\<lambda>px py. int x \<le> px \<and> px < int (x + w) \<and> py = int y) i \<longleftrightarrow>
    pix (W buf) x y 0 \<le> i \<and> i < pix (W buf) x y 0 + 3 * w"
proof
  assume i: "in_region buf (\<lambda>px py. int x \<le> px \<and> px < int (x + w) \<and> py = int y) i"
  then have "0 < W buf" by (auto simp: in_region_def intro: gr0I)
  then obtain z k where "i = pix (W buf) z y k" "k < 3" "x \<le> z" "z < x + w"
    using pix_surj [of "W buf" i] i by (auto simp: in_region_def)
  then show "pix (W buf) x y 0 \<le> i \<and> i < pix (W buf) x y 0 + 3 * w"
    by (simp add: pix_def)
next
  assume i: "pix (W buf) x y 0 \<le> i \<and> i < pix (W buf) x y 0 + 3 * w"
  define j where "j = i - pix (W buf) x y 0"
  have j: "j < 3 * w" and eq: "i = pix (W buf) (x + j div 3) y (j mod 3)"
    using i by (auto simp: j_def pix_def)
  have z: "x + j div 3 < x + w" using j by simp
  then show "in_region buf (\<lambda>px py. int x \<le> px \<and> px < int (x + w) \<and> py = int y) i"
    using assms by (simp add: eq in_region_pix)
qed

text \<open>\<open>w\<close> pixels copied from one row to another image.\<close>

lemma copy_span_draws:
  assumes dst: "rgb_view dst (length s)" and src: "3 * sw * sh \<le> length src_mem"
    and x: "dx + w \<le> W dst" and y: "dy < H dst" and sx: "sx + w \<le> sw" and sy: "sy < sh" and w: "0 < w"
    and V: "\<And>j k. j < w \<Longrightarrow> k < 3 \<Longrightarrow> V (int (dx + j)) (int dy) k = src_mem ! pix sw (sx + j) sy k"
  shows "draws dst (copy_bytes src_mem (pix sw sx sy 0) (pix (W dst) dx dy 0) (3 * w)) s
    (\<lambda>px py. int dx \<le> px \<and> px < int (dx + w) \<and> py = int dy) V"
proof -
  define d k where "d = pix (W dst) dx dy 0" and "k = pix sw sx sy 0"
  obtain m where m: "w = Suc m" using w gr0_implies_Suc by blast
  have "pix sw (sx + m) sy 2 < 3 * sw * sh"
    using sx sy m by (intro pix_in_view) simp_all
  then have "k + 3 * w \<le> length src_mem"
    using src m by (simp add: k_def pix_def)
  moreover have "pix (W dst) (dx + m) dy 2 < 3 * W dst * H dst"
    using x y m by (intro pix_in_view) simp_all
  then have "d + 3 * w \<le> length s"
    using rgb_viewD(3) [OF dst] m by (simp add: d_def pix_def)
  ultimately have "paints (copy_bytes src_mem k d (3 * w)) s (\<lambda>i. d \<le> i \<and> i < d + 3 * w)
      (\<lambda>i. src_mem ! (i - d + k))"
    by (rule paints_copy_bytes)
  then show ?thesis
    unfolding draws_def d_def [symmetric] k_def [symmetric]
  proof (rule paints_cong)
    fix i assume i: "d \<le> i \<and> i < d + 3 * w"
    define j where "j = i - d"
    have j: "j div 3 < w" and eq: "i = pix (W dst) (dx + j div 3) dy (j mod 3)"
      using i by (auto simp: j_def d_def pix_def)
    then have "lift_v dst V i = V (int (dx + j div 3)) (int dy) (j mod 3)"
      unfolding eq lift_v_def using x by (simp add: pix_row pix_col pix_channel)
    also have "\<dots> = src_mem ! pix sw (sx + j div 3) sy (j mod 3)"
      using j by (intro V) simp_all
    also have "pix sw (sx + j div 3) sy (j mod 3) = i - d + k"
      unfolding j_def [symmetric] by (simp add: k_def pix_def)
    finally show "src_mem ! (i - d + k) = lift_v dst V i" ..
  qed (use row_region [of dx w dst dy] x y in \<open>simp add: d_def\<close>)
qed

lemma clip_id: "unat pos + unat len \<le> unat limit \<Longrightarrow> clip len pos limit = len"
  using unat_add_small [of pos len] unat_lt_u32 [of limit]
  by (simp add: clip_def word_less_nat_alt)

lemma blit_draws:
  assumes dst: "rgb_view dst (length s)" and src: "rgb_view src (length src_mem)"
    and data: "data dst \<noteq> NULL" "data src \<noteq> NULL"
    and x: "unat x + W src \<le> W dst" and y: "unat y + H src \<le> H dst"
    and w: "0 < W src" "3 * W src < 2 ^ 32 - 32"
  shows "draws dst (img_blit_avx2 (Some dst) (Some src) src_mem x y) s
    (rect (uint x) (uint y) (uint (width src)) (uint (height src)))
    (\<lambda>px py k. px_at src src_mem (px - uint x) (py - uint y) k)"
proof -
  let ?V = "\<lambda>px py k. px_at src src_mem (px - int (unat x)) (py - int (unat y)) k"
  have clip: "clip (width src) x (width dst) = width src" "clip (height src) y (height dst) = height src"
    using x y clip_id by simp_all
  define body where "body r = copy_bytes src_mem (r * unat (stride src))
      ((unat y + r) * unat (stride dst) + unat x * 3) (3 * W src)" for r
  have "draws dst (foreach [0..<H src] body) s (\<lambda>px py. \<exists>r \<in> set [0..<H src].
      int (unat x) \<le> px \<and> px < int (unat x + W src) \<and> py = int (unat y + r)) ?V"
  proof (rule draws_foreach [OF dst])
    fix r and s' :: bytes assume r: "r \<in> set [0..<H src]" and len: "length s' = length s"
    have "draws dst (copy_bytes src_mem (pix (W src) 0 r 0) (pix (W dst) (unat x) (unat y + r) 0) (3 * W src)) s'
        (\<lambda>px py. int (unat x) \<le> px \<and> px < int (unat x + W src) \<and> py = int (unat y + r)) ?V"
    proof (rule copy_span_draws [of _ _ _ "H src"])
      show "?V (int (unat x + j)) (int (unat y + r)) k = src_mem ! pix (W src) (0 + j) r k" for j k
        by (simp add: px_at_def)
    qed (use assms r len rgb_viewD(3) [OF src] in \<open>simp_all\<close>)
    moreover have "body r = copy_bytes src_mem (pix (W src) 0 r 0) (pix (W dst) (unat x) (unat y + r) 0) (3 * W src)"
      using rgb_viewD(2) [OF dst] rgb_viewD(2) [OF src] by (simp add: body_def pix_def mult.commute)
    ultimately show "draws dst (body r) s'
        (\<lambda>px py. int (unat x) \<le> px \<and> px < int (unat x + W src) \<and> py = int (unat y + r)) ?V"
      by simp
  qed
  then have "draws dst (foreach [0..<H src] body) s (rect (uint x) (uint y) (uint (width src)) (uint (height src))) ?V"
  proof (rule draws_cong)
    fix px py
    show "(\<exists>r \<in> set [0..<H src]. int (unat x) \<le> px \<and> px < int (unat x + W src) \<and> py = int (unat y + r)) =
        rect (uint x) (uint y) (uint (width src)) (uint (height src)) px py"
      by (auto simp: rect_def intro!: bexI [of _ "nat (py - uint y)"])
  qed
  moreover have "img_blit_avx2 (Some dst) (Some src) src_mem x y = foreach [0..<H src] body"
  proof
    fix s'
    have n: "unat (width src * 3) = 3 * W src"
      using w(2) unat_mult_small [of "width src" 3] by simp
    have "img_blit_avx2 (Some dst) (Some src) src_mem x y s' = img_blit_scalar (Some dst) (Some src) src_mem x y s'"
      using w by (intro blit_avx2_scalar) (simp_all add: clip n word_less_nat_alt)
    also have "\<dots> = foreach [0..<H src] (\<lambda>r. copy_bytes src_mem (r * unat (stride src))
        (unat (y + of_nat r) * unat (stride dst) + unat x * 3) (3 * W src)) s'"
      using data by (simp add: img_blit_scalar_def blit_rows_def clip n Let_def)
    also have "\<dots> = foreach [0..<H src] body s'"
      using y unat_lt_u32 [of "height dst"]
      by (intro foreach_cong) (simp_all add: body_def unat_add_small unat_of_nat_small)
    finally show "img_blit_avx2 (Some dst) (Some src) src_mem x y s' = foreach [0..<H src] body s'" .
  qed
  ultimately show ?thesis by simp
qed

end
