(* ===== verification/Border.thy ===== *)
theory Border
  imports Raster
begin

text \<open>
  The border pass, \<open>pipeline/border.c\<close>: a black frame of \<open>border_px\<close> pixels along the
  inside of every cell.
\<close>

section \<open>Operations\<close>

text \<open>
  \<open>fill_rect\<close>. The loop bounds \<open>y + h\<close> and \<open>x + w\<close> are signed sums; the second is
  computed only in rows that are on the canvas.
\<close>

definition fill_rect :: "img_buffer \<Rightarrow> int \<Rightarrow> int \<Rightarrow> int \<Rightarrow> int \<Rightarrow> u8 \<Rightarrow> u8 \<Rightarrow> u8 \<Rightarrow> bytes \<Rightarrow> bytes option" where
  "fill_rect canvas x y w h r g b s =
     (let cw = sint (width canvas); cht = sint (height canvas) in
      do {
        y1 \<leftarrow> i32 (y + h);
        foreach [y..y1 - 1] (\<lambda>py s.
          if py < 0 \<or> py \<ge> cht then Some s
          else do {
            x1 \<leftarrow> i32 (x + w);
            foreach [x..x1 - 1] (\<lambda>px s.
              if px < 0 \<or> px \<ge> cw then Some s
              else put_rgb (nat py * unat (stride canvas) + nat px * 3) r g b s) s }) s })"

definition draw_cell_border :: "img_buffer \<Rightarrow> int \<Rightarrow> img_cell \<Rightarrow> bytes \<Rightarrow> bytes option" where
  "draw_cell_border canvas bp c s =
     (let x = sint (cell_x c); y = sint (cell_y c); w = sint (cell_w c); h = sint (cell_h c) in
      do {
        s \<leftarrow> fill_rect canvas x y w bp 0 0 0 s;
        yh \<leftarrow> i32 (y + h);
        yb \<leftarrow> i32 (yh - bp);
        s \<leftarrow> fill_rect canvas x yb w bp 0 0 0 s;
        s \<leftarrow> fill_rect canvas x y bp h 0 0 0 s;
        xw \<leftarrow> i32 (x + w);
        xb \<leftarrow> i32 (xw - bp);
        fill_rect canvas xb y bp h 0 0 0 s })"

text \<open>
  \<open>img_draw_borders\<close>; null arguments are \<^const>\<open>None\<close>. Reading past the cells array is
  undefined.
\<close>

definition img_draw_borders :: "img_buffer option \<Rightarrow> img_layout option \<Rightarrow> u32 \<Rightarrow> bytes \<Rightarrow> (img_result \<times> bytes) option" where
  "img_draw_borders canvas layout border s =
     (case (canvas, layout) of
        (Some canvas, Some layout) \<Rightarrow>
          if border = 0 then Some (IMG_SUCCESS, s)
          else do {
            s \<leftarrow> foreach [0..<unat (count layout)] (\<lambda>i s.
              if i < length (cells layout) then draw_cell_border canvas (sint border) (cells layout ! i) s
              else None) s;
            Some (IMG_SUCCESS, s) }
      | _ \<Rightarrow> Some (IMG_SUCCESS, s))"

section \<open>The effect of one rectangle\<close>

lemma fill_rect_paints:
  assumes view: "rgb_view canvas (length s)"
    and small: "W canvas < 2 ^ 31" "H canvas < 2 ^ 31"
    and xw: "in_i32 (x + w)" and yh: "in_i32 (y + h)"
  shows "paints (fill_rect canvas x y w h r g b) s (in_region canvas (rect x y w h)) (rgb_at r g b)"
proof -
  define px_body where "px_body py = (\<lambda>px s. if px < 0 \<or> px \<ge> int (W canvas) then Some s
      else put_rgb (nat py * unat (stride canvas) + nat px * 3) r g b s)" for py
  define row where "row = (\<lambda>py s. if py < 0 \<or> py \<ge> int (H canvas) then Some s
      else foreach [x..x + w - 1] (px_body py) s)"
  have px: "paints (px_body py px) s' (in_region canvas (\<lambda>qx qy. qx = px \<and> qy = py)) (rgb_at r g b)"
    if len: "length s' = length s" and py: "0 \<le> py" "py < int (H canvas)" for px py s'
  proof (cases "px < 0 \<or> px \<ge> int (W canvas)")
    case True
    then have "paints Some s' (in_region canvas (\<lambda>qx qy. qx = px \<and> qy = py)) (rgb_at r g b)"
      by (intro paints_region_none) auto
    then show ?thesis using True by (simp add: px_body_def)
  next
    case False
    then show ?thesis
      using paints_pixel [of canvas s' "nat px" "nat py" r g b] view len py
      by (simp add: px_body_def nat_less_iff)
  qed
  have "paints (row py) s' (in_region canvas (\<lambda>qx qy. x \<le> qx \<and> qx < x + w \<and> qy = py)) (rgb_at r g b)"
    if len: "length s' = length s" for py s'
  proof (cases "py < 0 \<or> py \<ge> int (H canvas)")
    case True
    then have "paints Some s' (in_region canvas (\<lambda>qx qy. x \<le> qx \<and> qx < x + w \<and> qy = py)) (rgb_at r g b)"
      by (intro paints_region_none) auto
    then show ?thesis using True by (simp add: row_def)
  next
    case False
    then have "paints (foreach [x..x + w - 1] (px_body py)) s'
        (in_region canvas (\<lambda>qx qy. \<exists>px \<in> set [x..x + w - 1]. qx = px \<and> qy = py)) (rgb_at r g b)"
      using len by (intro paints_region_foreach px) auto
    then have "paints (foreach [x..x + w - 1] (px_body py)) s'
        (in_region canvas (\<lambda>qx qy. x \<le> qx \<and> qx < x + w \<and> qy = py)) (rgb_at r g b)"
      by (rule paints_region_cong) auto
    then show ?thesis using False by (simp add: row_def)
  qed
  then have "paints (foreach [y..y + h - 1] row) s
      (in_region canvas (\<lambda>qx qy. \<exists>py \<in> set [y..y + h - 1]. x \<le> qx \<and> qx < x + w \<and> qy = py)) (rgb_at r g b)"
    by (intro paints_region_foreach) auto
  then have "paints (foreach [y..y + h - 1] row) s (in_region canvas (rect x y w h)) (rgb_at r g b)"
    by (rule paints_region_cong) (auto simp: rect_def)
  moreover have "fill_rect canvas x y w h r g b = foreach [y..y + h - 1] row"
    using xw yh small sint_small [of "width canvas"] sint_small [of "height canvas"]
    by (auto simp: fill_rect_def row_def px_body_def c_simps fun_eq_iff intro!: foreach_cong)
  ultimately show ?thesis by simp
qed

section \<open>The frame of a cell\<close>

definition frame :: "int \<Rightarrow> img_cell \<Rightarrow> region" where
  "frame bp c px py \<longleftrightarrow>
     rect (uint (cell_x c)) (uint (cell_y c)) (uint (cell_w c)) (uint (cell_h c)) px py \<and>
     \<not> rect (uint (cell_x c) + bp) (uint (cell_y c) + bp) (uint (cell_w c) - 2 * bp) (uint (cell_h c) - 2 * bp) px py"

text \<open>A cell whose coordinates are small enough for the signed arithmetic of the passes.\<close>

definition small_cell :: "img_cell \<Rightarrow> bool" where
  "small_cell c \<longleftrightarrow> uint (cell_x c) < 2 ^ 29 \<and> uint (cell_y c) < 2 ^ 29 \<and>
     uint (cell_w c) < 2 ^ 29 \<and> uint (cell_h c) < 2 ^ 29"

lemma small_cell_sint:
  assumes "small_cell c"
  shows "sint (cell_x c) = uint (cell_x c)" "sint (cell_y c) = uint (cell_y c)"
    "sint (cell_w c) = uint (cell_w c)" "sint (cell_h c) = uint (cell_h c)"
  using assms
  by (simp_all add: small_cell_def sint_uint_small)

lemma draw_cell_border_paints:
  assumes view: "rgb_view canvas (length s)"
    and small: "W canvas < 2 ^ 31" "H canvas < 2 ^ 31" "small_cell c"
    and bp: "0 < bp" "bp \<le> uint (cell_w c)" "bp \<le> uint (cell_h c)"
  shows "paints (draw_cell_border canvas bp c) s (in_region canvas (frame bp c)) (\<lambda>_. 0)"
proof -
  define x y w h where "x = uint (cell_x c)" and "y = uint (cell_y c)"
    and "w = uint (cell_w c)" and "h = uint (cell_h c)"
  note defs = x_def y_def w_def h_def
  have b: "0 \<le> x" "0 \<le> y" "x < 2 ^ 29" "y < 2 ^ 29" "w < 2 ^ 29" "h < 2 ^ 29" "bp \<le> w" "bp \<le> h"
    using small(3) bp by (simp_all add: small_cell_def defs)
  have i: "in_i32 (x + w)" "in_i32 (y + bp)" "in_i32 (y + h)" "in_i32 (y + h - bp)" "in_i32 (x + bp)"
    "in_i32 (x + w - bp)" "in_i32 (y + h - bp + bp)" "in_i32 (x + w - bp + bp)"
    using b bp(1) by (auto simp: in_i32_def)
  have fill: "paints (fill_rect canvas x' y' w' h' 0 0 0) s' (in_region canvas (rect x' y' w' h')) (\<lambda>_. 0)"
    if "length s' = length s" "in_i32 (x' + w')" "in_i32 (y' + h')" for s' x' y' w' h'
    using fill_rect_paints [of canvas s' x' w' y' h' 0 0 0] that view small by simp
  let ?steps = "\<lambda>s. Option.bind (fill_rect canvas x y w bp 0 0 0 s)
    (\<lambda>s. Option.bind (fill_rect canvas x (y + h - bp) w bp 0 0 0 s)
    (\<lambda>s. Option.bind (fill_rect canvas x y bp h 0 0 0 s)
    (fill_rect canvas (x + w - bp) y bp h 0 0 0)))"
  have "paints ?steps s (in_region canvas (\<lambda>px py. rect x y w bp px py \<or> (rect x (y + h - bp) w bp px py \<or>
      (rect x y bp h px py \<or> rect (x + w - bp) y bp h px py)))) (\<lambda>_. 0)"
    by (intro paints_region_seq fill i) simp_all
  then have "paints ?steps s (in_region canvas (frame bp c)) (\<lambda>_. 0)"
    by (rule paints_region_cong) (use b bp(1) in \<open>auto simp: frame_def rect_def simp flip: defs\<close>)
  moreover have "draw_cell_border canvas bp c = ?steps"
    using i by (simp add: draw_cell_border_def small_cell_sint [OF small(3)] c_simps fun_eq_iff flip: defs)
  ultimately show ?thesis by simp
qed

section \<open>Properties\<close>

lemma draw_borders_spec:
  assumes "rgb_view canvas (length s)" and "W canvas < 2 ^ 31" and "H canvas < 2 ^ 31"
    and "length (cells layout) = unat (count layout)"
    and "\<And>c. c \<in> set (cells layout) \<Longrightarrow>
      small_cell c \<and> uint border \<le> uint (cell_w c) \<and> uint border \<le> uint (cell_h c)"
    and "0 < border"
  shows "\<exists>s'. img_draw_borders (Some canvas) (Some layout) border s = Some (IMG_SUCCESS, s') \<and>
    length s' = length s \<and>
    (\<forall>x < W canvas. \<forall>y < H canvas. \<forall>k < 3. s' ! pix (W canvas) x y k =
       (if \<exists>c \<in> set (cells layout). frame (uint border) c (int x) (int y) then 0
        else s ! pix (W canvas) x y k))"
proof (cases "cells layout")
  case Nil
  then show ?thesis
    using assms(4) by (simp add: img_draw_borders_def)
next
  case (Cons c0 cs)
  then have "uint border < 2 ^ 29"
    using assms(5) [of c0] by (simp add: small_cell_def)
  then have sb: "sint border = uint border"
    by (simp add: sint_uint_small)
  have pos: "0 < uint border"
    using assms(6) by (simp add: word_less_def)
  have all: "set (map ((!) (cells layout)) [0..<unat (count layout)]) = set (cells layout)"
    using assms(4) by (metis map_nth)
  define body where "body = (\<lambda>i s. if i < length (cells layout)
      then draw_cell_border canvas (sint border) (cells layout ! i) s else None)"
  have "paints (foreach [0..<unat (count layout)] body) s
      (in_region canvas (\<lambda>px py. \<exists>i \<in> set [0..<unat (count layout)].
         frame (uint border) (cells layout ! i) px py)) (\<lambda>_. 0)"
  proof (rule paints_region_foreach)
    fix i and s' :: bytes
    assume "i \<in> set [0..<unat (count layout)]" and len: "length s' = length s"
    then have i: "i < length (cells layout)" using assms(4) by simp
    with assms(5) [of "cells layout ! i"] have
      "paints (draw_cell_border canvas (uint border) (cells layout ! i)) s'
         (in_region canvas (frame (uint border) (cells layout ! i))) (\<lambda>_. 0)"
      using assms(1-3) len pos by (intro draw_cell_border_paints) simp_all
    then show "paints (body i) s' (in_region canvas (frame (uint border) (cells layout ! i))) (\<lambda>_. 0)"
      using i sb by (simp add: body_def)
  qed
  then obtain s' where s': "foreach [0..<unat (count layout)] body s = Some s'" "length s' = length s"
    and eq: "\<And>i. i < length s \<Longrightarrow> s' ! i = (if in_region canvas (\<lambda>px py. \<exists>i \<in> set [0..<unat (count layout)].
         frame (uint border) (cells layout ! i) px py) i then 0 else s ! i)"
    by (auto simp: paints_def)
  have "s' ! pix (W canvas) x y k = (if \<exists>c \<in> set (cells layout). frame (uint border) c (int x) (int y) then 0
        else s ! pix (W canvas) x y k)" if "x < W canvas" "y < H canvas" "k < 3" for x y k
  proof -
    have "pix (W canvas) x y k < length s"
      using pix_in_view [OF that] rgb_viewD(3) [OF assms(1)] by simp
    from eq [OF this] show ?thesis
      using that by (simp add: in_region_pix flip: all)
  qed
  with s' show ?thesis
    using assms(6) by (auto simp: img_draw_borders_def body_def)
qed

text \<open>
  C19. The border pass paints black exactly the frames of \<open>border_px\<close> pixels along the inside
  of the cells, clipped to the canvas, and changes no other byte; it never writes outside the
  canvas and no signed operation overflows.
\<close>

theorem draw_borders_exact:
  assumes "rgb_view canvas (length s)" and "W canvas < 2 ^ 31" and "H canvas < 2 ^ 31"
    and "length (cells layout) = unat (count layout)"
    and "\<And>c. c \<in> set (cells layout) \<Longrightarrow>
      small_cell c \<and> uint border \<le> uint (cell_w c) \<and> uint border \<le> uint (cell_h c)"
    and "0 < border"
  shows "\<exists>s'. img_draw_borders (Some canvas) (Some layout) border s = Some (IMG_SUCCESS, s') \<and>
    length s' = length s \<and>
    (\<forall>x < W canvas. \<forall>y < H canvas. \<forall>k < 3. s' ! pix (W canvas) x y k =
       (if \<exists>c \<in> set (cells layout). frame (uint border) c (int x) (int y) then 0
        else s ! pix (W canvas) x y k))"
  by (rule draw_borders_spec [OF assms])

theorem draw_borders_exact_witness:
  "\<exists>s'. img_draw_borders (Some demo_canvas) (Some demo_layout) 1 (replicate 108 255) = Some (IMG_SUCCESS, s') \<and>
     length s' = length (replicate 108 (255 :: u8)) \<and>
     (\<forall>x < W demo_canvas. \<forall>y < H demo_canvas. \<forall>k < 3. s' ! pix (W demo_canvas) x y k =
        (if \<exists>c \<in> set (cells demo_layout). frame (uint (1 :: u32)) c (int x) (int y) then 0
         else replicate 108 255 ! pix (W demo_canvas) x y k))"
  by (rule draw_borders_exact) (simp_all add: demo_defs rgb_view_def small_cell_def)

end
