(* ===== verification/Crop_Marks.thy ===== *)
theory Crop_Marks
  imports Border
begin

text \<open>
  The crop-mark pass, \<open>pipeline/crop_marks.c\<close>: eight black lines per cell, at
  \<open>crop_offset_px\<close> from its corners, \<open>crop_mark_px\<close> long and \<open>crop_thickness\<close> thick.
\<close>

section \<open>Operations\<close>

definition set_px :: "img_buffer \<Rightarrow> int \<Rightarrow> int \<Rightarrow> u8 \<Rightarrow> u8 \<Rightarrow> u8 \<Rightarrow> bytes \<Rightarrow> bytes option" where
  "set_px c x y r g b s =
     (if x < 0 \<or> y < 0 \<or> word_of_int x \<ge> width c \<or> word_of_int y \<ge> height c then Some s
      else put_rgb (nat y * unat (stride c) + nat x * 3) r g b s)"

definition draw_h :: "img_buffer \<Rightarrow> int \<Rightarrow> int \<Rightarrow> int \<Rightarrow> u32 \<Rightarrow> u8 \<Rightarrow> u8 \<Rightarrow> u8 \<Rightarrow> bytes \<Rightarrow> bytes option" where
  "draw_h c x y len th r g b s =
     foreach [0..<unat th] (\<lambda>t s.
       foreach [0..len - 1] (\<lambda>i s. do {
         px \<leftarrow> i32 (x + i);
         py \<leftarrow> i32 (y + sint (of_nat t :: u32));
         set_px c px py r g b s }) s) s"

definition draw_v :: "img_buffer \<Rightarrow> int \<Rightarrow> int \<Rightarrow> int \<Rightarrow> u32 \<Rightarrow> u8 \<Rightarrow> u8 \<Rightarrow> u8 \<Rightarrow> bytes \<Rightarrow> bytes option" where
  "draw_v c x y len th r g b s =
     foreach [0..<unat th] (\<lambda>t s.
       foreach [0..len - 1] (\<lambda>i s. do {
         px \<leftarrow> i32 (x + sint (of_nat t :: u32));
         py \<leftarrow> i32 (y + i);
         set_px c px py r g b s }) s) s"

text \<open>The eight marks of one cell, in the order of the source.\<close>

definition draw_cell_marks :: "img_buffer \<Rightarrow> int \<Rightarrow> int \<Rightarrow> u32 \<Rightarrow> img_cell \<Rightarrow> bytes \<Rightarrow> bytes option" where
  "draw_cell_marks canvas off len th c s =
     (let x = sint (cell_x c); y = sint (cell_y c); t = sint th in
      do {
        x2 \<leftarrow> i32 (x + sint (cell_w c));
        y2 \<leftarrow> i32 (y + sint (cell_h c));
        xo \<leftarrow> i32 (x - off); xl \<leftarrow> i32 (xo - len);
        yo \<leftarrow> i32 (y - off); yt \<leftarrow> i32 (yo - t);
        s \<leftarrow> draw_h canvas xl yt len th 0 0 0 s;
        xt \<leftarrow> i32 (xo - t); yl \<leftarrow> i32 (yo - len);
        s \<leftarrow> draw_v canvas xt yl len th 0 0 0 s;
        x2o \<leftarrow> i32 (x2 + off);
        s \<leftarrow> draw_h canvas x2o yt len th 0 0 0 s;
        s \<leftarrow> draw_v canvas x2o yl len th 0 0 0 s;
        y2o \<leftarrow> i32 (y2 + off);
        s \<leftarrow> draw_h canvas xl y2o len th 0 0 0 s;
        s \<leftarrow> draw_v canvas xt y2o len th 0 0 0 s;
        s \<leftarrow> draw_h canvas x2o y2o len th 0 0 0 s;
        draw_v canvas x2o y2o len th 0 0 0 s })"

definition img_draw_crop_marks ::
  "img_buffer option \<Rightarrow> img_layout option \<Rightarrow> img_job \<Rightarrow> bytes \<Rightarrow> (img_result \<times> bytes) option" where
  "img_draw_crop_marks canvas layout job s =
     (case (canvas, layout) of
        (Some canvas, Some layout) \<Rightarrow>
          if crop_mark_px job = 0 then Some (IMG_SUCCESS, s)
          else let off = sint (crop_offset_px job); len = sint (crop_mark_px job);
                   th = (if crop_thickness job \<noteq> 0 then crop_thickness job else 1) in
          do {
            s \<leftarrow> foreach [0..<unat (count layout)] (\<lambda>i s.
              if i < length (cells layout) then draw_cell_marks canvas off len th (cells layout ! i) s
              else None) s;
            Some (IMG_SUCCESS, s) }
      | _ \<Rightarrow> Some (IMG_SUCCESS, s))"

section \<open>The effect of one line\<close>

lemma set_px_paints:
  assumes view: "rgb_view canvas (length s)" and x: "in_i32 x" and y: "in_i32 y"
  shows "paints (set_px canvas x y r g b) s (in_region canvas (\<lambda>px py. px = x \<and> py = y)) (rgb_at r g b)"
proof (cases "0 \<le> x \<and> 0 \<le> y")
  case True
  then have xy: "unat (word_of_int x :: u32) = nat x" "unat (word_of_int y :: u32) = nat y"
    using x y by (simp_all add: in_i32_def unsigned_of_int take_bit_int_eq_self)
  show ?thesis
  proof (cases "nat x < W canvas \<and> nat y < H canvas")
    case in_canvas: True
    then have "set_px canvas x y r g b = put_rgb (nat y * unat (stride canvas) + nat x * 3) r g b"
      using True xy by (auto simp: set_px_def fun_eq_iff word_le_nat_alt)
    then show ?thesis
      using paints_pixel [OF view, of "nat x" "nat y" r g b] in_canvas True by simp
  next
    case False
    then have "set_px canvas x y r g b = Some"
      using True xy by (auto simp: set_px_def fun_eq_iff word_le_nat_alt)
    moreover have "paints Some s (in_region canvas (\<lambda>px py. px = x \<and> py = y)) (rgb_at r g b)"
      using False by (intro paints_region_none) auto
    ultimately show ?thesis by simp
  qed
next
  case False
  then have "set_px canvas x y r g b = Some"
    by (auto simp: set_px_def fun_eq_iff)
  moreover have "paints Some s (in_region canvas (\<lambda>px py. px = x \<and> py = y)) (rgb_at r g b)"
    using False by (intro paints_region_none) auto
  ultimately show ?thesis by simp
qed

text \<open>Both line drawers are two nested loops over \<open>set_px\<close>.\<close>

lemma line_paints:
  assumes view: "rgb_view canvas (length s)"
    and ok: "\<And>t i. t < n \<Longrightarrow> 0 \<le> i \<Longrightarrow> i < len \<Longrightarrow> in_i32 (fx t i) \<and> in_i32 (fy t i)"
    and eq: "\<And>t i. t < n \<Longrightarrow> 0 \<le> i \<Longrightarrow> i < len \<Longrightarrow> body t i = set_px canvas (fx t i) (fy t i) r g b"
  shows "paints (foreach [0..<n] (\<lambda>t. foreach [0..len - 1] (body t))) s
    (in_region canvas (\<lambda>px py. \<exists>t \<in> {0..<n}. \<exists>i \<in> {0..len - 1}. px = fx t i \<and> py = fy t i)) (rgb_at r g b)"
proof -
  have *: "paints (foreach [0..len - 1] (body t)) s'
      (in_region canvas (\<lambda>px py. \<exists>i \<in> set [0..len - 1]. px = fx t i \<and> py = fy t i)) (rgb_at r g b)"
    if "length s' = length s" "t < n" for s' t
    using that ok [of t] eq [of t] view by (intro paints_region_foreach) (simp add: set_px_paints)
  have "paints (foreach [0..<n] (\<lambda>t. foreach [0..len - 1] (body t))) s
      (in_region canvas (\<lambda>px py. \<exists>t \<in> set [0..<n]. \<exists>i \<in> set [0..len - 1]. px = fx t i \<and> py = fy t i)) (rgb_at r g b)"
  proof (rule paints_region_foreach)
    fix t and s' :: bytes
    assume "t \<in> set [0..<n]" and "length s' = length s"
    then show "paints (foreach [0..len - 1] (body t)) s'
        (in_region canvas (\<lambda>px py. \<exists>i \<in> set [0..len - 1]. px = fx t i \<and> py = fy t i)) (rgb_at r g b)"
      using * by simp
  qed
  then show ?thesis by simp
qed

lemma sint_of_nat_small:
  assumes "t < unat (th :: u32)" and "uint th < 2 ^ 31"
  shows "sint (of_nat t :: u32) = int t"
proof -
  have t: "t < 2 ^ 31"
    using assms by (metis int_compare_uint(1) less_trans of_nat_less_numeral_power_cancel_iff)
  then have "unat (of_nat t :: u32) = t"
    by (intro unat_of_nat_small) simp
  with t show ?thesis
    using sint_small [of "of_nat t"] by (metis)
qed

lemma draw_h_paints:
  assumes view: "rgb_view canvas (length s)" and th: "uint th < 2 ^ 31"
    and x: "in_i32 x" "in_i32 (x + len)" and y: "in_i32 y" "in_i32 (y + uint th)"
  shows "paints (draw_h canvas x y len th r g b) s (in_region canvas (rect x y len (uint th))) (rgb_at r g b)"
proof -
  define body where "body t i s = do { px \<leftarrow> i32 (x + i); py \<leftarrow> i32 (y + sint (of_nat t :: u32));
      set_px canvas px py r g b s }" for t i s
  have ok: "in_i32 (x + i) \<and> in_i32 (y + int t)" if "t < unat th" "0 \<le> i" "i < len" for t i
    using that in_i32_between [OF x, of "x + i"] in_i32_between [OF y, of "y + int t"] by simp
  have eq: "body t i = set_px canvas (x + i) (y + int t) r g b" if "t < unat th" "0 \<le> i" "i < len" for t i
    using ok [OF that] sint_of_nat_small [OF that(1) th] by (simp add: body_def c_simps fun_eq_iff)
  note line_paints [of canvas s "unat th" len "\<lambda>t i. x + i" "\<lambda>t i. y + int t", OF view ok eq]
  then have "paints (foreach [0..<unat th] (\<lambda>t. foreach [0..len - 1] (body t))) s
      (in_region canvas (rect x y len (uint th))) (rgb_at r g b)"
  proof (rule paints_region_cong)
    fix px py
    show "(\<exists>t \<in> {0..<unat th}. \<exists>i \<in> {0..len - 1}. int px = x + i \<and> int py = y + int t) =
        rect x y len (uint th) (int px) (int py)"
      by (auto simp: rect_def intro!: bexI [of _ "nat (int py - y)"] bexI [of _ "int px - x"])
  qed
  then show ?thesis
    by (simp add: draw_h_def [abs_def] body_def [abs_def])
qed

lemma draw_v_paints:
  assumes view: "rgb_view canvas (length s)" and th: "uint th < 2 ^ 31"
    and x: "in_i32 x" "in_i32 (x + uint th)" and y: "in_i32 y" "in_i32 (y + len)"
  shows "paints (draw_v canvas x y len th r g b) s (in_region canvas (rect x y (uint th) len)) (rgb_at r g b)"
proof -
  define body where "body t i s = do { px \<leftarrow> i32 (x + sint (of_nat t :: u32)); py \<leftarrow> i32 (y + i);
      set_px canvas px py r g b s }" for t i s
  have ok: "in_i32 (x + int t) \<and> in_i32 (y + i)" if "t < unat th" "0 \<le> i" "i < len" for t i
    using that in_i32_between [OF y, of "y + i"] in_i32_between [OF x, of "x + int t"] by simp
  have eq: "body t i = set_px canvas (x + int t) (y + i) r g b" if "t < unat th" "0 \<le> i" "i < len" for t i
    using ok [OF that] sint_of_nat_small [OF that(1) th] by (simp add: body_def c_simps fun_eq_iff)
  note line_paints [of canvas s "unat th" len "\<lambda>t i. x + int t" "\<lambda>t i. y + i", OF view ok eq]
  then have "paints (foreach [0..<unat th] (\<lambda>t. foreach [0..len - 1] (body t))) s
      (in_region canvas (rect x y (uint th) len)) (rgb_at r g b)"
  proof (rule paints_region_cong)
    fix px py
    show "(\<exists>t \<in> {0..<unat th}. \<exists>i \<in> {0..len - 1}. int px = x + int t \<and> int py = y + i) =
        rect x y (uint th) len (int px) (int py)"
      by (auto simp: rect_def intro!: bexI [of _ "nat (int px - x)"] bexI [of _ "int py - y"])
  qed
  then show ?thesis
    by (simp add: draw_v_def [abs_def] body_def [abs_def])
qed

section \<open>The marks of a cell\<close>

definition marks :: "int \<Rightarrow> int \<Rightarrow> int \<Rightarrow> img_cell \<Rightarrow> region" where
  "marks off len th c px py \<longleftrightarrow>
     (let x = uint (cell_x c); y = uint (cell_y c); x2 = x + uint (cell_w c); y2 = y + uint (cell_h c);
          left = x - off - len \<le> px \<and> px < x - off; right = x2 + off \<le> px \<and> px < x2 + off + len;
          above = y - off - len \<le> py \<and> py < y - off; below = y2 + off \<le> py \<and> py < y2 + off + len in
      (left \<or> right) \<and> (y - off - th \<le> py \<and> py < y - off \<or> y2 + off \<le> py \<and> py < y2 + off + th) \<or>
      (above \<or> below) \<and> (x - off - th \<le> px \<and> px < x - off \<or> x2 + off \<le> px \<and> px < x2 + off + th))"

lemma draw_cell_marks_paints:
  assumes view: "rgb_view canvas (length s)" and small: "small_cell c"
    and off: "0 \<le> off" "off < 2 ^ 29" and len: "0 \<le> len" "len < 2 ^ 29" and th: "uint th < 2 ^ 29"
  shows "paints (draw_cell_marks canvas off len th c) s (in_region canvas (marks off len (uint th) c)) (\<lambda>_. 0)"
proof -
  define x y x2 y2 t where "x = uint (cell_x c)" and "y = uint (cell_y c)"
    and "x2 = x + uint (cell_w c)" and "y2 = y + uint (cell_h c)" and "t = uint th"
  have b: "0 \<le> x" "0 \<le> y" "x < 2 ^ 29" "y < 2 ^ 29" "0 \<le> x2" "0 \<le> y2" "x2 < 2 ^ 30" "y2 < 2 ^ 30" "0 \<le> t" "t < 2 ^ 29"
    using small th by (simp_all add: small_cell_def x_def y_def x2_def y2_def t_def)
  have ok: "in_i32 z" if "- (2 ^ 31) \<le> z" "z < 2 ^ 31" for z
    using that by (rule in_i32I)
  have h: "paints (draw_h canvas x' y' len th 0 0 0) s' (in_region canvas (rect x' y' len t)) (\<lambda>_. 0)"
    if "length s' = length s" "- (2 ^ 30) \<le> x'" "x' < 2 ^ 30 + 2 ^ 29" "- (2 ^ 30) \<le> y'" "y' < 2 ^ 30 + 2 ^ 29" for s' x' y'
    using draw_h_paints [of canvas s' th x' len y' 0 0 0, folded t_def] that view len b
    by (simp add: in_i32_def)
  have v: "paints (draw_v canvas x' y' len th 0 0 0) s' (in_region canvas (rect x' y' t len)) (\<lambda>_. 0)"
    if "length s' = length s" "- (2 ^ 30) \<le> x'" "x' < 2 ^ 30 + 2 ^ 29" "- (2 ^ 30) \<le> y'" "y' < 2 ^ 30 + 2 ^ 29" for s' x' y'
    using draw_v_paints [of canvas s' th x' y' len 0 0 0, folded t_def] that view len b
    by (simp add: in_i32_def)
  let ?steps = "\<lambda>s. Option.bind (draw_h canvas (x - off - len) (y - off - t) len th 0 0 0 s)
    (\<lambda>s. Option.bind (draw_v canvas (x - off - t) (y - off - len) len th 0 0 0 s)
    (\<lambda>s. Option.bind (draw_h canvas (x2 + off) (y - off - t) len th 0 0 0 s)
    (\<lambda>s. Option.bind (draw_v canvas (x2 + off) (y - off - len) len th 0 0 0 s)
    (\<lambda>s. Option.bind (draw_h canvas (x - off - len) (y2 + off) len th 0 0 0 s)
    (\<lambda>s. Option.bind (draw_v canvas (x - off - t) (y2 + off) len th 0 0 0 s)
    (\<lambda>s. Option.bind (draw_h canvas (x2 + off) (y2 + off) len th 0 0 0 s)
    (draw_v canvas (x2 + off) (y2 + off) len th 0 0 0)))))))"
  have "paints ?steps s (in_region canvas (\<lambda>px py.
      rect (x - off - len) (y - off - t) len t px py \<or> (rect (x - off - t) (y - off - len) t len px py \<or>
      (rect (x2 + off) (y - off - t) len t px py \<or> (rect (x2 + off) (y - off - len) t len px py \<or>
      (rect (x - off - len) (y2 + off) len t px py \<or> (rect (x - off - t) (y2 + off) t len px py \<or>
      (rect (x2 + off) (y2 + off) len t px py \<or> rect (x2 + off) (y2 + off) t len px py)))))))) (\<lambda>_. 0)"
    by (intro paints_region_seq h v) (use b off len in \<open>simp_all\<close>)
  then have "paints ?steps s (in_region canvas (marks off len (uint th) c)) (\<lambda>_. 0)"
    by (rule paints_region_cong)
       (auto simp: marks_def rect_def Let_def simp flip: x_def y_def x2_def y2_def t_def)
  moreover have "draw_cell_marks canvas off len th c = ?steps"
  proof -
    have "sint th = t" using th by (simp add: sint_uint_small t_def)
    moreover have "sint (cell_x c) = x" "sint (cell_y c) = y"
      "sint (cell_x c) + sint (cell_w c) = x2" "sint (cell_y c) + sint (cell_h c) = y2"
      using small_cell_sint [OF small] by (simp_all add: x_def y_def x2_def y2_def)
    moreover have "in_i32 x2" "in_i32 y2" "in_i32 (x - off)" "in_i32 (y - off)" "in_i32 (x - off - len)"
      "in_i32 (y - off - len)" "in_i32 (x - off - t)" "in_i32 (y - off - t)" "in_i32 (x2 + off)" "in_i32 (y2 + off)"
      using b off len by (auto intro!: ok)
    ultimately show ?thesis
      by (simp add: draw_cell_marks_def c_simps fun_eq_iff Let_def)
  qed
  ultimately show ?thesis by simp
qed

section \<open>Properties\<close>

text \<open>The parameters of the pass that keep its signed arithmetic in range.\<close>

definition small_marks :: "img_job \<Rightarrow> bool" where
  "small_marks job \<longleftrightarrow> uint (crop_offset_px job) < 2 ^ 29 \<and> uint (crop_mark_px job) < 2 ^ 29 \<and>
     uint (crop_thickness job) < 2 ^ 29"

definition thickness :: "img_job \<Rightarrow> int" where
  "thickness job = (if crop_thickness job = 0 then 1 else uint (crop_thickness job))"

definition crop_marks_of :: "img_job \<Rightarrow> img_cell \<Rightarrow> region" where
  "crop_marks_of job = marks (uint (crop_offset_px job)) (uint (crop_mark_px job)) (thickness job)"

lemma draw_crop_marks_paints:
  assumes view: "rgb_view canvas (length s)"
    and count: "length (cells layout) = unat (count layout)"
    and cells: "\<And>c. c \<in> set (cells layout) \<Longrightarrow> small_cell c"
    and small: "small_marks job"
  shows "\<exists>s'. img_draw_crop_marks (Some canvas) (Some layout) job s = Some (IMG_SUCCESS, s') \<and>
    length s' = length s \<and> (\<forall>i < length s. s' ! i =
      (if crop_mark_px job \<noteq> 0 \<and> in_region canvas (\<lambda>px py. \<exists>c \<in> set (cells layout). crop_marks_of job c px py) i
       then 0 else s ! i))"
proof (cases "crop_mark_px job = 0")
  case True
  then show ?thesis
    by (simp add: img_draw_crop_marks_def)
next
  case False
  define th where "th = (if crop_thickness job \<noteq> 0 then crop_thickness job else 1)"
  have th: "uint th = thickness job" "uint th < 2 ^ 29"
    using small by (simp_all add: th_def thickness_def small_marks_def)
  have off: "sint (crop_offset_px job) = uint (crop_offset_px job)"
    and len: "sint (crop_mark_px job) = uint (crop_mark_px job)"
    using small by (simp_all add: small_marks_def sint_uint_small)
  define body where "body = (\<lambda>i s. if i < length (cells layout)
      then draw_cell_marks canvas (sint (crop_offset_px job)) (sint (crop_mark_px job)) th (cells layout ! i) s
      else None)"
  have all: "set (map ((!) (cells layout)) [0..<unat (count layout)]) = set (cells layout)"
    using count by (metis map_nth)
  have "paints (foreach [0..<unat (count layout)] body) s
      (in_region canvas (\<lambda>px py. \<exists>i \<in> set [0..<unat (count layout)].
         crop_marks_of job (cells layout ! i) px py)) (\<lambda>_. 0)"
  proof (rule paints_region_foreach)
    fix i and s' :: bytes
    assume "i \<in> set [0..<unat (count layout)]" and l: "length s' = length s"
    then have i: "i < length (cells layout)" using count by simp
    with cells [of "cells layout ! i"] have
      "paints (draw_cell_marks canvas (uint (crop_offset_px job)) (uint (crop_mark_px job)) th (cells layout ! i)) s'
         (in_region canvas (marks (uint (crop_offset_px job)) (uint (crop_mark_px job)) (uint th) (cells layout ! i))) (\<lambda>_. 0)"
      using view l small th(2) by (intro draw_cell_marks_paints) (simp_all add: small_marks_def)
    then show "paints (body i) s' (in_region canvas (crop_marks_of job (cells layout ! i))) (\<lambda>_. 0)"
      using i off len th(1) by (simp add: body_def crop_marks_of_def)
  qed
  then obtain s' where s': "foreach [0..<unat (count layout)] body s = Some s'" "length s' = length s"
    and eq: "\<And>i. i < length s \<Longrightarrow> s' ! i = (if in_region canvas (\<lambda>px py. \<exists>i \<in> set [0..<unat (count layout)].
         crop_marks_of job (cells layout ! i) px py) i then 0 else s ! i)"
    by (auto simp: paints_def)
  have "img_draw_crop_marks (Some canvas) (Some layout) job s = Some (IMG_SUCCESS, s')"
    using False s' unfolding img_draw_crop_marks_def Let_def th_def [symmetric]
    by (simp add: body_def)
  with s'(2) eq False show ?thesis
    by (simp flip: all)
qed

text \<open>
  C18. The crop-mark pass paints black exactly the eight marks of every cell, clipped to the
  canvas, and changes no other byte.
\<close>

theorem draw_crop_marks_exact:
  assumes "rgb_view canvas (length s)" and "length (cells layout) = unat (count layout)"
    and "\<And>c. c \<in> set (cells layout) \<Longrightarrow> small_cell c" and "small_marks job" and "crop_mark_px job \<noteq> 0"
  shows "\<exists>s'. img_draw_crop_marks (Some canvas) (Some layout) job s = Some (IMG_SUCCESS, s') \<and>
    length s' = length s \<and>
    (\<forall>x < W canvas. \<forall>y < H canvas. \<forall>k < 3. s' ! pix (W canvas) x y k =
       (if \<exists>c \<in> set (cells layout). crop_marks_of job c (int x) (int y) then 0
        else s ! pix (W canvas) x y k))"
proof -
  obtain s' where s': "img_draw_crop_marks (Some canvas) (Some layout) job s = Some (IMG_SUCCESS, s')"
    and len: "length s' = length s"
    and eq: "\<And>i. i < length s \<Longrightarrow> s' ! i =
      (if crop_mark_px job \<noteq> 0 \<and> in_region canvas (\<lambda>px py. \<exists>c \<in> set (cells layout). crop_marks_of job c px py) i
       then 0 else s ! i)"
    using draw_crop_marks_paints [OF assms(1-4)] by blast
  have "s' ! pix (W canvas) x y k = (if \<exists>c \<in> set (cells layout). crop_marks_of job c (int x) (int y) then 0
        else s ! pix (W canvas) x y k)" if "x < W canvas" "y < H canvas" "k < 3" for x y k
  proof -
    have "pix (W canvas) x y k < length s"
      using pix_in_view [OF that] rgb_viewD(3) [OF assms(1)] by simp
    from eq [OF this] show ?thesis
      using that assms(5) by (simp add: in_region_pix)
  qed
  with s' len show ?thesis by blast
qed

theorem draw_crop_marks_exact_witness:
  "\<exists>s'. img_draw_crop_marks (Some demo_canvas) (Some demo_layout) img_job_defaults (replicate 108 255) =
       Some (IMG_SUCCESS, s') \<and>
     length s' = length (replicate 108 (255 :: u8)) \<and>
     (\<forall>x < W demo_canvas. \<forall>y < H demo_canvas. \<forall>k < 3. s' ! pix (W demo_canvas) x y k =
        (if \<exists>c \<in> set (cells demo_layout). crop_marks_of img_job_defaults c (int x) (int y) then 0
         else replicate 108 255 ! pix (W demo_canvas) x y k))"
  by (rule draw_crop_marks_exact)
     (simp_all add: demo_defs rgb_view_def small_cell_def small_marks_def img_job_defaults_def)

text \<open>
  Cells of a grid: along each axis two cells span the same interval or are at least \<open>g\<close>
  pixels apart.
\<close>

definition apart :: "int \<Rightarrow> img_cell \<Rightarrow> img_cell \<Rightarrow> bool" where
  "apart g c d \<longleftrightarrow>
     (cell_x c = cell_x d \<and> cell_w c = cell_w d \<or>
      uint (cell_x c) + uint (cell_w c) + g \<le> uint (cell_x d) \<or>
      uint (cell_x d) + uint (cell_w d) + g \<le> uint (cell_x c)) \<and>
     (cell_y c = cell_y d \<and> cell_h c = cell_h d \<or>
      uint (cell_y c) + uint (cell_h c) + g \<le> uint (cell_y d) \<or>
      uint (cell_y d) + uint (cell_h d) + g \<le> uint (cell_y c))"

definition cell_area :: "img_cell \<Rightarrow> region" where
  "cell_area c = rect (uint (cell_x c)) (uint (cell_y c)) (uint (cell_w c)) (uint (cell_h c))"

lemma marks_avoid_cell:
  assumes "apart g c d" and "0 \<le> off" and "0 < th" and "off + th \<le> g"
    and "marks off len th c px py"
  shows "\<not> cell_area d px py"
proof -
  define cx cy cw ch dx dy dw dh where "cx = uint (cell_x c)" and "cy = uint (cell_y c)"
    and "cw = uint (cell_w c)" and "ch = uint (cell_h c)" and "dx = uint (cell_x d)"
    and "dy = uint (cell_y d)" and "dw = uint (cell_w d)" and "dh = uint (cell_h d)"
  note defs = this
  have "0 \<le> cw" "0 \<le> ch" "0 \<le> dw" "0 \<le> dh"
    by (simp_all add: defs)
  moreover have x: "cx = dx \<and> cw = dw \<or> cx + cw + g \<le> dx \<or> dx + dw + g \<le> cx"
    and y: "cy = dy \<and> ch = dh \<or> cy + ch + g \<le> dy \<or> dy + dh + g \<le> cy"
    using assms(1) by (auto simp: apart_def defs)
  ultimately show ?thesis
    using assms(2-5) unfolding marks_def cell_area_def rect_def Let_def defs [symmetric]
    by (elim disjE conjE) linarith+
qed

lemma crop_marks_avoid:
  assumes "rgb_view canvas (length s)" and "length (cells layout) = unat (count layout)"
    and "\<And>c. c \<in> set (cells layout) \<Longrightarrow> small_cell c" and "small_marks job"
    and "\<And>c d. c \<in> set (cells layout) \<Longrightarrow> d \<in> set (cells layout) \<Longrightarrow> apart (uint (gap job)) c d"
    and "uint (crop_offset_px job) + thickness job \<le> uint (gap job)"
  shows "\<exists>s'. img_draw_crop_marks (Some canvas) (Some layout) job s = Some (IMG_SUCCESS, s') \<and>
    (\<forall>d \<in> set (cells layout). \<forall>x < W canvas. \<forall>y < H canvas. \<forall>k < 3. cell_area d (int x) (int y) \<longrightarrow>
       s' ! pix (W canvas) x y k = s ! pix (W canvas) x y k)"
proof -
  obtain s' where s': "img_draw_crop_marks (Some canvas) (Some layout) job s = Some (IMG_SUCCESS, s')"
    and eq: "\<And>i. i < length s \<Longrightarrow> s' ! i =
      (if crop_mark_px job \<noteq> 0 \<and> in_region canvas (\<lambda>px py. \<exists>c \<in> set (cells layout). crop_marks_of job c px py) i
       then 0 else s ! i)"
    using draw_crop_marks_paints [OF assms(1-4)] by blast
  have "0 < thickness job"
    by (auto simp: thickness_def word_neq_0_conv word_less_def)
  then have avoid: "\<not> crop_marks_of job c px py" if "c \<in> set (cells layout)" "d \<in> set (cells layout)"
    "cell_area d px py" for c d px py
    using marks_avoid_cell [OF assms(5) [OF that(1,2)] _ _ assms(6)] that(3) by (auto simp: crop_marks_of_def)
  have "s' ! pix (W canvas) x y k = s ! pix (W canvas) x y k"
    if "d \<in> set (cells layout)" "x < W canvas" "y < H canvas" "k < 3" "cell_area d (int x) (int y)" for d x y k
  proof -
    have "pix (W canvas) x y k < length s"
      using pix_in_view [OF that(2-4)] rgb_viewD(3) [OF assms(1)] by simp
    from eq [OF this] show ?thesis
      using that avoid by (auto simp: in_region_pix)
  qed
  with s' show ?thesis by blast
qed

text \<open>
  Crop marks never cover a photo: when the offset and the thickness of the marks fit in
  the gap between the cells, the pass leaves every pixel of every cell as it was.
\<close>

theorem crop_marks_avoid_photos:
  assumes "rgb_view canvas (length s)" and "length (cells layout) = unat (count layout)"
    and "\<And>c. c \<in> set (cells layout) \<Longrightarrow> small_cell c" and "small_marks job"
    and "\<And>c d. c \<in> set (cells layout) \<Longrightarrow> d \<in> set (cells layout) \<Longrightarrow> apart (uint (gap job)) c d"
    and "uint (crop_offset_px job) + thickness job \<le> uint (gap job)"
  shows "\<exists>s'. img_draw_crop_marks (Some canvas) (Some layout) job s = Some (IMG_SUCCESS, s') \<and>
    (\<forall>d \<in> set (cells layout). \<forall>x < W canvas. \<forall>y < H canvas. \<forall>k < 3. cell_area d (int x) (int y) \<longrightarrow>
       s' ! pix (W canvas) x y k = s ! pix (W canvas) x y k)"
  by (rule crop_marks_avoid [OF assms])

theorem crop_marks_avoid_photos_witness:
  "\<exists>s'. img_draw_crop_marks (Some demo_canvas) (Some demo_layout) img_job_defaults (replicate 108 255) =
       Some (IMG_SUCCESS, s') \<and>
     (\<forall>d \<in> set (cells demo_layout). \<forall>x < W demo_canvas. \<forall>y < H demo_canvas. \<forall>k < 3.
        cell_area d (int x) (int y) \<longrightarrow>
        s' ! pix (W demo_canvas) x y k = replicate 108 255 ! pix (W demo_canvas) x y k)"
  by (rule crop_marks_avoid_photos)
     (simp_all add: demo_defs rgb_view_def small_cell_def small_marks_def img_job_defaults_def
        apart_def thickness_def)

end
