(* ===== verification/Layout.thy ===== *)
theory Layout
  imports Canvas Blit Arena Crop_Marks
begin

text \<open>
  The grid layout of \<open>pipeline/layout.c\<close>: nearest-neighbour resizing into a slab block, the
  two ways to prepare a photo for its cell (cover and crop, or fit and letterbox) and the
  loop that blits it into every cell of the grid.
\<close>

section \<open>Resizing\<close>

text \<open>The source coordinate of a destination coordinate; the product wraps at 32 bits.\<close>

definition nearest :: "u32 \<Rightarrow> u32 \<Rightarrow> u32 \<Rightarrow> u32" where
  "nearest d n m = (let z = d * n div m in if z \<ge> n then n - 1 else z)"

definition copy_rgb :: "bytes \<Rightarrow> nat \<Rightarrow> nat \<Rightarrow> bytes \<Rightarrow> bytes option" where
  "copy_rgb src sp dp s = do {
     v \<leftarrow> load src sp; s \<leftarrow> store dp v s;
     v \<leftarrow> load src (sp + 1); s \<leftarrow> store (dp + 1) v s;
     v \<leftarrow> load src (sp + 2); store (dp + 2) v s }"

text \<open>The pixel loop; source and destination are different blocks.\<close>

definition resize_pixels :: "img_buffer \<Rightarrow> bytes \<Rightarrow> u32 \<Rightarrow> u32 \<Rightarrow> bytes \<Rightarrow> bytes option" where
  "resize_pixels src src_mem new_w new_h s =
     foreach [0..<unat new_h] (\<lambda>dy. foreach [0..<unat new_w] (\<lambda>dx s.
       let sx = nearest (of_nat dx) (width src) new_w;
           sy = nearest (of_nat dy) (height src) new_h in
       copy_rgb src_mem (unat (sy * stride src) + unat (sx * 3))
         (unat (of_nat dy * (new_w * 3)) + unat (of_nat dx * 3 :: u32)) s)) s"

definition resize_nearest ::
  "img_buffer \<Rightarrow> img_buffer \<Rightarrow> u32 \<Rightarrow> u32 \<Rightarrow> img_slab_pool option \<Rightarrow> heap \<Rightarrow>
   (img_result \<times> img_buffer \<times> img_slab_pool option \<times> heap) option" where
  "resize_nearest src dst new_w new_h pool h =
     (if new_w = 0 \<or> new_h = 0 then Some (IMG_ERR_FORMAT, dst, pool, h)
      else if rgb_size new_w new_h > img_slab_block_size pool then Some (IMG_ERR_NOMEM, dst, pool, h)
      else do {
        (mem, pool) \<leftarrow> img_slab_alloc pool h;
        if mem = NULL then Some (IMG_ERR_NOMEM, dst, pool, h)
        else do {
          m \<leftarrow> resize_pixels src (h (data src)) new_w new_h (h mem);
          Some (IMG_SUCCESS,
            \<lparr>data = mem, width = new_w, height = new_h, channels = 3, stride = new_w * 3\<rparr>,
            pool, h(mem := m)) } })"

section \<open>Preparing a photo\<close>

text \<open>The size a photo is scaled to so that it covers the cell, and so that it fits into it.\<close>

definition cover_size :: "img_buffer \<Rightarrow> u32 \<Rightarrow> u32 \<Rightarrow> (u32 \<times> u32) option" where
  "cover_size src cw chh = do {
     let sx = fdiv (f_of_u32 cw) (f_of_u32 (width src));
     let sy = fdiv (f_of_u32 chh) (f_of_u32 (height src));
     let s = (if flt sy sx then sx else sy);
     w \<leftarrow> u32_of_f (fmul (f_of_u32 (width src)) s);
     ht \<leftarrow> u32_of_f (fmul (f_of_u32 (height src)) s);
     Some (if w < cw then cw else w, if ht < chh then chh else ht) }"

definition fit_size :: "img_buffer \<Rightarrow> u32 \<Rightarrow> u32 \<Rightarrow> (u32 \<times> u32) option" where
  "fit_size src cw chh = do {
     let sx = fdiv (f_of_u32 cw) (f_of_u32 (width src));
     let sy = fdiv (f_of_u32 chh) (f_of_u32 (height src));
     let s = (if flt sx sy then sx else sy);
     w \<leftarrow> u32_of_f (fmul (f_of_u32 (width src)) s);
     ht \<leftarrow> u32_of_f (fmul (f_of_u32 (height src)) s);
     let w = (if w = 0 then 1 else w);
     let ht = (if ht = 0 then 1 else ht);
     Some (if w > cw then cw else w, if ht > chh then chh else ht) }"

definition prepare_fill ::
  "img_buffer \<Rightarrow> img_buffer \<Rightarrow> u32 \<Rightarrow> u32 \<Rightarrow> img_slab_pool option \<Rightarrow> heap \<Rightarrow>
   (img_result \<times> img_buffer \<times> img_slab_pool option \<times> heap) option" where
  "prepare_fill src dst cw chh pool h = do {
     (scaled_w, scaled_h) \<leftarrow> cover_size src cw chh;
     (r, tmp, pool, h) \<leftarrow> resize_nearest src empty_buffer scaled_w scaled_h pool h;
     if r \<noteq> IMG_SUCCESS then Some (r, dst, pool, h)
     else do {
       let cx = (scaled_w - cw) div 2;
       let cy = (scaled_h - chh) div 2;
       if rgb_size cw chh > img_slab_block_size pool then do {
         (pool, h) \<leftarrow> img_slab_free pool (data tmp) h;
         Some (IMG_ERR_NOMEM, dst, pool, h) }
       else do {
         (mem, pool) \<leftarrow> img_slab_alloc pool h;
         if mem = NULL then do {
           (pool, h) \<leftarrow> img_slab_free pool (data tmp) h;
           Some (IMG_ERR_NOMEM, dst, pool, h) }
         else do {
           m \<leftarrow> foreach [0..<unat chh] (\<lambda>dy.
             copy_bytes (h (data tmp)) (unat ((cy + of_nat dy) * stride tmp) + unat (cx * 3))
               (unat (of_nat dy * (cw * 3))) (unat (cw * 3))) (h mem);
           (pool, h) \<leftarrow> img_slab_free pool (data tmp) (h(mem := m));
           Some (IMG_SUCCESS,
             \<lparr>data = mem, width = cw, height = chh, channels = 3, stride = cw * 3\<rparr>, pool, h) } } } }"

definition prepare_fit ::
  "u8 \<Rightarrow> u8 \<Rightarrow> u8 \<Rightarrow> img_buffer \<Rightarrow> img_buffer \<Rightarrow> u32 \<Rightarrow> u32 \<Rightarrow> img_slab_pool option \<Rightarrow> heap \<Rightarrow>
   (img_result \<times> img_buffer \<times> img_slab_pool option \<times> heap) option" where
  "prepare_fit bgr bgg bgb src dst cw chh pool h = do {
     (fit_w, fit_h) \<leftarrow> fit_size src cw chh;
     if rgb_size cw chh > img_slab_block_size pool then Some (IMG_ERR_NOMEM, dst, pool, h)
     else do {
       (mem, pool) \<leftarrow> img_slab_alloc pool h;
       if mem = NULL then Some (IMG_ERR_NOMEM, dst, pool, h)
       else do {
         m \<leftarrow> fill_bg bgr bgg bgb (unat (rgb_size cw chh)) (h mem);
         let dst = \<lparr>data = mem, width = cw, height = chh, channels = 3, stride = cw * 3\<rparr>;
         (r, tmp, pool, h) \<leftarrow> resize_nearest src empty_buffer fit_w fit_h pool (h(mem := m));
         if r \<noteq> IMG_SUCCESS then do {
           (pool, h) \<leftarrow> img_slab_free pool mem h;
           Some (r, dst, pool, h) }
         else do {
           let off_x = (cw - fit_w) div 2;
           let off_y = (chh - fit_h) div 2;
           m \<leftarrow> foreach [0..<unat fit_h] (\<lambda>dy.
             copy_bytes (h (data tmp)) (unat (of_nat dy * stride tmp))
               (unat ((off_y + of_nat dy) * (cw * 3)) + unat (off_x * 3)) (unat (fit_w * 3))) (h mem);
           (pool, h) \<leftarrow> img_slab_free pool (data tmp) (h(mem := m));
           Some (IMG_SUCCESS, dst, pool, h) } } } }"

section \<open>The grid\<close>

text \<open>
  The cells array is fresh arena memory: \<open>cells ! i\<close> is \<^const>\<open>None\<close> until it is written,
  and reading such an entry later is undefined.
\<close>

definition sizeof_img_cell :: u64 where "sizeof_img_cell = 16"

definition place_cell ::
  "img_canvas \<Rightarrow> img_buffer \<Rightarrow> bytes \<Rightarrow> img_job \<Rightarrow> nat \<Rightarrow> nat \<Rightarrow>
   bytes \<times> img_cell option list \<Rightarrow> (bytes \<times> img_cell option list) option" where
  "place_cell canvas scaled scaled_mem job row col st =
     (case st of (s, cs) \<Rightarrow>
        let pw = photo_w_px canvas; ph = photo_h_px canvas;
            x = start_x canvas + of_nat col * (pw + gap job);
            y = start_y canvas + of_nat row * (ph + gap job) in
        if x + pw > width (buf canvas) then Some (s, cs)
        else if y + ph > height (buf canvas) then Some (s, cs)
        else do {
          s \<leftarrow> img_blit_avx2 (Some (buf canvas)) (Some scaled) scaled_mem x y s;
          let idx = unat (of_nat row * cols job + of_nat col);
          if idx < length cs
          then Some (s, cs[idx := Some \<lparr>cell_x = x, cell_y = y, cell_w = pw, cell_h = ph\<rparr>])
          else None })"

text \<open>
  \<open>prep\<close> is the preparation the job's mode selects. The arena holds the cells array only
  through its capacity: the array itself is the list of the result.
\<close>

definition layout_with ::
  "(img_buffer \<Rightarrow> img_buffer \<Rightarrow> u32 \<Rightarrow> u32 \<Rightarrow> img_slab_pool option \<Rightarrow> heap \<Rightarrow>
    (img_result \<times> img_buffer \<times> img_slab_pool option \<times> heap) option) \<Rightarrow>
   img_canvas \<Rightarrow> img_buffer \<Rightarrow> img_job \<Rightarrow> img_arena \<Rightarrow> img_slab_pool option \<Rightarrow> heap \<Rightarrow>
   (img_result \<times> img_cell option list option \<times> img_arena \<times> img_slab_pool option \<times> heap) option" where
  "layout_with prep canvas photo job arena pool h = do {
     (r, scaled, pool, h) \<leftarrow> prep photo empty_buffer (photo_w_px canvas) (photo_h_px canvas) pool h;
     if r \<noteq> IMG_SUCCESS then Some (r, None, arena, pool, h)
     else do {
       let n = cols job * rows job;
       let (p, arena') = img_arena_alloc (Some arena) (sizeof_img_cell * ucast n);
       let arena = (case arena' of Some a \<Rightarrow> a | None \<Rightarrow> arena);
       if p = NULL then do {
         (pool, h) \<leftarrow> img_slab_free pool (data scaled) h;
         Some (IMG_ERR_NOMEM, None, arena, pool, h) }
       else do {
         (s, cs) \<leftarrow> foreach [0..<unat (rows job)] (\<lambda>row.
           foreach [0..<unat (cols job)] (place_cell canvas scaled (h (data scaled)) job row))
           (h (data (buf canvas)), replicate (unat n) None);
         (pool, h) \<leftarrow> img_slab_free pool (data scaled) (h(data (buf canvas) := s));
         Some (IMG_SUCCESS, Some cs, arena, pool, h) } } }"

definition img_layout_grid ::
  "img_canvas option \<Rightarrow> img_buffer option \<Rightarrow> img_job option \<Rightarrow> bool \<Rightarrow> img_arena option \<Rightarrow> img_slab_pool option \<Rightarrow> heap \<Rightarrow>
   (img_result \<times> img_cell option list option \<times> img_arena option \<times> img_slab_pool option \<times> heap) option" where
  "img_layout_grid canvas photo job layout_given arena pool h =
     (case (canvas, photo, job, arena, pool) of
        (Some canvas, Some photo, Some job, Some arena, Some _) \<Rightarrow>
          if \<not> layout_given then Some (IMG_ERR_SECURITY, None, Some arena, pool, h)
          else do {
            (r, cs, arena, pool, h) \<leftarrow>
              layout_with
                (if scale_mode job = IMG_FIT then prepare_fit (bg_r job) (bg_g job) (bg_b job) else prepare_fill)
                canvas photo job arena pool h;
            Some (r, cs, Some arena, pool, h) }
      | _ \<Rightarrow> Some (IMG_ERR_SECURITY, None, arena, pool, h))"

section \<open>What resizing computes\<close>

abbreviation rgb_desc :: "ptr \<Rightarrow> u32 \<Rightarrow> u32 \<Rightarrow> img_buffer" where
  "rgb_desc mem w h \<equiv> \<lparr>data = mem, width = w, height = h, channels = 3, stride = w * 3\<rparr>"

lemma nearest_lt: "n \<noteq> 0 \<Longrightarrow> unat (nearest d n m) < unat n"
  by (auto simp: nearest_def Let_def word_le_nat_alt unat_minus_one unat_gt_0)

lemma nearest_exact:
  assumes "unat d * unat n < 2 ^ 32" and "unat d < unat m" and "n \<noteq> 0"
  shows "unat (nearest d n m) = unat d * unat n div unat m"
proof -
  have z: "unat (d * n div m) = unat d * unat n div unat m"
    using assms(1) by (simp add: unat_div unat_mult_small)
  have "unat d * unat n < unat m * unat n"
    using assms(2,3) by (simp add: unat_gt_0)
  then have "unat d * unat n div unat m < unat n"
    by (simp add: less_mult_imp_div_less mult.commute)
  then show ?thesis
    by (simp add: nearest_def Let_def word_le_nat_alt z)
qed

text \<open>The 32-bit offset of a pixel in an image of less than 4 gigabytes.\<close>

lemma unat_times3:
  fixes w :: u32
  assumes "3 * unat w * h < 2 ^ 32" and "0 < h"
  shows "unat (w * 3) = 3 * unat w" and "3 * unat w < 2 ^ 32"
proof -
  have "3 * unat w \<le> 3 * unat w * h"
    using assms(2) by (cases h) simp_all
  then show lt: "3 * unat w < 2 ^ 32" using assms(1) by (rule le_less_trans)
  then show "unat (w * 3) = 3 * unat w" using unat_mult_small [of w 3] by simp
qed

lemma pix_offset:
  fixes w x y :: u32
  assumes "3 * unat w * h < 2 ^ 32" and "unat y < h" and "unat x < unat w"
  shows "unat (y * (w * 3)) + unat (x * 3) = pix (unat w) (unat x) (unat y) 0"
proof -
  have "0 < h" using assms(2) by simp
  note w = unat_times3 [OF assms(1) this]
  have "unat (w * 3) = 3 * unat w" by (rule w(1))
  moreover have "unat (x * 3) = 3 * unat x" using w(2) assms(3) unat_mult_small [of x 3] by simp
  moreover have "unat y * (3 * unat w) < 2 ^ 32"
  proof -
    have "unat y * (3 * unat w) \<le> h * (3 * unat w)"
      using assms(2) by (intro mult_le_mono1) simp
    also have "\<dots> = 3 * unat w * h" by simp
    finally show ?thesis using assms(1) by (rule le_less_trans)
  qed
  ultimately show ?thesis
    using unat_mult_small [of y "w * 3"] by (simp add: pix_def mult.commute mult.left_commute)
qed

lemma copy_rgb_draws:
  assumes view: "rgb_view dst (length s)" and t: "on_canvas dst tx ty" and "sp + 2 < length src"
    and V: "\<And>k. k < 3 \<Longrightarrow> src ! (sp + k) = V tx ty k"
  shows "draws dst (copy_rgb src sp (nat ty * unat (stride dst) + nat tx * 3)) s (\<lambda>px py. px = tx \<and> py = ty) V"
proof -
  define d where "d = nat ty * unat (stride dst) + nat tx * 3"
  have "d + 2 < length s"
    using at_in_block [OF view t, of 2] rgb_viewD(2) [OF view] by (simp add: d_def pix_def mult.commute)
  then have "copy_rgb src sp d s = put_rgb d (V tx ty 0) (V tx ty 1) (V tx ty 2) s"
    using assms(3) V [of 0] V [of 1] V [of 2] by (simp add: copy_rgb_def put_rgb_def c_simps)
  then show ?thesis
    using put_rgb_draws [OF view t, of V] by (simp add: draws_def paints_def d_def)
qed

definition resized :: "img_buffer \<Rightarrow> bytes \<Rightarrow> u32 \<Rightarrow> u32 \<Rightarrow> int \<Rightarrow> int \<Rightarrow> nat \<Rightarrow> u8" where
  "resized src src_mem new_w new_h px py k =
     src_mem ! pix (W src) (unat (nearest (of_nat (nat px)) (width src) new_w))
                           (unat (nearest (of_nat (nat py)) (height src) new_h)) k"

lemma view_stride:
  assumes "rgb_view src n" "height src \<noteq> 0" "3 * W src * H src < 2 ^ 32"
  shows "stride src = width src * 3"
proof -
  have "0 < H src" using assms(2) by (simp add: unat_gt_0)
  then have "unat (stride src) = unat (width src * 3)"
    using rgb_viewD(2) [OF assms(1)] unat_times3(1) [OF assms(3)] by simp
  then show ?thesis by (simp only: word_unat_eq_iff)
qed

text \<open>The pixel loop in terms of pixel addresses, without the 32-bit arithmetic.\<close>

lemma resize_pixels_eq:
  assumes src: "rgb_view src n" "width src \<noteq> 0" "height src \<noteq> 0" "3 * W src * H src < 2 ^ 32"
    and dst: "3 * unat new_w * unat new_h < 2 ^ 32"
  shows "resize_pixels src src_mem new_w new_h s =
    foreach [0..<unat new_h] (\<lambda>dy. foreach [0..<unat new_w] (\<lambda>dx.
      copy_rgb src_mem (pix (W src) (unat (nearest (of_nat dx) (width src) new_w))
                                    (unat (nearest (of_nat dy) (height src) new_h)) 0)
        (pix (unat new_w) dx dy 0))) s"
  unfolding resize_pixels_def Let_def
proof (intro foreach_cong refl)
  fix dy dx s'
  assume "dy \<in> set [0..<unat new_h]" and "dx \<in> set [0..<unat new_w]"
  then have d: "dx < unat new_w" "dy < unat new_h" by simp_all
  then have u: "unat (of_nat dy :: u32) = dy" "unat (of_nat dx :: u32) = dx"
    using unat_lt_u32 [of new_w] unat_lt_u32 [of new_h] by (simp_all add: unat_of_nat_small)
  have "unat (of_nat dy * (new_w * 3)) + unat (of_nat dx * 3 :: u32) = pix (unat new_w) dx dy 0"
    using pix_offset [of new_w "unat new_h" "of_nat dy" "of_nat dx"] d dst unfolding u by blast
  moreover have "unat (nearest (of_nat dy) (height src) new_h * (width src * 3)) +
      unat (nearest (of_nat dx) (width src) new_w * 3) =
      pix (W src) (unat (nearest (of_nat dx) (width src) new_w)) (unat (nearest (of_nat dy) (height src) new_h)) 0"
    by (rule pix_offset [OF src(4)]) (rule nearest_lt; fact)+
  ultimately show "copy_rgb src_mem (unat (nearest (of_nat dy) (height src) new_h * stride src) +
        unat (nearest (of_nat dx) (width src) new_w * 3))
        (unat (of_nat dy * (new_w * 3)) + unat (of_nat dx * 3 :: u32)) s' =
      copy_rgb src_mem (pix (W src) (unat (nearest (of_nat dx) (width src) new_w))
        (unat (nearest (of_nat dy) (height src) new_h)) 0) (pix (unat new_w) dx dy 0) s'"
    unfolding view_stride [OF src(1,3,4)] by simp
qed

lemma resize_pixels_draws:
  assumes src: "rgb_view src (length src_mem)" "width src \<noteq> 0" "height src \<noteq> 0" "3 * W src * H src < 2 ^ 32"
    and D: "D = rgb_desc mem new_w new_h" "rgb_view D (length s)" "3 * unat new_w * unat new_h < 2 ^ 32"
  shows "draws D (resize_pixels src src_mem new_w new_h) s (\<lambda>_ _. True) (resized src src_mem new_w new_h)"
proof -
  define sx where "sx dx = unat (nearest (of_nat dx) (width src) new_w)" for dx
  define sy where "sy dy = unat (nearest (of_nat dy) (height src) new_h)" for dy
  define body where "body dy dx = copy_rgb src_mem (pix (W src) (sx dx) (sy dy) 0) (pix (unat new_w) dx dy 0)" for dy dx
  have px: "draws D (body dy dx) s' (\<lambda>px py. px = int dx \<and> py = int dy) (resized src src_mem new_w new_h)"
    if "length s' = length s" "dx < unat new_w" "dy < unat new_h" for s' dx dy
  proof -
    have sxy: "sx dx < W src" "sy dy < H src"
      using src(2,3) by (simp_all add: sx_def sy_def nearest_lt)
    have "draws D (copy_rgb src_mem (pix (W src) (sx dx) (sy dy) 0)
        (nat (int dy) * unat (stride D) + nat (int dx) * 3)) s' (\<lambda>px py. px = int dx \<and> py = int dy)
        (resized src src_mem new_w new_h)"
    proof (rule copy_rgb_draws)
      show "pix (W src) (sx dx) (sy dy) 0 + 2 < length src_mem"
        using pix_in_view [OF sxy, of 2] rgb_viewD(3) [OF src(1)] by (simp add: pix_def)
      show "src_mem ! (pix (W src) (sx dx) (sy dy) 0 + k) = resized src src_mem new_w new_h (int dx) (int dy) k" for k
        by (simp add: resized_def sx_def sy_def pix_def)
    qed (use that D in \<open>simp_all add: on_canvas_def\<close>)
    moreover have "nat (int dy) * unat (stride D) + nat (int dx) * 3 = pix (unat new_w) dx dy 0"
      using rgb_viewD(2) [OF D(2)] D(1) by (simp add: pix_def)
    ultimately show ?thesis by (simp only: body_def)
  qed
  have row: "draws D (foreach [0..<unat new_w] (body dy)) s' (\<lambda>px py. \<exists>dx \<in> set [0..<unat new_w]. px = int dx \<and> py = int dy)
      (resized src src_mem new_w new_h)" if "length s' = length s" "dy < unat new_h" for s' dy
    by (rule draws_foreach) (use that D(2) px in \<open>simp_all\<close>)
  have "draws D (foreach [0..<unat new_h] (\<lambda>dy. foreach [0..<unat new_w] (body dy))) s
      (\<lambda>px py. \<exists>dy \<in> set [0..<unat new_h]. \<exists>dx \<in> set [0..<unat new_w]. px = int dx \<and> py = int dy)
      (resized src src_mem new_w new_h)"
    by (rule draws_foreach [OF D(2)], rule row) simp_all
  then have "draws D (foreach [0..<unat new_h] (\<lambda>dy. foreach [0..<unat new_w] (body dy))) s (\<lambda>_ _. True)
      (resized src src_mem new_w new_h)"
  proof (rule draws_cong)
    fix px py assume "on_canvas D px py"
    then have "nat py \<in> set [0..<unat new_h]" "nat px \<in> set [0..<unat new_w]" "px = int (nat px)" "py = int (nat py)"
      by (simp_all add: on_canvas_def D(1))
    then show "(\<exists>dy \<in> set [0..<unat new_h]. \<exists>dx \<in> set [0..<unat new_w]. px = int dx \<and> py = int dy) = True"
      by blast
  qed
  moreover have "resize_pixels src src_mem new_w new_h = foreach [0..<unat new_h] (\<lambda>dy. foreach [0..<unat new_w] (body dy))"
    unfolding fun_eq_iff resize_pixels_eq [OF src D(3)] body_def [abs_def] sx_def sy_def by blast
  ultimately show ?thesis by simp
qed

text \<open>
  A photo in use: its block is not on the free list, and its pixels fit the block and 32-bit
  offsets. The limits on its sides are those of \<open>img_validate_dimensions\<close>-style checks upstream.
\<close>

definition photo_ok :: "heap \<Rightarrow> ptr list \<Rightarrow> img_buffer \<Rightarrow> bool" where
  "photo_ok h xs src \<longleftrightarrow> rgb_view src (length (h (data src))) \<and> data src \<notin> set xs \<and>
     1 \<le> W src \<and> W src \<le> 2 ^ 14 \<and> 1 \<le> H src \<and> H src \<le> 2 ^ 14"

lemma photo_okD:
  assumes "photo_ok h xs src"
  shows "rgb_view src (length (h (data src)))" "data src \<notin> set xs" "width src \<noteq> 0" "height src \<noteq> 0"
    "3 * W src * H src < 2 ^ 32"
proof -
  have "W src * H src \<le> 2 ^ 14 * 2 ^ 14"
    using assms by (intro mult_le_mono) (simp_all add: photo_ok_def)
  then show "3 * W src * H src < 2 ^ 32" by simp
qed (use assms in \<open>auto simp: photo_ok_def\<close>)

lemma photo_ok_frame:
  assumes "photo_ok h xs src" and "h' (data src) = h (data src)" and "data src \<notin> set xs'"
  shows "photo_ok h' xs' src"
  using assms by (simp add: photo_ok_def)

lemma resize_nearest_cases:
  assumes wf: "slab_wf h s xs" and src: "photo_ok h xs src" and blk: "unat (block_size s) < 2 ^ 32"
    and new: "0 < new_w" "unat new_w < 2 ^ 31" "0 < new_h" "unat new_h < 2 ^ 31"
  obtains
    (nomem) "resize_nearest src dst new_w new_h (Some s) h = Some (IMG_ERR_NOMEM, dst, Some s, h)"
      and "xs = [] \<or> unat (block_size s) < 3 * unat new_w * unat new_h"
  | (ok) mem xs' s' h' where "xs = mem # xs'"
      and "resize_nearest src dst new_w new_h (Some s) h = Some (IMG_SUCCESS, rgb_desc mem new_w new_h, Some s', h')"
      and "slab_wf h' s' xs'" and "blocks s' = blocks s" and "block_size s' = block_size s"
      and "mem \<in> blocks s" and "mem \<notin> set xs'" and "\<And>q. q \<noteq> mem \<Longrightarrow> h' q = h q" and "length (h' mem) = length (h mem)"
      and "3 * unat new_w * unat new_h < 2 ^ 32" and "rgb_view (rgb_desc mem new_w new_h) (length (h' mem))"
      and "\<And>px py k. on_canvas (rgb_desc mem new_w new_h) px py \<Longrightarrow> k < 3 \<Longrightarrow>
        px_at (rgb_desc mem new_w new_h) (h' mem) px py k = resized src (h (data src)) new_w new_h px py k"
proof -
  have sz: "unat (rgb_size new_w new_h) = 3 * unat new_w * unat new_h"
  proof -
    have "unat new_w * unat new_h < 2 ^ 31 * 2 ^ 31" using new by (intro mult_strict_mono) simp_all
    then have p: "unat new_w * unat new_h < 2 ^ 62" by simp
    then have "unat (ucast new_w * ucast new_h :: u64) = unat new_w * unat new_h"
      using unat_mult_small [of "ucast new_w :: u64" "ucast new_h"] by simp
    then show ?thesis
      using p unat_mult_small [of "ucast new_w * ucast new_h :: u64" 3] by (simp add: rgb_size_def)
  qed
  have nz: "new_w \<noteq> 0" "new_h \<noteq> 0" "0 < unat new_h" using new by (auto simp: unat_gt_0)
  show thesis
  proof (cases "rgb_size new_w new_h > block_size s \<or> xs = []")
    case True
    then have "resize_nearest src dst new_w new_h (Some s) h = Some (IMG_ERR_NOMEM, dst, Some s, h)"
      using nz wf by (auto simp: resize_nearest_def img_slab_block_size_def slab_alloc_Nil)
    moreover have "xs = [] \<or> unat (block_size s) < 3 * unat new_w * unat new_h"
      using True sz by (auto simp: word_less_nat_alt)
    ultimately show thesis by (rule nomem)
  next
    case False
    then obtain mem xs' where xs: "xs = mem # xs'" by (cases xs) auto
    obtain q where al: "img_slab_alloc (Some s) h = Some (mem, Some (s\<lparr>free_list := q\<rparr>))"
      and wf': "slab_wf h (s\<lparr>free_list := q\<rparr>) xs'" and mem: "mem \<noteq> NULL" "mem \<in> blocks s" "mem \<notin> set xs'"
      using slab_alloc_Cons [OF wf [unfolded xs]] by metis
    define D where "D = rgb_desc mem new_w new_h"
    have small: "3 * unat new_w * unat new_h \<le> unat (block_size s)"
      using False sz by (simp add: word_less_nat_alt not_less)
    then have lt: "3 * unat new_w * unat new_h < 2 ^ 32" using blk by (rule le_less_trans)
    have view: "rgb_view D (length (h mem))"
      using slab_wfD(6) [OF wf mem(2)] small unat_times3(1) [OF lt nz(3)]
      by (simp add: rgb_view_def D_def)
    note src' = photo_okD [OF src]
    obtain t where t: "resize_pixels src (h (data src)) new_w new_h (h mem) = Some t" "length t = length (h mem)"
      and tv: "\<And>px py k. on_canvas D px py \<Longrightarrow> k < 3 \<Longrightarrow> px_at D t px py k = resized src (h (data src)) new_w new_h px py k"
      using drawsD [OF resize_pixels_draws [OF src'(1,3,4,5) D_def view lt] view] by (metis (full_types))
    have "resize_nearest src dst new_w new_h (Some s) h = Some (IMG_SUCCESS, D, Some (s\<lparr>free_list := q\<rparr>), h(mem := t))"
      using False nz al mem(1) t(1) by (simp add: resize_nearest_def img_slab_block_size_def D_def)
    moreover have "slab_wf (h(mem := t)) (s\<lparr>free_list := q\<rparr>) xs'"
      using wf' mem(3) t(2) by (rule slab_client_write)
    ultimately show thesis
      using ok [of mem xs' "s\<lparr>free_list := q\<rparr>" "h(mem := t)"] xs mem t lt view tv
      unfolding D_def by simp
  qed
qed

section \<open>The scaled sizes\<close>

lemma quotient_small:
  assumes "1 \<le> unat n" and "unat m < 2 ^ 16"
  obtains q where "fdiv (f_of_u32 m) (f_of_u32 n) = Fin q" and "0 \<le> q" and "q \<le> 65538"
proof -
  have n: "n \<noteq> 0" using assms(1) by auto
  obtain a where a: "f_of_u32 n = Fin a" "of_nat (unat n) - of_nat (unat n) / 2 ^ 24 - 1 / 2 ^ 150 \<le> a"
    by (rule f_of_u32_approx)
  obtain b where b: "f_of_u32 m = Fin b" "0 \<le> b" "b \<le> of_nat (unat m) + of_nat (unat m) / 2 ^ 24 + 1 / 2 ^ 150"
    by (rule f_of_u32_approx)
  have "unat m \<le> 65535" using assms(2) by simp
  then have "rat_of_nat 1 \<le> rat_of_nat (unat n)" "rat_of_nat (unat m) \<le> rat_of_nat 65535"
    using assms by (simp_all only: of_nat_le_iff)
  then have a1: "65536 / 65537 \<le> a" and b1: "b \<le> 65536"
    using a(2) b(3) by simp_all
  have "b / a \<le> 65536 / (65536 / 65537)"
    using a1 b1 b(2) by (intro frac_le) simp_all
  then have "b / a \<le> 65537" by simp
  moreover obtain q where "fdiv (f_of_u32 m) (f_of_u32 n) = Fin q" "0 \<le> q" "q \<le> b / a + b / a / 2 ^ 24 + 1 / 2 ^ 150"
    using fdiv_u32_approx [OF n b(1) a(1)] by metis
  ultimately show thesis
    using that by simp
qed

lemma product_small:
  assumes "unat n \<le> 2 ^ 14" and "0 \<le> q" and "q \<le> 65538"
  obtains w where "u32_of_f (fmul (f_of_u32 n) (Fin q)) = Some w" and "unat w < 2 ^ 31"
proof -
  obtain a where a: "f_of_u32 n = Fin a" "0 \<le> a" "a \<le> of_nat (unat n) + of_nat (unat n) / 2 ^ 24 + 1 / 2 ^ 150"
    by (rule f_of_u32_approx)
  have "rat_of_nat (unat n) \<le> rat_of_nat (2 ^ 14)"
    using assms(1) by (simp only: of_nat_le_iff)
  then have "a \<le> 16385" using a(3) by simp
  then have aq: "a * q \<le> 16385 * 65538" using a(2) assms(2,3) by (intro mult_mono) simp_all
  then have "a * q \<le> 2 ^ 100" by simp
  moreover have "0 \<le> a * q" using a(2) assms(2) by simp
  ultimately obtain c where c: "fround (a * q) = Fin c" "0 \<le> c" "c \<le> a * q + a * q / 2 ^ 24 + 1 / 2 ^ 150"
    using fround_approx [of "a * q"] by metis
  have "c < 2 ^ 31" using c(3) aq by simp
  then have "nat \<lfloor>c\<rfloor> < 2 ^ 31" using c(2) by (simp add: nat_less_iff floor_less_iff)
  moreover have "u32_of_f (fmul (f_of_u32 n) (Fin q)) = Some (of_nat (nat \<lfloor>c\<rfloor>))"
    using a(1) c \<open>c < 2 ^ 31\<close> by simp
  ultimately show thesis
    using that by (simp add: unat_of_nat_small)
qed

lemma scaled_sizes:
  assumes "1 \<le> W src" "W src \<le> 2 ^ 14" "1 \<le> H src" "H src \<le> 2 ^ 14" and "unat cw < 2 ^ 16" "unat chh < 2 ^ 16"
    and s: "s = fdiv (f_of_u32 cw) (f_of_u32 (width src)) \<or> s = fdiv (f_of_u32 chh) (f_of_u32 (height src))"
  obtains w h where "u32_of_f (fmul (f_of_u32 (width src)) s) = Some w" and "unat w < 2 ^ 31"
    and "u32_of_f (fmul (f_of_u32 (height src)) s) = Some h" and "unat h < 2 ^ 31"
proof -
  obtain q where q: "s = Fin q" "0 \<le> q" "q \<le> 65538"
    using s quotient_small [OF assms(1,5)] quotient_small [OF assms(3,6)] by metis
  obtain w where "u32_of_f (fmul (f_of_u32 (width src)) s) = Some w" "unat w < 2 ^ 31"
    using product_small [OF assms(2) q(2,3)] q(1) by metis
  moreover obtain h where "u32_of_f (fmul (f_of_u32 (height src)) s) = Some h" "unat h < 2 ^ 31"
    using product_small [OF assms(4) q(2,3)] q(1) by metis
  ultimately show thesis using that by blast
qed

lemma cover_size_ok:
  assumes "1 \<le> W src" "W src \<le> 2 ^ 14" "1 \<le> H src" "H src \<le> 2 ^ 14" and "unat cw < 2 ^ 16" "unat chh < 2 ^ 16"
  obtains w h where "cover_size src cw chh = Some (w, h)" and "unat cw \<le> unat w" and "unat w < 2 ^ 31"
    and "unat chh \<le> unat h" and "unat h < 2 ^ 31"
proof -
  let ?sx = "fdiv (f_of_u32 cw) (f_of_u32 (width src))" and ?sy = "fdiv (f_of_u32 chh) (f_of_u32 (height src))"
  define s where "s = (if flt ?sy ?sx then ?sx else ?sy)"
  have "s = ?sx \<or> s = ?sy" by (simp add: s_def)
  then obtain w h where wh: "u32_of_f (fmul (f_of_u32 (width src)) s) = Some w" "unat w < 2 ^ 31"
    "u32_of_f (fmul (f_of_u32 (height src)) s) = Some h" "unat h < 2 ^ 31"
    using scaled_sizes [OF assms] by metis
  have "cover_size src cw chh = Some (if w < cw then cw else w, if h < chh then chh else h)"
    using wh by (simp add: cover_size_def Let_def flip: s_def)
  then show thesis
    using that [of "if w < cw then cw else w" "if h < chh then chh else h"] assms(5,6) wh
    by (auto simp: word_less_nat_alt)
qed

lemma fit_size_ok:
  assumes "1 \<le> W src" "W src \<le> 2 ^ 14" "1 \<le> H src" "H src \<le> 2 ^ 14" and "unat cw < 2 ^ 16" "unat chh < 2 ^ 16"
    and "0 < cw" "0 < chh"
  obtains w h where "fit_size src cw chh = Some (w, h)" and "0 < w" and "unat w \<le> unat cw"
    and "0 < h" and "unat h \<le> unat chh"
proof -
  let ?sx = "fdiv (f_of_u32 cw) (f_of_u32 (width src))" and ?sy = "fdiv (f_of_u32 chh) (f_of_u32 (height src))"
  define s where "s = (if flt ?sx ?sy then ?sx else ?sy)"
  have "s = ?sx \<or> s = ?sy" by (simp add: s_def)
  then obtain w h where wh: "u32_of_f (fmul (f_of_u32 (width src)) s) = Some w"
    "u32_of_f (fmul (f_of_u32 (height src)) s) = Some h"
    using scaled_sizes [OF assms(1-6)] by metis
  define w' h' where "w' = (if w = 0 then 1 else w)" and "h' = (if h = 0 then 1 else h)"
  have "fit_size src cw chh = Some (if w' > cw then cw else w', if h' > chh then chh else h')"
    using wh by (simp add: fit_size_def Let_def w'_def h'_def flip: s_def)
  moreover have "0 < w'" "0 < h'" by (simp_all add: w'_def h'_def word_neq_0_conv)
  ultimately show thesis
    using that [of "if w' > cw then cw else w'" "if h' > chh then chh else h'"] assms(7,8)
    by (auto simp: word_less_nat_alt)
qed

section \<open>The contract of a preparation\<close>

text \<open>
  Ownership of slab blocks: after an operation the free blocks are the same as before, or one
  of them now belongs to the result; blocks that were in use keep their contents.
\<close>

definition pool_kept :: "heap \<Rightarrow> img_slab_pool \<Rightarrow> ptr list \<Rightarrow> heap \<Rightarrow> img_slab_pool \<Rightarrow> ptr list \<Rightarrow> bool" where
  "pool_kept h s xs h' s' xs' \<longleftrightarrow> slab_wf h' s' xs' \<and> set xs' = set xs \<and>
     blocks s' = blocks s \<and> block_size s' = block_size s \<and> (\<forall>q. q \<notin> set xs \<longrightarrow> h' q = h q)"

definition pool_took :: "ptr \<Rightarrow> heap \<Rightarrow> img_slab_pool \<Rightarrow> ptr list \<Rightarrow> heap \<Rightarrow> img_slab_pool \<Rightarrow> ptr list \<Rightarrow> bool" where
  "pool_took mem h s xs h' s' xs' \<longleftrightarrow> slab_wf h' s' xs' \<and> mem \<notin> set xs' \<and> insert mem (set xs') = set xs \<and>
     mem \<in> blocks s \<and> mem \<noteq> NULL \<and>
     blocks s' = blocks s \<and> block_size s' = block_size s \<and> (\<forall>q. q \<notin> set xs \<longrightarrow> h' q = h q)"

lemma pool_took_free:
  assumes "pool_took mem h s xs h1 s1 xs1"
  obtains s2 h2 where "img_slab_free (Some s1) mem h1 = Some (Some s2, h2)"
    and "pool_kept h s xs h2 s2 (mem # xs1)" and "\<And>q. q \<noteq> mem \<Longrightarrow> h2 q = h1 q"
proof -
  have t: "slab_wf h1 s1 xs1" "mem \<notin> set xs1" "mem \<in> blocks s1" "insert mem (set xs1) = set xs"
    "blocks s1 = blocks s" "block_size s1 = block_size s" "\<And>q. q \<notin> set xs \<Longrightarrow> h1 q = h q"
    using assms by (simp_all add: pool_took_def)
  obtain h2 where h2: "img_slab_free (Some s1) mem h1 = Some (Some (s1\<lparr>free_list := mem\<rparr>), h2)"
    "slab_wf h2 (s1\<lparr>free_list := mem\<rparr>) (mem # xs1)" "\<And>q. q \<noteq> mem \<Longrightarrow> h2 q = h1 q"
    by (rule slab_free_wf [OF t(1,3,2)]) blast
  have "pool_kept h s xs h2 (s1\<lparr>free_list := mem\<rparr>) (mem # xs1)"
    unfolding pool_kept_def using h2 t by (auto, metis insertI1)
  with h2 that show thesis by blast
qed

locale photo_preparer =
  fixes room :: "img_buffer \<Rightarrow> u32 \<Rightarrow> u32 \<Rightarrow> nat"
    and prep :: "img_buffer \<Rightarrow> img_buffer \<Rightarrow> u32 \<Rightarrow> u32 \<Rightarrow> img_slab_pool option \<Rightarrow> heap \<Rightarrow>
      (img_result \<times> img_buffer \<times> img_slab_pool option \<times> heap) option"
    and content :: "img_buffer \<Rightarrow> bytes \<Rightarrow> u32 \<Rightarrow> u32 \<Rightarrow> int \<Rightarrow> int \<Rightarrow> nat \<Rightarrow> u8"
  assumes prep_spec: "slab_wf h s xs \<Longrightarrow> photo_ok h xs src \<Longrightarrow> unat (block_size s) < 2 ^ 32 \<Longrightarrow>
    0 < cw \<Longrightarrow> unat cw < 2 ^ 16 \<Longrightarrow> 0 < chh \<Longrightarrow> unat chh < 2 ^ 16 \<Longrightarrow>
    (\<exists>dst' s' h' xs'. prep src dst cw chh (Some s) h = Some (IMG_ERR_NOMEM, dst', Some s', h') \<and>
       (length xs < 2 \<or> unat (block_size s) < room src cw chh) \<and> pool_kept h s xs h' s' xs') \<or>
    (\<exists>mem s' h' xs'. prep src dst cw chh (Some s) h = Some (IMG_SUCCESS, rgb_desc mem cw chh, Some s', h') \<and>
       pool_took mem h s xs h' s' xs' \<and> rgb_view (rgb_desc mem cw chh) (length (h' mem)) \<and>
       (\<forall>px py k. on_canvas (rgb_desc mem cw chh) px py \<longrightarrow> k < 3 \<longrightarrow>
          px_at (rgb_desc mem cw chh) (h' mem) px py k = content src (h (data src)) cw chh px py k))"

section \<open>Cover and crop\<close>

definition fill_content :: "img_buffer \<Rightarrow> bytes \<Rightarrow> u32 \<Rightarrow> u32 \<Rightarrow> int \<Rightarrow> int \<Rightarrow> nat \<Rightarrow> u8" where
  "fill_content src m cw chh px py k =
     (case cover_size src cw chh of
        Some (sw, sh) \<Rightarrow> resized src m sw sh (px + uint ((sw - cw) div 2)) (py + uint ((sh - chh) div 2)) k
      | None \<Rightarrow> 0)"

lemma uint_sum_le: "unat a + unat b \<le> unat c \<Longrightarrow> uint a + uint b \<le> uint c"
  by (simp only: uint_nat of_nat_add [symmetric] of_nat_le_iff)

lemma half_gap:
  fixes a b :: u32
  assumes "unat b \<le> unat a"
  shows "unat ((a - b) div 2) = (unat a - unat b) div 2"
  using assms by (simp add: unat_div unat_sub_if')

text \<open>The row loop of the crop, on pixel addresses.\<close>

lemma crop_rows_draws:
  assumes D: "D = rgb_desc mem cw chh" "rgb_view D (length s)" "3 * unat cw * unat chh < 2 ^ 32" "0 < cw"
    and T: "T = rgb_desc tmp sw sh" "rgb_view T (length tmp_mem)" "3 * unat sw * unat sh < 2 ^ 32"
    and le: "unat cw \<le> unat sw" "unat chh \<le> unat sh"
    and cxy: "cx = (sw - cw) div 2" "cy = (sh - chh) div 2"
  shows "draws D (foreach [0..<unat chh] (\<lambda>dy.
      copy_bytes tmp_mem (unat ((cy + of_nat dy) * stride T) + unat (cx * 3))
        (unat (of_nat dy * (cw * 3))) (unat (cw * 3)))) s (\<lambda>_ _. True)
    (\<lambda>px py k. px_at T tmp_mem (px + uint cx) (py + uint cy) k)"
proof -
  let ?V = "\<lambda>px py k. px_at T tmp_mem (px + int (unat cx)) (py + int (unat cy)) k"
  have cx: "unat cx + unat cw \<le> unat sw" and cy: "unat cy + unat chh \<le> unat sh"
    using le by (simp_all add: cxy half_gap)
  have w0: "0 < unat cw" using D(4) by (simp add: word_less_nat_alt)
  have row: "draws D (copy_bytes tmp_mem (unat ((cy + of_nat dy) * stride T) + unat (cx * 3))
        (unat (of_nat dy * (cw * 3))) (unat (cw * 3))) s' (\<lambda>px py. int 0 \<le> px \<and> px < int (0 + unat cw) \<and> py = int dy) ?V"
    if dy: "dy < unat chh" and len: "length s' = length s" for dy s'
  proof -
    have u: "unat (of_nat dy :: u32) = dy" "unat (cy + of_nat dy) = unat cy + dy"
      using dy cy unat_lt_u32 [of sh] by (simp_all add: unat_of_nat_small unat_add_small)
    have "unat ((cy + of_nat dy) * stride T) + unat (cx * 3) = pix (unat sw) (unat cx) (unat cy + dy) 0"
      using pix_offset [of sw "unat sh" "cy + of_nat dy" cx] T(1,3) cx cy dy w0 unfolding u by simp
    moreover have "unat (of_nat dy * (cw * 3)) = pix (W D) 0 dy 0"
      using pix_offset [of cw "unat chh" "of_nat dy" 0] D(1,3) dy w0 unfolding u by simp
    moreover have "unat (cw * 3) = 3 * unat cw"
      using unat_times3(1) [OF D(3)] dy by simp
    moreover have "draws D (copy_bytes tmp_mem (pix (unat sw) (unat cx) (unat cy + dy) 0) (pix (W D) 0 dy 0) (3 * unat cw)) s'
        (\<lambda>px py. int 0 \<le> px \<and> px < int (0 + unat cw) \<and> py = int dy) ?V"
    proof (rule copy_span_draws [of _ _ _ "unat sh"])
      show "?V (int (0 + j)) (int dy) k = tmp_mem ! pix (unat sw) (unat cx + j) (unat cy + dy) k" for j k
        by (simp add: px_at_def T(1) nat_add_distrib add.commute)
    qed (use D len dy cx cy w0 rgb_viewD(3) [OF T(2)] T(1) in \<open>simp_all\<close>)
    ultimately show ?thesis by simp
  qed
  have "draws D (foreach [0..<unat chh] (\<lambda>dy.
      copy_bytes tmp_mem (unat ((cy + of_nat dy) * stride T) + unat (cx * 3))
        (unat (of_nat dy * (cw * 3))) (unat (cw * 3)))) s
      (\<lambda>px py. \<exists>dy \<in> set [0..<unat chh]. int 0 \<le> px \<and> px < int (0 + unat cw) \<and> py = int dy) ?V"
    by (rule draws_foreach [OF D(2)], rule row) simp_all
  then show ?thesis
    unfolding of_nat_unat
  proof (rule draws_cong)
    fix px py assume "on_canvas D px py"
    then have "nat py \<in> set [0..<unat chh]" "py = int (nat py)" "0 \<le> px" "px < int (unat cw)" "0 \<le> py"
      by (simp_all add: on_canvas_def D(1))
    then show "(\<exists>dy \<in> set [0..<unat chh]. int 0 \<le> px \<and> px < int (0 + unat cw) \<and> py = int dy) = True"
      by (intro eqTrueI bexI [of _ "nat py"]) simp_all
  qed
qed

lemma size_le_block:
  assumes "\<not> rgb_size cw chh > block_size s" and "unat cw < 2 ^ 30" "unat chh < 2 ^ 30"
  shows "3 * unat cw * unat chh \<le> unat (block_size s)"
  using assms unat_rgb_size [of cw chh] by (simp add: word_less_nat_alt not_less)

lemma desc_view:
  assumes "3 * unat cw * unat chh \<le> n" and "3 * unat cw * unat chh < 2 ^ 32" and "0 < chh"
  shows "rgb_view (rgb_desc mem cw chh) n"
  using assms unat_times3(1) [OF assms(2)] by (simp add: rgb_view_def word_less_nat_alt)

text \<open>Two blocks taken and one given back: the result keeps the other.\<close>

lemma pool_took_swap:
  assumes "slab_wf h s xs" and "slab_wf h1 s1 ys" and "blocks s1 = blocks s" "block_size s1 = block_size s"
    and xs: "set xs = {keep, gone} \<union> set ys" "keep \<noteq> gone" "keep \<notin> set ys" "gone \<notin> set ys"
    and frame: "\<And>q. q \<noteq> keep \<Longrightarrow> q \<noteq> gone \<Longrightarrow> h1 q = h q"
  obtains s2 h2 where "img_slab_free (Some s1) gone h1 = Some (Some s2, h2)"
    and "pool_took keep h s xs h2 s2 (gone # ys)" and "h2 keep = h1 keep"
proof -
  have d: "gone \<in> blocks s" "keep \<in> blocks s" "keep \<noteq> NULL"
    using slab_wfD(3,4) [OF assms(1)] xs(1) by auto
  obtain h2 where h2: "img_slab_free (Some s1) gone h1 = Some (Some (s1\<lparr>free_list := gone\<rparr>), h2)"
    "slab_wf h2 (s1\<lparr>free_list := gone\<rparr>) (gone # ys)" "\<And>q. q \<noteq> gone \<Longrightarrow> h2 q = h1 q"
    by (rule slab_free_wf [OF assms(2), of gone]) (use d assms(3) xs in auto)
  have "pool_took keep h s xs h2 (s1\<lparr>free_list := gone\<rparr>) (gone # ys)"
    unfolding pool_took_def using h2 d assms(3,4) xs frame by auto
  with h2 xs(2) that show thesis by metis
qed

text \<open>The bytes of the scaled photo, the larger of the two blocks that cropping needs.\<close>

definition fill_room :: "img_buffer \<Rightarrow> u32 \<Rightarrow> u32 \<Rightarrow> nat" where
  "fill_room src cw chh = (case cover_size src cw chh of Some (w, ht) \<Rightarrow> 3 * unat w * unat ht | None \<Rightarrow> 0)"

lemma prepare_fill_spec:
  assumes wf: "slab_wf h s xs" and src: "photo_ok h xs src" and blk: "unat (block_size s) < 2 ^ 32"
    and cell: "0 < cw" "unat cw < 2 ^ 16" "0 < chh" "unat chh < 2 ^ 16"
  shows "(\<exists>dst' s' h' xs'. prepare_fill src dst cw chh (Some s) h = Some (IMG_ERR_NOMEM, dst', Some s', h') \<and>
       (length xs < 2 \<or> unat (block_size s) < fill_room src cw chh) \<and> pool_kept h s xs h' s' xs') \<or>
    (\<exists>mem s' h' xs'. prepare_fill src dst cw chh (Some s) h = Some (IMG_SUCCESS, rgb_desc mem cw chh, Some s', h') \<and>
       pool_took mem h s xs h' s' xs' \<and> rgb_view (rgb_desc mem cw chh) (length (h' mem)) \<and>
       (\<forall>px py k. on_canvas (rgb_desc mem cw chh) px py \<longrightarrow> k < 3 \<longrightarrow>
          px_at (rgb_desc mem cw chh) (h' mem) px py k = fill_content src (h (data src)) cw chh px py k))"
    (is "?fail \<or> ?ok")
proof -
  obtain sw sh where cov: "cover_size src cw chh = Some (sw, sh)" "unat cw \<le> unat sw" "unat sw < 2 ^ 31"
    "unat chh \<le> unat sh" "unat sh < 2 ^ 31"
    using cover_size_ok [of src cw chh] src cell by (metis photo_ok_def)
  have pos: "0 < sw" "0 < sh" using cov cell by (simp_all add: word_less_nat_alt)
  have rm: "fill_room src cw chh = 3 * unat sw * unat sh" by (simp add: fill_room_def cov(1))
  have cell_le: "3 * unat cw * unat chh \<le> fill_room src cw chh"
    unfolding rm using cov(2,4) by (intro mult_le_mono) simp_all
  from wf src blk pos(1) cov(3) pos(2) cov(5) show ?thesis
  proof (cases rule: resize_nearest_cases [where dst = empty_buffer])
    case nomem
    moreover have "pool_kept h s xs h s xs" using wf by (simp add: pool_kept_def)
    ultimately show ?thesis using cov(1) rm by (auto simp: prepare_fill_def)
  next
    case (ok a xs1 s1 h1)
    define T where "T = rgb_desc a sw sh"
    have took: "pool_took a h s xs h1 s1 xs1"
      using ok slab_wfD(4) [OF wf] by (auto simp: pool_took_def)
    show ?thesis
    proof (cases "rgb_size cw chh > block_size s \<or> xs1 = []")
      case True
      obtain s2 h2 where "img_slab_free (Some s1) a h1 = Some (Some s2, h2)" "pool_kept h s xs h2 s2 (a # xs1)"
        using pool_took_free [OF took] by metis
      then have "prepare_fill src dst cw chh (Some s) h = Some (IMG_ERR_NOMEM, dst, Some s2, h2)"
        using True cov(1) ok(2,3,5) by (auto simp: prepare_fill_def img_slab_block_size_def slab_alloc_Nil)
      moreover have "length xs < 2 \<or> unat (block_size s) < fill_room src cw chh"
        using True ok(1) cell_le unat_rgb_size [of cw chh] cell by (auto simp: word_less_nat_alt)
      ultimately show ?thesis using \<open>pool_kept h s xs h2 s2 (a # xs1)\<close> by blast
    next
      case False
      then obtain b xs2 where xs1: "xs1 = b # xs2" by (cases xs1) auto
      obtain q where al: "img_slab_alloc (Some s1) h1 = Some (b, Some (s1\<lparr>free_list := q\<rparr>))"
        and wf2: "slab_wf h1 (s1\<lparr>free_list := q\<rparr>) xs2" and b: "b \<noteq> NULL" "b \<in> blocks s1" "b \<notin> set xs2"
        using slab_alloc_Cons [OF ok(3) [unfolded xs1]] by metis
      define D where "D = rgb_desc b cw chh"
      have le: "3 * unat cw * unat chh \<le> unat (block_size s)"
        using False cell by (intro size_le_block) auto
      have lt: "3 * unat cw * unat chh < 2 ^ 32" using le blk by (rule le_less_trans)
      have view: "rgb_view D (length (h1 b))"
        unfolding D_def using slab_wfD(6) [OF ok(3) b(2)] ok(5) le lt cell(3) by (intro desc_view) simp_all
      obtain t where t: "foreach [0..<unat chh] (\<lambda>dy.
          copy_bytes (h1 a) (unat (((sh - chh) div 2 + of_nat dy) * stride T) + unat ((sw - cw) div 2 * 3))
            (unat (of_nat dy * (cw * 3))) (unat (cw * 3))) (h1 b) = Some t" "length t = length (h1 b)"
        and tv: "\<And>px py k. on_canvas D px py \<Longrightarrow> k < 3 \<Longrightarrow> px_at D t px py k =
          px_at T (h1 a) (px + uint ((sw - cw) div 2)) (py + uint ((sh - chh) div 2)) k"
        using draws_exec [OF crop_rows_draws [OF D_def view lt cell(1) T_def ok(11) [folded T_def] ok(10) cov(2,4) refl refl] view, unfolded if_True]
        by blast
      have wf3: "slab_wf (h1(b := t)) (s1\<lparr>free_list := q\<rparr>) xs2"
        using wf2 b(3) t(2) by (rule slab_client_write)
      have xs: "xs = a # b # xs2" using ok(1) xs1 by simp
      obtain s2 h2 where fr: "img_slab_free (Some (s1\<lparr>free_list := q\<rparr>)) a (h1(b := t)) = Some (Some s2, h2)"
        and took2: "pool_took b h s xs h2 s2 (a # xs2)" and hb: "h2 b = t"
        by (rule pool_took_swap [OF wf wf3, of b a])
           (use ok(4,5,8) b(3) slab_wfD(2) [OF wf] in \<open>auto simp: xs\<close>)
      have "prepare_fill src dst cw chh (Some s) h = Some (IMG_SUCCESS, D, Some s2, h2)"
        using cov(1) ok(2,5) False al b(1) t(1) fr
        by (simp add: prepare_fill_def img_slab_block_size_def D_def T_def Let_def)
      moreover have "\<forall>px py k. on_canvas D px py \<longrightarrow> k < 3 \<longrightarrow>
          px_at D (h2 b) px py k = fill_content src (h (data src)) cw chh px py k"
      proof (intro allI impI)
        fix px py k assume on: "on_canvas D px py" and k: "k < (3 :: nat)"
        have "uint ((sw - cw) div 2) + uint cw \<le> uint sw" "uint ((sh - chh) div 2) + uint chh \<le> uint sh"
          using cov by (auto simp: half_gap intro!: uint_sum_le)
        then have "on_canvas T (px + uint ((sw - cw) div 2)) (py + uint ((sh - chh) div 2))"
          using on by (simp add: on_canvas_def T_def D_def)
        then show "px_at D (h2 b) px py k = fill_content src (h (data src)) cw chh px py k"
          using tv [OF on k] ok(12) [folded T_def] k by (simp add: hb fill_content_def cov(1))
      qed
      moreover have "rgb_view D (length (h2 b))" using view hb t(2) by simp
      ultimately have ?ok
        using took2 unfolding D_def by blast
      then show ?thesis ..
    qed
  qed
qed

interpretation fill: photo_preparer fill_room prepare_fill fill_content
  by unfold_locales (rule prepare_fill_spec)

section \<open>Fit and letterbox\<close>

definition fit_content ::
  "u8 \<Rightarrow> u8 \<Rightarrow> u8 \<Rightarrow> img_buffer \<Rightarrow> bytes \<Rightarrow> u32 \<Rightarrow> u32 \<Rightarrow> int \<Rightarrow> int \<Rightarrow> nat \<Rightarrow> u8" where
  "fit_content r g b src m cw chh px py k =
     (case fit_size src cw chh of
        Some (fw, fh) \<Rightarrow>
          let ox = uint ((cw - fw) div 2); oy = uint ((chh - fh) div 2) in
          if rect ox oy (uint fw) (uint fh) px py then resized src m fw fh (px - ox) (py - oy) k
          else rgb_at r g b k
      | None \<Rightarrow> 0)"

lemma letterbox_rows_draws:
  assumes D: "D = rgb_desc mem cw chh" "rgb_view D (length s)" "3 * unat cw * unat chh < 2 ^ 32"
    and T: "T = rgb_desc tmp fw fh" "rgb_view T (length tmp_mem)" "3 * unat fw * unat fh < 2 ^ 32" "0 < fw"
    and le: "unat fw \<le> unat cw" "unat fh \<le> unat chh"
    and oxy: "ox = (cw - fw) div 2" "oy = (chh - fh) div 2"
  shows "draws D (foreach [0..<unat fh] (\<lambda>dy.
      copy_bytes tmp_mem (unat (of_nat dy * stride T))
        (unat ((oy + of_nat dy) * (cw * 3)) + unat (ox * 3)) (unat (fw * 3)))) s
    (rect (uint ox) (uint oy) (uint fw) (uint fh)) (\<lambda>px py k. px_at T tmp_mem (px - uint ox) (py - uint oy) k)"
proof -
  let ?V = "\<lambda>px py k. px_at T tmp_mem (px - int (unat ox)) (py - int (unat oy)) k"
  have ox: "unat ox + unat fw \<le> unat cw" and oy: "unat oy + unat fh \<le> unat chh"
    using le by (simp_all add: oxy half_gap)
  have w0: "0 < unat fw" using T(4) by (simp add: word_less_nat_alt)
  have row: "draws D (copy_bytes tmp_mem (unat (of_nat dy * stride T))
        (unat ((oy + of_nat dy) * (cw * 3)) + unat (ox * 3)) (unat (fw * 3))) s'
        (\<lambda>px py. int (unat ox) \<le> px \<and> px < int (unat ox + unat fw) \<and> py = int (unat oy + dy)) ?V"
    if dy: "dy < unat fh" and len: "length s' = length s" for dy s'
  proof -
    have u: "unat (of_nat dy :: u32) = dy" "unat (oy + of_nat dy) = unat oy + dy"
      using dy oy unat_lt_u32 [of chh] by (simp_all add: unat_of_nat_small unat_add_small)
    have "unat (of_nat dy * stride T) = pix (unat fw) 0 dy 0"
      using pix_offset [of fw "unat fh" "of_nat dy" 0] T(1,3) dy w0 unfolding u by simp
    moreover have "unat ((oy + of_nat dy) * (cw * 3)) + unat (ox * 3) = pix (W D) (unat ox) (unat oy + dy) 0"
      using pix_offset [of cw "unat chh" "oy + of_nat dy" ox] D(1,3) ox oy dy w0 unfolding u by simp
    moreover have "unat (fw * 3) = 3 * unat fw"
      using unat_times3(1) [OF T(3)] dy by simp
    moreover have "draws D (copy_bytes tmp_mem (pix (unat fw) 0 dy 0) (pix (W D) (unat ox) (unat oy + dy) 0) (3 * unat fw)) s'
        (\<lambda>px py. int (unat ox) \<le> px \<and> px < int (unat ox + unat fw) \<and> py = int (unat oy + dy)) ?V"
    proof (rule copy_span_draws [of _ _ _ "unat fh"])
      show "?V (int (unat ox + j)) (int (unat oy + dy)) k = tmp_mem ! pix (unat fw) (0 + j) dy k" for j k
        by (simp add: px_at_def T(1))
    qed (use D len dy ox oy w0 rgb_viewD(3) [OF T(2)] T(1) in \<open>simp_all\<close>)
    ultimately show ?thesis by simp
  qed
  have "draws D (foreach [0..<unat fh] (\<lambda>dy.
      copy_bytes tmp_mem (unat (of_nat dy * stride T))
        (unat ((oy + of_nat dy) * (cw * 3)) + unat (ox * 3)) (unat (fw * 3)))) s
      (\<lambda>px py. \<exists>dy \<in> set [0..<unat fh]. int (unat ox) \<le> px \<and> px < int (unat ox + unat fw) \<and> py = int (unat oy + dy)) ?V"
    by (rule draws_foreach [OF D(2)], rule row) simp_all
  then show ?thesis
    unfolding of_nat_unat
  proof (rule draws_cong)
    fix px py
    show "(\<exists>dy \<in> set [0..<unat fh]. uint ox \<le> px \<and> px < int (unat ox + unat fw) \<and> py = int (unat oy + dy)) =
        rect (uint ox) (uint oy) (uint fw) (uint fh) px py"
      by (auto simp: rect_def intro!: bexI [of _ "nat (py - uint oy)"])
  qed
qed

text \<open>The background of the letterbox.\<close>

lemma fill_bg_exec:
  assumes D: "D = rgb_desc mem cw chh" and le: "3 * unat cw * unat chh \<le> length s"
  shows "\<exists>t. fill_bg r g b (3 * unat cw * unat chh) s = Some t \<and> length t = length s \<and>
    (\<forall>px py k. on_canvas D px py \<longrightarrow> k < 3 \<longrightarrow> px_at D t px py k = rgb_at r g b k)"
proof -
  have n: "3 * (unat cw * unat chh) \<le> length s" using le by (simp add: mult.assoc)
  obtain t where t: "fill_bg r g b (3 * (unat cw * unat chh)) s = Some t" "length t = length s"
    and tv: "\<And>i. i < length s \<Longrightarrow> t ! i = (if i < 3 * (unat cw * unat chh) then rgb_at r g b i else s ! i)"
    using fill_bg_paints [OF n, of r g b] by (auto simp: paints_def)
  have "px_at D t px py k = rgb_at r g b k" if on: "on_canvas D px py" and k: "k < 3" for px py k
  proof -
    have "pix (W D) (nat px) (nat py) k < 3 * W D * H D"
      by (rule pix_in_view [OF on_canvas_nat(1,2) [OF on] k])
    then have "px_at D t px py k = rgb_at r g b (pix (W D) (nat px) (nat py) k)"
      using tv n by (simp add: px_at_def D mult.assoc)
    then show ?thesis using pix_channel [OF k] k by (simp add: rgb_at_def)
  qed
  then show ?thesis using t by (simp add: mult.assoc)
qed

definition fit_room :: "img_buffer \<Rightarrow> u32 \<Rightarrow> u32 \<Rightarrow> nat" where
  "fit_room src cw chh = 3 * unat cw * unat chh"

lemma prepare_fit_spec:
  assumes wf: "slab_wf h s xs" and src: "photo_ok h xs src" and blk: "unat (block_size s) < 2 ^ 32"
    and cell: "0 < cw" "unat cw < 2 ^ 16" "0 < chh" "unat chh < 2 ^ 16"
  shows "(\<exists>dst' s' h' xs'. prepare_fit bgr bgg bgb src dst cw chh (Some s) h = Some (IMG_ERR_NOMEM, dst', Some s', h') \<and>
       (length xs < 2 \<or> unat (block_size s) < fit_room src cw chh) \<and> pool_kept h s xs h' s' xs') \<or>
    (\<exists>mem s' h' xs'. prepare_fit bgr bgg bgb src dst cw chh (Some s) h =
         Some (IMG_SUCCESS, rgb_desc mem cw chh, Some s', h') \<and>
       pool_took mem h s xs h' s' xs' \<and> rgb_view (rgb_desc mem cw chh) (length (h' mem)) \<and>
       (\<forall>px py k. on_canvas (rgb_desc mem cw chh) px py \<longrightarrow> k < 3 \<longrightarrow>
          px_at (rgb_desc mem cw chh) (h' mem) px py k = fit_content bgr bgg bgb src (h (data src)) cw chh px py k))"
    (is "?fail \<or> ?ok")
proof -
  obtain fw fh where fit: "fit_size src cw chh = Some (fw, fh)" "0 < fw" "unat fw \<le> unat cw" "0 < fh" "unat fh \<le> unat chh"
    using fit_size_ok [of src cw chh] src cell by (metis photo_ok_def)
  show ?thesis
  proof (cases "rgb_size cw chh > block_size s \<or> xs = []")
    case True
    moreover have "length xs < 2 \<or> unat (block_size s) < fit_room src cw chh"
      using True unat_rgb_size [of cw chh] cell by (auto simp: word_less_nat_alt fit_room_def)
    moreover have "pool_kept h s xs h s xs" using wf by (simp add: pool_kept_def)
    ultimately show ?thesis
      using fit(1) wf by (auto simp: prepare_fit_def img_slab_block_size_def slab_alloc_Nil)
  next
    case False
    then obtain a xs1 where xs: "xs = a # xs1" by (cases xs) auto
    obtain q where al: "img_slab_alloc (Some s) h = Some (a, Some (s\<lparr>free_list := q\<rparr>))"
      and wf1: "slab_wf h (s\<lparr>free_list := q\<rparr>) xs1" and a: "a \<noteq> NULL" "a \<in> blocks s" "a \<notin> set xs1"
      using slab_alloc_Cons [OF wf [unfolded xs]] by metis
    define D where "D = rgb_desc a cw chh"
    have le: "3 * unat cw * unat chh \<le> unat (block_size s)"
      using False cell by (intro size_le_block) auto
    have lt: "3 * unat cw * unat chh < 2 ^ 32" using le blk by (rule le_less_trans)
    have len: "length (h a) = unat (block_size s)" using slab_wfD(6) [OF wf a(2)] .
    obtain t where t: "fill_bg bgr bgg bgb (3 * unat cw * unat chh) (h a) = Some t" "length t = length (h a)"
      and tv: "\<forall>px py k. on_canvas D px py \<longrightarrow> k < 3 \<longrightarrow> px_at D t px py k = rgb_at bgr bgg bgb k"
      using fill_bg_exec [OF D_def, of "h a" bgr bgg bgb] le len by auto
    define h1 where "h1 = h(a := t)"
    have sz: "unat (rgb_size cw chh) = 3 * unat cw * unat chh"
      using cell by (intro unat_rgb_size) simp_all
    have wf2: "slab_wf h1 (s\<lparr>free_list := q\<rparr>) xs1"
      unfolding h1_def using wf1 a(3) t(2) by (rule slab_client_write)
    have src1: "photo_ok h1 xs1 src" and hsrc: "h1 (data src) = h (data src)"
      using src photo_okD(2) [OF src] xs by (auto simp: h1_def intro!: photo_ok_frame [OF src])
    have small: "unat fw < 2 ^ 31" "unat fh < 2 ^ 31" using fit cell by simp_all
    show ?thesis
    proof (cases rule: resize_nearest_cases [OF wf2 src1 _ fit(2) small(1) fit(4) small(2), of empty_buffer, case_names blk nomem ok])
      case blk
      then show ?case using assms(3) by simp
    next
      case nomem
      have "pool_took a h s xs h1 (s\<lparr>free_list := q\<rparr>) xs1"
        using wf2 a xs by (auto simp: pool_took_def h1_def)
      then obtain s2 h2 where "img_slab_free (Some (s\<lparr>free_list := q\<rparr>)) a h1 = Some (Some s2, h2)"
        "pool_kept h s xs h2 s2 (a # xs1)"
        using pool_took_free by metis
      moreover from this have "prepare_fit bgr bgg bgb src dst cw chh (Some s) h = Some (IMG_ERR_NOMEM, D, Some s2, h2)"
        using nomem(1) False fit(1) al a(1) t(1) sz
        by (simp add: prepare_fit_def img_slab_block_size_def h1_def D_def Let_def)
      moreover have "3 * unat fw * unat fh \<le> fit_room src cw chh"
        unfolding fit_room_def using fit(3,5) by (intro mult_le_mono) simp_all
      then have "length xs < 2 \<or> unat (block_size s) < fit_room src cw chh"
        using nomem(2) xs by auto
      ultimately show ?thesis by blast
    next
      case (ok b xs2 s2 h2)
      define T where "T = rgb_desc b fw fh"
      have ab: "a \<noteq> b" "h2 a = t" using ok(1,8) a(3) by (auto simp: h1_def)
      have view: "rgb_view D (length t)"
        unfolding D_def using t(2) len le lt cell(3) by (intro desc_view) simp_all
      obtain u where u: "foreach [0..<unat fh] (\<lambda>dy.
          copy_bytes (h2 b) (unat (of_nat dy * stride T))
            (unat (((chh - fh) div 2 + of_nat dy) * (cw * 3)) + unat ((cw - fw) div 2 * 3)) (unat (fw * 3))) t = Some u"
          "length u = length t"
        and uv: "\<forall>px py k. on_canvas D px py \<longrightarrow> k < 3 \<longrightarrow> px_at D u px py k =
          (if rect (uint ((cw - fw) div 2)) (uint ((chh - fh) div 2)) (uint fw) (uint fh) px py
           then px_at T (h2 b) (px - uint ((cw - fw) div 2)) (py - uint ((chh - fh) div 2)) k else px_at D t px py k)"
        using draws_exec [OF letterbox_rows_draws [OF D_def view lt T_def ok(11) [folded T_def] ok(10) fit(2,3,5) refl refl] view]
        by blast
      have wf3: "slab_wf (h2(a := u)) s2 xs2"
        using ok(3) by (rule slab_client_write) (use a(3) ok(1) ab(2) u(2) in auto)
      obtain s3 h3 where fr: "img_slab_free (Some s2) b (h2(a := u)) = Some (Some s3, h3)"
        and took: "pool_took a h s xs h3 s3 (b # xs2)" and ha: "h3 a = u"
        by (rule pool_took_swap [OF wf wf3, of a b])
           (use ok(1,4,5,7,8) a(3) ab in \<open>auto simp: xs h1_def\<close>)
      have "prepare_fit bgr bgg bgb src dst cw chh (Some s) h = Some (IMG_SUCCESS, D, Some s3, h3)"
        using fit(1) False al a(1) t(1) sz ok(2) u(1) fr ab(2)
        by (simp add: prepare_fit_def img_slab_block_size_def D_def T_def Let_def flip: h1_def)
      moreover have "\<forall>px py k. on_canvas D px py \<longrightarrow> k < 3 \<longrightarrow>
          px_at D (h3 a) px py k = fit_content bgr bgg bgb src (h (data src)) cw chh px py k"
      proof (intro allI impI)
        fix px py k assume on: "on_canvas D px py" and k: "k < (3 :: nat)"
        have "rect (uint ((cw - fw) div 2)) (uint ((chh - fh) div 2)) (uint fw) (uint fh) px py \<Longrightarrow>
            on_canvas T (px - uint ((cw - fw) div 2)) (py - uint ((chh - fh) div 2))"
          by (simp add: rect_def on_canvas_def T_def)
        then show "px_at D (h3 a) px py k = fit_content bgr bgg bgb src (h (data src)) cw chh px py k"
          using uv tv on k ok(12) [folded T_def] by (simp add: ha fit_content_def fit(1) hsrc Let_def)
      qed
      moreover have "rgb_view D (length (h3 a))" using view ha u(2) by simp
      ultimately have ?ok using took unfolding D_def by blast
      then show ?thesis ..
    qed
  qed
qed

interpretation fit: photo_preparer fit_room "prepare_fit r g b" "fit_content r g b" for r g b
  by unfold_locales (rule prepare_fit_spec)

end
