(* ===== verification/Bleed.thy ===== *)
theory Bleed
  imports Crop_Marks
begin

text \<open>
  The bleed pass, \<open>pipeline/bleed.c\<close>: the edge pixels of every cell are replicated
  outwards \<open>bleed_px\<close> pixels, first above and below, then left and right of every row.
\<close>

section \<open>Operations\<close>

text \<open>
  The offset of a pixel from \<open>canvas->data\<close>; a negative coordinate cast to \<open>size_t\<close> is
  an address outside every object.
\<close>

definition offs :: "img_buffer \<Rightarrow> int \<Rightarrow> int \<Rightarrow> nat option" where
  "offs canvas y x = (if y < 0 \<or> x < 0 then None else Some (nat y * unat (stride canvas) + nat x * 3))"

definition copy_px :: "nat \<Rightarrow> nat \<Rightarrow> bytes \<Rightarrow> bytes option" where
  "copy_px d p s = do {
     v \<leftarrow> load s p; s \<leftarrow> store d v s;
     v \<leftarrow> load s (p + 1); s \<leftarrow> store (d + 1) v s;
     v \<leftarrow> load s (p + 2); store (d + 2) v s }"

text \<open>The inner loop of the top and of the bottom part: row \<open>sy\<close> of the cell copied to row \<open>ty\<close>.\<close>

definition bleed_row :: "img_buffer \<Rightarrow> nat \<Rightarrow> int \<Rightarrow> int \<Rightarrow> int \<Rightarrow> int \<Rightarrow> bytes \<Rightarrow> bytes option" where
  "bleed_row canvas buf_end cx cw2 ty sy s = do {
     x1 \<leftarrow> i32 (cx + cw2);
     foreach [cx..x1 - 1] (\<lambda>x s.
       if x < 0 \<or> x \<ge> sint (width canvas) then Some s
       else do {
         d \<leftarrow> offs canvas ty x;
         p \<leftarrow> offs canvas sy x;
         if d + 3 > buf_end then Some s else copy_px d p s }) s }"

definition bleed_top :: "img_buffer \<Rightarrow> nat \<Rightarrow> int \<Rightarrow> int \<Rightarrow> int \<Rightarrow> int \<Rightarrow> bytes \<Rightarrow> bytes option" where
  "bleed_top canvas buf_end cx cy cw2 bp s =
     foreach_brk [1..bp] (\<lambda>b s. do {
       ty \<leftarrow> i32 (cy - b);
       if ty < 0 then Some (True, s)
       else do { s \<leftarrow> bleed_row canvas buf_end cx cw2 ty cy s; Some (False, s) } }) s"

definition bleed_bottom :: "img_buffer \<Rightarrow> nat \<Rightarrow> int \<Rightarrow> int \<Rightarrow> int \<Rightarrow> int \<Rightarrow> int \<Rightarrow> bytes \<Rightarrow> bytes option" where
  "bleed_bottom canvas buf_end cx cy cw2 ch2 bp s =
     foreach_brk [1..bp] (\<lambda>b s. do {
       ye \<leftarrow> i32 (cy + ch2);
       yl \<leftarrow> i32 (ye - 1);
       ty \<leftarrow> i32 (yl + b);
       if ty \<ge> sint (height canvas) then Some (True, s)
       else do { s \<leftarrow> bleed_row canvas buf_end cx cw2 ty yl s; Some (False, s) } }) s"

text \<open>
  The left and the right part of one row: the pixel at column \<open>sx\<close> is copied to the columns
  \<open>tx b\<close>, until one is off the canvas.
\<close>

definition bleed_side ::
  "img_buffer \<Rightarrow> nat \<Rightarrow> int \<Rightarrow> int \<Rightarrow> (int \<Rightarrow> int) \<Rightarrow> (int \<Rightarrow> bool) \<Rightarrow> int \<Rightarrow> bytes \<Rightarrow> bytes option" where
  "bleed_side canvas buf_end py sx tx off_canvas bp s =
     foreach_brk [1..bp] (\<lambda>b s. do {
       x \<leftarrow> i32 (tx b);
       if off_canvas x then Some (True, s)
       else do {
         d \<leftarrow> offs canvas py x;
         p \<leftarrow> offs canvas py sx;
         if d + 3 > buf_end then Some (True, s)
         else do { s \<leftarrow> copy_px d p s; Some (False, s) } } }) s"

definition bleed_sides :: "img_buffer \<Rightarrow> nat \<Rightarrow> int \<Rightarrow> int \<Rightarrow> int \<Rightarrow> int \<Rightarrow> bytes \<Rightarrow> bytes option" where
  "bleed_sides canvas buf_end cx cw2 bp py s = do {
     s \<leftarrow> (if cx \<ge> 0 \<and> cx < sint (width canvas)
           then bleed_side canvas buf_end py cx (\<lambda>b. cx - b) (\<lambda>x. x < 0) bp s else Some s);
     xe \<leftarrow> i32 (cx + cw2);
     rx \<leftarrow> i32 (xe - 1);
     (if rx \<ge> 0 \<and> rx < sint (width canvas)
      then bleed_side canvas buf_end py rx (\<lambda>b. rx + b) (\<lambda>x. x \<ge> sint (width canvas)) bp s else Some s) }"

definition bleed_cell :: "img_buffer \<Rightarrow> nat \<Rightarrow> int \<Rightarrow> img_cell \<Rightarrow> bytes \<Rightarrow> bytes option" where
  "bleed_cell canvas buf_end bp c s =
     (let cx = sint (cell_x c); cy = sint (cell_y c); cw2 = sint (cell_w c); ch2 = sint (cell_h c);
          cht = sint (height canvas) in
      do {
        s \<leftarrow> bleed_top canvas buf_end cx cy cw2 bp s;
        s \<leftarrow> bleed_bottom canvas buf_end cx cy cw2 ch2 bp s;
        t0 \<leftarrow> i32 (cy - bp);
        let ry0 = (if t0 < 0 then 0 else t0);
        ye \<leftarrow> i32 (cy + ch2);
        t1 \<leftarrow> i32 (ye + bp);
        let ry1 = (if t1 > cht then cht else t1);
        foreach [ry0..ry1 - 1] (bleed_sides canvas buf_end cx cw2 bp) s })"

definition img_apply_bleed :: "img_buffer option \<Rightarrow> img_layout option \<Rightarrow> u32 \<Rightarrow> bytes \<Rightarrow> (img_result \<times> bytes) option" where
  "img_apply_bleed canvas layout bleed s =
     (case (canvas, layout) of
        (Some canvas, Some layout) \<Rightarrow>
          if bleed = 0 then Some (IMG_SUCCESS, s)
          else do {
            buf_end \<leftarrow> offs canvas (sint (height canvas)) 0;
            s \<leftarrow> foreach [0..<unat (count layout)] (\<lambda>i s.
              if i < length (cells layout) then bleed_cell canvas buf_end (sint bleed) (cells layout ! i) s
              else None) s;
            Some (IMG_SUCCESS, s) }
      | _ \<Rightarrow> Some (IMG_SUCCESS, s))"

section \<open>Copying one pixel\<close>

lemma copy_px_draws:
  assumes view: "rgb_view canvas (length s)"
    and t: "on_canvas canvas tx ty" and p: "on_canvas canvas sx sy" and "(tx, ty) \<noteq> (sx, sy)"
    and V: "\<And>k. k < 3 \<Longrightarrow> px_at canvas s sx sy k = V tx ty k"
  shows "draws canvas (copy_px (nat ty * unat (stride canvas) + nat tx * 3)
      (nat sy * unat (stride canvas) + nat sx * 3)) s (\<lambda>px py. px = tx \<and> py = ty) V"
proof -
  define d q where "d = pix (W canvas) (nat tx) (nat ty) 0" and "q = pix (W canvas) (nat sx) (nat sy) 0"
  have dq: "nat ty * unat (stride canvas) + nat tx * 3 = d" "nat sy * unat (stride canvas) + nat sx * 3 = q"
    using rgb_viewD(2) [OF view] by (simp_all add: d_def q_def pix_def)
  have dk: "d + k = pix (W canvas) (nat tx) (nat ty) k" and qk: "q + k = pix (W canvas) (nat sx) (nat sy) k" for k
    by (simp_all add: d_def q_def pix_def)
  have in_block: "d + k < length s" "q + k < length s" if "k < 3" for k
    using at_in_block [OF view t that] at_in_block [OF view p that] by (simp_all add: dk qk)
  have neq: "d + j \<noteq> q + k" if "j < 3" "k < 3" for j k
    using assms(4) on_canvas_nat [OF t] on_canvas_nat [OF p] that unfolding dk qk
    by (metis pix_inject)
  have V': "s ! (q + k) = V tx ty k" if "k < 3" for k
    using V [OF that] by (simp add: px_at_def qk)
  have "copy_px d q s = put_rgb d (V tx ty 0) (V tx ty 1) (V tx ty 2) s"
    using in_block [of 0] in_block [of 1] in_block [of 2] neq [of 0 1] neq [of 0 2] neq [of 1 2]
      V' [of 0] V' [of 1] V' [of 2]
    by (simp add: copy_px_def put_rgb_def c_simps)
  then show ?thesis
    using put_rgb_draws [OF view t, of V] unfolding dq by (simp add: draws_def paints_def)
qed

section \<open>The effect on one cell\<close>

lemma end_of_row:
  assumes "rgb_view canvas n" and "on_canvas canvas px py"
  shows "nat py * unat (stride canvas) + nat px * 3 + 3 \<le> 3 * W canvas * H canvas"
  using pix_in_view [OF on_canvas_nat(1,2) [OF assms(2)], of 2] rgb_viewD(2) [OF assms(1)]
  by (simp add: pix_def mult.commute [of "nat py"])

lemma bleed_row_draws:
  assumes view: "rgb_view canvas (length s)" and "uint (width canvas) < 2 ^ 29" and cx: "0 \<le> cx" "0 \<le> cw2" "cx + cw2 \<le> int (W canvas)"
    and ty: "0 \<le> ty" "ty < int (H canvas)" and sy: "0 \<le> sy" "sy < int (H canvas)" and "ty \<noteq> sy"
    and V: "\<And>x k. cx \<le> x \<Longrightarrow> x < cx + cw2 \<Longrightarrow> k < 3 \<Longrightarrow> px_at canvas s x sy k = V x ty k"
  shows "draws canvas (bleed_row canvas (3 * W canvas * H canvas) cx cw2 ty sy) s
    (\<lambda>px py. cx \<le> px \<and> px < cx + cw2 \<and> py = ty) V"
proof -
  define step where "step x = copy_px (nat ty * unat (stride canvas) + nat x * 3)
      (nat sy * unat (stride canvas) + nat x * 3)" for x
  have W: "sint (width canvas) = uint (width canvas)"
    using assms(2) by (intro sint_uint_small) simp
  have on: "on_canvas canvas x ty" "on_canvas canvas x sy" if "x \<in> set [cx..cx + cw2 - 1]" for x
    using that cx ty sy by (simp_all add: on_canvas_def)
  have "draws canvas (foreach [cx..cx + cw2 - 1] step) s
      (\<lambda>px py. \<exists>x \<in> set [cx..cx + cw2 - 1]. px = x \<and> py = ty) V"
  proof (rule draws_foreach [OF view])
    fix x s'
    assume x: "x \<in> set [cx..cx + cw2 - 1]" and len: "length s' = length s"
      and un: "\<And>px py k. on_canvas canvas px py \<Longrightarrow> k < 3 \<Longrightarrow>
        \<not> (\<exists>x \<in> set [cx..cx + cw2 - 1]. px = x \<and> py = ty) \<Longrightarrow> px_at canvas s' px py k = px_at canvas s px py k"
    have "px_at canvas s' x sy k = V x ty k" if "k < 3" for k
      using un [OF on(2) [OF x] that] V [of x k] x that \<open>ty \<noteq> sy\<close> by simp
    then show "draws canvas (step x) s' (\<lambda>px py. px = x \<and> py = ty) V"
      unfolding step_def using view len on [OF x] \<open>ty \<noteq> sy\<close> by (intro copy_px_draws) simp_all
  qed
  then have "draws canvas (foreach [cx..cx + cw2 - 1] step) s (\<lambda>px py. cx \<le> px \<and> px < cx + cw2 \<and> py = ty) V"
    by (rule draws_cong) auto
  moreover have "bleed_row canvas (3 * W canvas * H canvas) cx cw2 ty sy = foreach [cx..cx + cw2 - 1] step"
  proof -
    have i: "in_i32 (cx + cw2)"
      using assms(2) cx by (simp add: in_i32_def)
    have "(if x < 0 \<or> x \<ge> sint (width canvas) then Some s'
           else do { d \<leftarrow> offs canvas ty x; p \<leftarrow> offs canvas sy x;
             if d + 3 > 3 * W canvas * H canvas then Some s' else copy_px d p s' }) = step x s'"
      if "x \<in> set [cx..cx + cw2 - 1]" for x s'
      using that W cx ty sy end_of_row [OF view on(1) [OF that]]
      by (simp add: offs_def step_def)
    then show ?thesis
      unfolding bleed_row_def fun_eq_iff i32_Some [OF i] by (auto intro!: foreach_cong)
  qed
  ultimately show ?thesis by simp
qed

definition fits :: "img_buffer \<Rightarrow> int \<Rightarrow> int \<Rightarrow> int \<Rightarrow> int \<Rightarrow> bool" where
  "fits canvas x y w h \<longleftrightarrow> 0 \<le> x \<and> 0 \<le> y \<and> 0 < w \<and> 0 < h \<and>
     x + w \<le> uint (width canvas) \<and> y + h \<le> uint (height canvas) \<and>
     uint (width canvas) < 2 ^ 29 \<and> uint (height canvas) < 2 ^ 29"

lemma fitsD:
  assumes "fits canvas x y w h"
  shows "0 \<le> x" "0 \<le> y" "0 < w" "0 < h" "x + w \<le> uint (width canvas)" "y + h \<le> uint (height canvas)"
    "uint (width canvas) < 2 ^ 29" "uint (height canvas) < 2 ^ 29"
    "sint (width canvas) = uint (width canvas)" "sint (height canvas) = uint (height canvas)"
  using assms by (simp_all add: fits_def sint_uint_small)

text \<open>The pixel of the cell nearest to \<open>(px, py)\<close>: what the bleed of that position shows.\<close>

definition clamp :: "int \<Rightarrow> int \<Rightarrow> int \<Rightarrow> int" where
  "clamp lo hi z = max lo (min hi z)"

definition edge :: "(int \<Rightarrow> int \<Rightarrow> nat \<Rightarrow> u8) \<Rightarrow> int \<Rightarrow> int \<Rightarrow> int \<Rightarrow> int \<Rightarrow> int \<Rightarrow> int \<Rightarrow> nat \<Rightarrow> u8" where
  "edge E x y w h px py k = E (clamp x (x + w - 1) px) (clamp y (y + h - 1) py) k"

lemma bleed_top_draws:
  assumes view: "rgb_view canvas (length s)" and fits: "fits canvas x y w h" and bp: "bp < 2 ^ 29"
    and E: "\<And>px py k. rect x y w h px py \<Longrightarrow> k < 3 \<Longrightarrow> px_at canvas s px py k = E px py k"
  shows "draws canvas (bleed_top canvas (3 * W canvas * H canvas) x y w bp) s
    (\<lambda>px py. x \<le> px \<and> px < x + w \<and> y - bp \<le> py \<and> py < y) (edge E x y w h)"
proof -
  note f = fitsD [OF fits]
  define bs where "bs = takeWhile (\<lambda>b. \<not> y - b < 0) [1..bp]"
  define step where "step b = bleed_row canvas (3 * W canvas * H canvas) x w (y - b) y" for b
  have bs: "set bs = {b. 1 \<le> b \<and> b \<le> bp \<and> b \<le> y}"
    unfolding bs_def by (subst set_takeWhile_upto) auto
  have "draws canvas (foreach bs step) s
      (\<lambda>px py. \<exists>b \<in> set bs. x \<le> px \<and> px < x + w \<and> py = y - b) (edge E x y w h)"
  proof (rule draws_foreach [OF view])
    fix b s'
    assume b: "b \<in> set bs" and len: "length s' = length s"
      and un: "\<And>px py k. on_canvas canvas px py \<Longrightarrow> k < 3 \<Longrightarrow>
        \<not> (\<exists>b \<in> set bs. x \<le> px \<and> px < x + w \<and> py = y - b) \<Longrightarrow> px_at canvas s' px py k = px_at canvas s px py k"
    have "px_at canvas s' z y k = edge E x y w h z (y - b) k" if "x \<le> z" "z < x + w" "k < 3" for z k
      using un [of z y k] E [of z y k] that f b
      by (simp add: bs on_canvas_def rect_def edge_def clamp_def)
    then show "draws canvas (step b) s' (\<lambda>px py. x \<le> px \<and> px < x + w \<and> py = y - b) (edge E x y w h)"
      unfolding step_def using view len f b by (intro bleed_row_draws) (simp_all add: bs)
  qed
  then have "draws canvas (foreach bs step) s
      (\<lambda>px py. x \<le> px \<and> px < x + w \<and> y - bp \<le> py \<and> py < y) (edge E x y w h)"
  proof (rule draws_cong)
    fix px py assume "on_canvas canvas px py"
    then show "(\<exists>b \<in> set bs. x \<le> px \<and> px < x + w \<and> py = y - b) =
        (x \<le> px \<and> px < x + w \<and> y - bp \<le> py \<and> py < y)"
      by (auto simp: bs on_canvas_def intro!: exI [of _ "y - py"])
  qed
  moreover have "bleed_top canvas (3 * W canvas * H canvas) x y w bp = foreach bs step"
    unfolding bs_def bleed_top_def fun_eq_iff
  proof (intro allI foreach_brk_takeWhile)
    fix b s' assume "b \<in> set [1..bp]"
    then have "in_i32 (y - b)" using f bp by (simp add: in_i32_def)
    then show "(do { ty \<leftarrow> i32 (y - b); if ty < 0 then Some (True, s')
        else do { s \<leftarrow> bleed_row canvas (3 * W canvas * H canvas) x w ty y s'; Some (False, s) } }) =
        (if y - b < 0 then Some (True, s') else map_option (Pair False) (step b s'))"
      by (simp add: c_simps step_def bind_Some_map)
  qed
  ultimately show ?thesis by simp
qed

lemma bleed_bottom_draws:
  assumes view: "rgb_view canvas (length s)" and fits: "fits canvas x y w h" and bp: "bp < 2 ^ 29"
    and E: "\<And>px py k. rect x y w h px py \<Longrightarrow> k < 3 \<Longrightarrow> px_at canvas s px py k = E px py k"
  shows "draws canvas (bleed_bottom canvas (3 * W canvas * H canvas) x y w h bp) s
    (\<lambda>px py. x \<le> px \<and> px < x + w \<and> y + h \<le> py \<and> py < y + h + bp) (edge E x y w h)"
proof -
  note f = fitsD [OF fits]
  define bs where "bs = takeWhile (\<lambda>b. \<not> y + h - 1 + b \<ge> uint (height canvas)) [1..bp]"
  define step where "step b = bleed_row canvas (3 * W canvas * H canvas) x w (y + h - 1 + b) (y + h - 1)" for b
  have bs: "set bs = {b. 1 \<le> b \<and> b \<le> bp \<and> y + h - 1 + b < uint (height canvas)}"
    unfolding bs_def by (subst set_takeWhile_upto) auto
  have "draws canvas (foreach bs step) s
      (\<lambda>px py. \<exists>b \<in> set bs. x \<le> px \<and> px < x + w \<and> py = y + h - 1 + b) (edge E x y w h)"
  proof (rule draws_foreach [OF view])
    fix b s'
    assume b: "b \<in> set bs" and len: "length s' = length s"
      and un: "\<And>px py k. on_canvas canvas px py \<Longrightarrow> k < 3 \<Longrightarrow>
        \<not> (\<exists>b \<in> set bs. x \<le> px \<and> px < x + w \<and> py = y + h - 1 + b) \<Longrightarrow>
        px_at canvas s' px py k = px_at canvas s px py k"
    have "px_at canvas s' z (y + h - 1) k = edge E x y w h z (y + h - 1 + b) k"
      if "x \<le> z" "z < x + w" "k < 3" for z k
      using un [of z "y + h - 1" k] E [of z "y + h - 1" k] that f b
      by (simp add: bs on_canvas_def rect_def edge_def clamp_def)
    then show "draws canvas (step b) s' (\<lambda>px py. x \<le> px \<and> px < x + w \<and> py = y + h - 1 + b) (edge E x y w h)"
      unfolding step_def using view len f b by (intro bleed_row_draws) (simp_all add: bs)
  qed
  then have "draws canvas (foreach bs step) s
      (\<lambda>px py. x \<le> px \<and> px < x + w \<and> y + h \<le> py \<and> py < y + h + bp) (edge E x y w h)"
  proof (rule draws_cong)
    fix px py assume "on_canvas canvas px py"
    then show "(\<exists>b \<in> set bs. x \<le> px \<and> px < x + w \<and> py = y + h - 1 + b) =
        (x \<le> px \<and> px < x + w \<and> y + h \<le> py \<and> py < y + h + bp)"
      by (auto simp: bs on_canvas_def intro!: exI [of _ "py - (y + h - 1)"])
  qed
  moreover have "bleed_bottom canvas (3 * W canvas * H canvas) x y w h bp = foreach bs step"
    unfolding bs_def bleed_bottom_def fun_eq_iff
  proof (intro allI foreach_brk_takeWhile)
    fix b s' assume "b \<in> set [1..bp]"
    then have "in_i32 (y + h)" "in_i32 (y + h - 1)" "in_i32 (y + h - 1 + b)"
      using f bp by (simp_all add: in_i32_def)
    then show "(do { ye \<leftarrow> i32 (y + h); yl \<leftarrow> i32 (ye - 1); ty \<leftarrow> i32 (yl + b);
        if ty \<ge> sint (height canvas) then Some (True, s')
        else do { s \<leftarrow> bleed_row canvas (3 * W canvas * H canvas) x w ty yl s'; Some (False, s) } }) =
        (if y + h - 1 + b \<ge> uint (height canvas) then Some (True, s') else map_option (Pair False) (step b s'))"
      using f(10) by (simp add: c_simps step_def bind_Some_map)
  qed
  ultimately show ?thesis by simp
qed

lemma bleed_side_draws:
  assumes view: "rgb_view canvas (length s)" and sx: "on_canvas canvas sx py"
    and tx: "\<And>b. 1 \<le> b \<Longrightarrow> b \<le> bp \<Longrightarrow> in_i32 (tx b) \<and> tx b \<noteq> sx \<and> (off (tx b) \<longleftrightarrow> \<not> on_canvas canvas (tx b) py)"
    and mono: "\<And>a b. a \<le> b \<Longrightarrow> \<not> off (tx b) \<Longrightarrow> \<not> off (tx a)"
    and V: "\<And>b k. 1 \<le> b \<Longrightarrow> b \<le> bp \<Longrightarrow> k < 3 \<Longrightarrow> px_at canvas s sx py k = V (tx b) py k"
  shows "draws canvas (bleed_side canvas (3 * W canvas * H canvas) py sx tx off bp) s
    (\<lambda>px qy. qy = py \<and> (\<exists>b. 1 \<le> b \<and> b \<le> bp \<and> px = tx b)) V"
proof -
  define bs where "bs = takeWhile (\<lambda>b. \<not> off (tx b)) [1..bp]"
  define step where "step b = copy_px (nat py * unat (stride canvas) + nat (tx b) * 3)
      (nat py * unat (stride canvas) + nat sx * 3)" for b
  have bs: "set bs = {b. 1 \<le> b \<and> b \<le> bp \<and> \<not> off (tx b)}"
    unfolding bs_def by (rule set_takeWhile_upto) (rule mono)
  have on: "on_canvas canvas (tx b) py" "tx b \<noteq> sx" if "b \<in> set bs" for b
    using that tx [of b] by (auto simp: bs)
  have "draws canvas (foreach bs step) s (\<lambda>px qy. \<exists>b \<in> set bs. px = tx b \<and> qy = py) V"
  proof (rule draws_foreach [OF view])
    fix b s'
    assume b: "b \<in> set bs" and len: "length s' = length s"
      and un: "\<And>px qy k. on_canvas canvas px qy \<Longrightarrow> k < 3 \<Longrightarrow>
        \<not> (\<exists>b \<in> set bs. px = tx b \<and> qy = py) \<Longrightarrow> px_at canvas s' px qy k = px_at canvas s px qy k"
    have "px_at canvas s' sx py k = V (tx b) py k" if "k < 3" for k
      using un [OF sx that] V [of b k] on(2) b that by (fastforce simp: bs)
    then show "draws canvas (step b) s' (\<lambda>px qy. px = tx b \<and> qy = py) V"
      unfolding step_def using view len on [OF b] sx by (intro copy_px_draws) simp_all
  qed
  then have "draws canvas (foreach bs step) s (\<lambda>px qy. qy = py \<and> (\<exists>b. 1 \<le> b \<and> b \<le> bp \<and> px = tx b)) V"
  proof (rule draws_cong)
    fix px qy assume "on_canvas canvas px qy"
    then show "(\<exists>b \<in> set bs. px = tx b \<and> qy = py) = (qy = py \<and> (\<exists>b. 1 \<le> b \<and> b \<le> bp \<and> px = tx b))"
      using tx by (auto simp: bs)
  qed
  moreover have "bleed_side canvas (3 * W canvas * H canvas) py sx tx off bp = foreach bs step"
    unfolding bs_def bleed_side_def fun_eq_iff
  proof (intro allI foreach_brk_takeWhile)
    fix b s' assume b: "b \<in> set [1..bp]"
    then have "in_i32 (tx b)" using tx by simp
    moreover have "nat py * unat (stride canvas) + nat (tx b) * 3 + 3 \<le> 3 * W canvas * H canvas"
      "0 \<le> tx b" "0 \<le> py" "0 \<le> sx"
      if "\<not> off (tx b)"
      using that b tx [of b] end_of_row [OF view, of "tx b" py] sx by (auto simp: on_canvas_def)
    ultimately show "(do { x \<leftarrow> i32 (tx b); if off x then Some (True, s')
        else do { d \<leftarrow> offs canvas py x; p \<leftarrow> offs canvas py sx;
          if d + 3 > 3 * W canvas * H canvas then Some (True, s')
          else do { s \<leftarrow> copy_px d p s'; Some (False, s) } } }) =
        (if off (tx b) then Some (True, s') else map_option (Pair False) (step b s'))"
      by (cases "off (tx b)") (simp_all add: c_simps offs_def step_def bind_Some_map)
  qed
  ultimately show ?thesis by simp
qed

lemma bleed_sides_draws:
  assumes view: "rgb_view canvas (length s)" and fits: "fits canvas x y w h" and bp: "bp < 2 ^ 29"
    and py: "0 \<le> py" "py < uint (height canvas)"
    and E: "\<And>px k. x \<le> px \<Longrightarrow> px < x + w \<Longrightarrow> k < 3 \<Longrightarrow> px_at canvas s px py k = edge E x y w h px py k"
  shows "draws canvas (bleed_sides canvas (3 * W canvas * H canvas) x w bp py) s
    (\<lambda>px qy. qy = py \<and> (x - bp \<le> px \<and> px < x \<or> x + w \<le> px \<and> px < x + w + bp)) (edge E x y w h)"
proof -
  note f = fitsD [OF fits]
  define left where "left = bleed_side canvas (3 * W canvas * H canvas) py x (\<lambda>b. x - b) (\<lambda>z. z < 0) bp"
  define right where "right = bleed_side canvas (3 * W canvas * H canvas) py (x + w - 1)
      (\<lambda>b. x + w - 1 + b) (\<lambda>z. z \<ge> sint (width canvas)) bp"
  have "draws canvas left s (\<lambda>px qy. qy = py \<and> (\<exists>b. 1 \<le> b \<and> b \<le> bp \<and> px = x - b)) (edge E x y w h)"
    unfolding left_def
  proof (rule bleed_side_draws [OF view])
    fix b k assume b: "1 \<le> b" "b \<le> bp" and "k < (3 :: nat)"
    then show "px_at canvas s x py k = edge E x y w h (x - b) py k"
      using E [of x k] f by (simp add: edge_def clamp_def)
  qed (use f py bp in \<open>auto simp: on_canvas_def in_i32_def\<close>)
  then have l: "draws canvas left s (\<lambda>px qy. qy = py \<and> x - bp \<le> px \<and> px < x) (edge E x y w h)"
  proof (rule draws_cong)
    show "(qy = py \<and> (\<exists>b. 1 \<le> b \<and> b \<le> bp \<and> px = x - b)) = (qy = py \<and> x - bp \<le> px \<and> px < x)" for px qy
      by (auto intro: exI [of _ "x - px"])
  qed
  have r: "draws canvas right s' (\<lambda>px qy. qy = py \<and> x + w \<le> px \<and> px < x + w + bp) (edge E x y w h)"
    if len: "length s' = length s"
      and un: "\<And>px qy k. on_canvas canvas px qy \<Longrightarrow> k < 3 \<Longrightarrow> px_at canvas s' px qy k =
        (if qy = py \<and> x - bp \<le> px \<and> px < x then edge E x y w h px qy k else px_at canvas s px qy k)" for s'
  proof -
    have on: "on_canvas canvas (x + w - 1) py" using f py by (simp add: on_canvas_def)
    have "draws canvas right s' (\<lambda>px qy. qy = py \<and> (\<exists>b. 1 \<le> b \<and> b \<le> bp \<and> px = x + w - 1 + b)) (edge E x y w h)"
      unfolding right_def
    proof (rule bleed_side_draws [OF _ on])
      fix b k assume b: "1 \<le> b" "b \<le> bp" and k: "k < (3 :: nat)"
      then show "px_at canvas s' (x + w - 1) py k = edge E x y w h (x + w - 1 + b) py k"
        using E [of "x + w - 1" k] un [OF on k] f by (simp add: edge_def clamp_def)
    qed (use f py bp view len in \<open>auto simp: on_canvas_def in_i32_def\<close>)
    then show ?thesis
    proof (rule draws_cong)
      show "(qy = py \<and> (\<exists>b. 1 \<le> b \<and> b \<le> bp \<and> px = x + w - 1 + b)) =
          (qy = py \<and> x + w \<le> px \<and> px < x + w + bp)" for px qy
        by (auto intro: exI [of _ "px - (x + w - 1)"])
    qed
  qed
  have "draws canvas (\<lambda>s. Option.bind (left s) right) s (\<lambda>px qy. (qy = py \<and> x - bp \<le> px \<and> px < x) \<or>
      (qy = py \<and> x + w \<le> px \<and> px < x + w + bp)) (edge E x y w h)"
    by (rule draws_seq [OF view l r])
  moreover have "bleed_sides canvas (3 * W canvas * H canvas) x w bp py = (\<lambda>s. Option.bind (left s) right)"
    using f by (simp add: bleed_sides_def left_def right_def fun_eq_iff c_simps in_i32_def)
  ultimately show ?thesis
    by (auto intro: draws_cong)
qed

definition ring :: "int \<Rightarrow> img_cell \<Rightarrow> region" where
  "ring bp c px py \<longleftrightarrow>
     rect (uint (cell_x c) - bp) (uint (cell_y c) - bp) (uint (cell_w c) + 2 * bp) (uint (cell_h c) + 2 * bp) px py \<and>
     \<not> cell_area c px py"

definition edge_of :: "(int \<Rightarrow> int \<Rightarrow> nat \<Rightarrow> u8) \<Rightarrow> img_cell \<Rightarrow> int \<Rightarrow> int \<Rightarrow> nat \<Rightarrow> u8" where
  "edge_of E c = edge E (uint (cell_x c)) (uint (cell_y c)) (uint (cell_w c)) (uint (cell_h c))"

definition cell_fits :: "img_buffer \<Rightarrow> img_cell \<Rightarrow> bool" where
  "cell_fits canvas c \<longleftrightarrow> fits canvas (uint (cell_x c)) (uint (cell_y c)) (uint (cell_w c)) (uint (cell_h c))"

text \<open>The rows of the left and right part, once the columns of the cell hold their final values.\<close>

lemma bleed_rows_draws:
  assumes view: "rgb_view canvas (length s)" and ft: "fits canvas x y w h" and bp: "bp < 2 ^ 29"
    and rows: "0 \<le> r0" "r1 \<le> uint (height canvas)"
    and col: "\<And>px py k. r0 \<le> py \<Longrightarrow> py < r1 \<Longrightarrow> x \<le> px \<Longrightarrow> px < x + w \<Longrightarrow> k < 3 \<Longrightarrow>
      px_at canvas s px py k = edge E x y w h px py k"
  shows "draws canvas (foreach [r0..r1 - 1] (bleed_sides canvas (3 * W canvas * H canvas) x w bp)) s
    (\<lambda>px py. r0 \<le> py \<and> py < r1 \<and> (x - bp \<le> px \<and> px < x \<or> x + w \<le> px \<and> px < x + w + bp))
    (edge E x y w h)"
proof -
  note f = fitsD [OF ft]
  define R where "R py px qy \<longleftrightarrow> qy = py \<and> (x - bp \<le> px \<and> px < x \<or> x + w \<le> px \<and> px < x + w + bp)" for py px qy :: int
  have "draws canvas (foreach [r0..r1 - 1] (bleed_sides canvas (3 * W canvas * H canvas) x w bp)) s
      (\<lambda>px qy. \<exists>py \<in> set [r0..r1 - 1]. R py px qy) (edge E x y w h)"
  proof (rule draws_foreach [OF view])
    fix py s'
    assume py: "py \<in> set [r0..r1 - 1]" and len: "length s' = length s"
      and un: "\<And>px qy k. on_canvas canvas px qy \<Longrightarrow> k < 3 \<Longrightarrow> \<not> (\<exists>py \<in> set [r0..r1 - 1]. R py px qy) \<Longrightarrow>
        px_at canvas s' px qy k = px_at canvas s px qy k"
    have "px_at canvas s' px py k = edge E x y w h px py k" if "x \<le> px" "px < x + w" "k < 3" for px k
      using un [of px py k] col [of py px k] py that f rows
      by (simp add: on_canvas_def R_def)
    then show "draws canvas (bleed_sides canvas (3 * W canvas * H canvas) x w bp py) s' (R py) (edge E x y w h)"
      using view len bp py rows unfolding R_def by (intro bleed_sides_draws [OF _ ft]) simp_all
  qed
  then show ?thesis
    by (rule draws_cong) (auto simp: R_def)
qed

lemma bleed_cell_eq:
  assumes "cell_fits canvas c" and bp: "0 < bp" "bp < 2 ^ 29"
  defines "x \<equiv> uint (cell_x c)" and "y \<equiv> uint (cell_y c)" and "w \<equiv> uint (cell_w c)" and "h \<equiv> uint (cell_h c)"
  shows "bleed_cell canvas e bp c = (\<lambda>s. Option.bind (bleed_top canvas e x y w bp s)
    (\<lambda>s. Option.bind (bleed_bottom canvas e x y w h bp s)
      (foreach [max 0 (y - bp)..min (uint (height canvas)) (y + h + bp) - 1] (bleed_sides canvas e x w bp))))"
proof -
  note f = fitsD [OF assms(1) [unfolded cell_fits_def, folded x_def y_def w_def h_def]]
  have "x < 2 ^ 31" "y < 2 ^ 31" "w < 2 ^ 31" "h < 2 ^ 31"
    using f by simp_all
  then have "sint (cell_x c) = x" "sint (cell_y c) = y" "sint (cell_w c) = w" "sint (cell_h c) = h"
    by (simp_all add: x_def y_def w_def h_def sint_uint_small)
  moreover have "in_i32 (y - bp)" "in_i32 (y + h)" "in_i32 (y + h + bp)"
    using f bp by (simp_all add: in_i32_def)
  moreover have "(if y - bp < 0 then 0 else y - bp) = max 0 (y - bp)"
    "(if y + h + bp > uint (height canvas) then uint (height canvas) else y + h + bp) =
     min (uint (height canvas)) (y + h + bp)"
    by simp_all
  ultimately show ?thesis
    using f(10) by (simp add: bleed_cell_def c_simps fun_eq_iff Let_def)
qed

lemma bleed_cell_draws:
  assumes view: "rgb_view canvas (length s)" and fits: "cell_fits canvas c" and bp: "0 < bp" "bp < 2 ^ 29"
    and E: "\<And>px py k. cell_area c px py \<Longrightarrow> k < 3 \<Longrightarrow> px_at canvas s px py k = E px py k"
  shows "draws canvas (bleed_cell canvas (3 * W canvas * H canvas) bp c) s (ring bp c) (edge_of E c)"
proof -
  define x y w h where "x = uint (cell_x c)" and "y = uint (cell_y c)"
    and "w = uint (cell_w c)" and "h = uint (cell_h c)"
  note defs = this
  have ft: "fits canvas x y w h" using fits by (simp add: cell_fits_def defs)
  note f = fitsD [OF ft]
  have area: "cell_area c = rect x y w h" by (simp add: cell_area_def defs)
  let ?V = "edge E x y w h"
  define r0 r1 where "r0 = max 0 (y - bp)" and "r1 = min (uint (height canvas)) (y + h + bp)"
  define T where "T px py \<longleftrightarrow> x \<le> px \<and> px < x + w \<and> y - bp \<le> py \<and> py < y" for px py
  define B where "B px py \<longleftrightarrow> x \<le> px \<and> px < x + w \<and> y + h \<le> py \<and> py < y + h + bp" for px py
  define S where "S px py \<longleftrightarrow> r0 \<le> py \<and> py < r1 \<and> (x - bp \<le> px \<and> px < x \<or> x + w \<le> px \<and> px < x + w + bp)" for px py
  have t: "draws canvas (bleed_top canvas (3 * W canvas * H canvas) x y w bp) s T ?V"
    unfolding T_def using E bp by (intro bleed_top_draws [OF view ft]) (simp_all add: area)
  have "draws canvas (bleed_cell canvas (3 * W canvas * H canvas) bp c) s (\<lambda>px py. T px py \<or> (B px py \<or> S px py)) ?V"
    unfolding bleed_cell_eq [OF fits bp, folded defs, folded r0_def r1_def]
  proof (rule draws_seq [OF view t], rule draws_seq)
    fix s' s''
    assume s': "length s' = length s" and v': "\<And>px py k. on_canvas canvas px py \<Longrightarrow> k < 3 \<Longrightarrow>
        px_at canvas s' px py k = (if T px py then ?V px py k else px_at canvas s px py k)"
    show view': "rgb_view canvas (length s')" using view s' by simp
    have cell': "px_at canvas s' px py k = E px py k" if "rect x y w h px py" "k < 3" for px py k
      using v' [of px py k] E [of px py k] that f by (simp add: area rect_def T_def on_canvas_def)
    then show "draws canvas (bleed_bottom canvas (3 * W canvas * H canvas) x y w h bp) s' B ?V"
      unfolding B_def using view' bp by (intro bleed_bottom_draws [OF _ ft]) simp_all
    assume s'': "length s'' = length s'" and v'': "\<And>px py k. on_canvas canvas px py \<Longrightarrow> k < 3 \<Longrightarrow>
        px_at canvas s'' px py k = (if B px py then ?V px py k else px_at canvas s' px py k)"
    have "px_at canvas s'' px py k = ?V px py k"
      if p: "r0 \<le> py" "py < r1" "x \<le> px" "px < x + w" "k < 3" for px py k
    proof -
      have on: "on_canvas canvas px py" using p f by (simp add: on_canvas_def r0_def r1_def)
      have "y \<le> py \<Longrightarrow> py < y + h \<Longrightarrow> ?V px py k = E px py k"
        using p by (simp add: edge_def clamp_def)
      then show ?thesis
        using p v' [OF on p(5)] v'' [OF on p(5)] cell' [of px py k]
        by (cases "py < y"; cases "py < y + h") (simp_all add: T_def B_def r0_def r1_def rect_def)
    qed
    then show "draws canvas (foreach [r0..r1 - 1] (bleed_sides canvas (3 * W canvas * H canvas) x w bp)) s'' S ?V"
      unfolding S_def using view' s'' bp by (intro bleed_rows_draws [OF _ ft]) (simp_all add: r0_def r1_def)
  qed
  then show ?thesis
    unfolding edge_of_def defs [symmetric]
    by (rule draws_cong)
       (use f bp in \<open>auto simp: T_def B_def S_def r0_def r1_def ring_def area rect_def on_canvas_def simp flip: defs\<close>)
qed

section \<open>Properties\<close>

lemma ring_avoids_cells:
  assumes "apart g c d" and "bp \<le> g" and "ring bp c px py"
  shows "\<not> cell_area d px py"
proof -
  define cx cy cw ch dx dy dw dh where "cx = uint (cell_x c)" and "cy = uint (cell_y c)"
    and "cw = uint (cell_w c)" and "ch = uint (cell_h c)" and "dx = uint (cell_x d)"
    and "dy = uint (cell_y d)" and "dw = uint (cell_w d)" and "dh = uint (cell_h d)"
  note defs = this
  have "0 \<le> cw" "0 \<le> ch" "0 \<le> dw" "0 \<le> dh"
    by (simp_all add: defs)
  moreover have "cx = dx \<and> cw = dw \<or> cx + cw + g \<le> dx \<or> dx + dw + g \<le> cx"
    "cy = dy \<and> ch = dh \<or> cy + ch + g \<le> dy \<or> dy + dh + g \<le> cy"
    using assms(1) by (auto simp: apart_def defs)
  ultimately show ?thesis
    using assms(2-3) unfolding ring_def cell_area_def rect_def defs [symmetric]
    by (elim disjE conjE) (auto simp: not_le)
qed

lemma cell_on_canvas:
  assumes "cell_fits canvas c" and "cell_area c px py"
  shows "on_canvas canvas px py"
proof -
  note f = fitsD [OF assms(1) [unfolded cell_fits_def]]
  have "uint (cell_x c) \<le> px" "uint (cell_y c) \<le> py"
    "px < uint (cell_x c) + uint (cell_w c)" "py < uint (cell_y c) + uint (cell_h c)"
    using assms(2) by (simp_all add: cell_area_def rect_def)
  then have "0 \<le> px" "0 \<le> py" "px < uint (width canvas)" "py < uint (height canvas)"
    using f(1,2,5,6) by linarith+
  then show ?thesis by (simp add: on_canvas_def)
qed

text \<open>The cell whose bleed is visible at a position: the last one drawn over it.\<close>

definition bleed_owner :: "int \<Rightarrow> img_cell list \<Rightarrow> int \<Rightarrow> int \<Rightarrow> img_cell option" where
  "bleed_owner bp cs px py = find (\<lambda>c. ring bp c px py) (rev cs)"

lemma bleed_cells:
  assumes view: "rgb_view canvas (length s)" and bp: "0 < bp" "bp < 2 ^ 29" "bp \<le> g"
    and cells: "\<And>c. c \<in> set cs \<Longrightarrow> cell_fits canvas c" "\<And>c d. c \<in> set cs \<Longrightarrow> d \<in> set cs \<Longrightarrow> apart g c d"
  shows "\<exists>s'. foreach cs (bleed_cell canvas (3 * W canvas * H canvas) bp) s = Some s' \<and> length s' = length s \<and>
    (\<forall>px py k. on_canvas canvas px py \<longrightarrow> k < 3 \<longrightarrow> px_at canvas s' px py k =
       (case bleed_owner bp cs px py of None \<Rightarrow> px_at canvas s px py k
        | Some c \<Rightarrow> edge_of (px_at canvas s) c px py k))"
  using cells
proof (induction cs rule: rev_induct)
  case Nil
  then show ?case by (simp add: bleed_owner_def)
next
  case (snoc c cs)
  then obtain s1 where s1: "foreach cs (bleed_cell canvas (3 * W canvas * H canvas) bp) s = Some s1" "length s1 = length s"
    and v1: "\<And>px py k. on_canvas canvas px py \<Longrightarrow> k < 3 \<Longrightarrow> px_at canvas s1 px py k =
       (case bleed_owner bp cs px py of None \<Rightarrow> px_at canvas s px py k
        | Some c \<Rightarrow> edge_of (px_at canvas s) c px py k)"
    by (auto simp del: not_None_eq)
  have fit: "cell_fits canvas c" using snoc.prems by simp
  have "px_at canvas s1 px py k = px_at canvas s px py k" if "cell_area c px py" "k < 3" for px py k
  proof -
    have "bleed_owner bp cs px py = None"
      using ring_avoids_cells [OF snoc.prems(2) bp(3)] that by (auto simp: bleed_owner_def find_None_iff)
    then show ?thesis
      using v1 [OF cell_on_canvas [OF fit that(1)] that(2)] by simp
  qed
  then have "draws canvas (bleed_cell canvas (3 * W canvas * H canvas) bp c) s1 (ring bp c) (edge_of (px_at canvas s) c)"
    using view s1(2) fit bp by (intro bleed_cell_draws) simp_all
  then obtain s2 where "bleed_cell canvas (3 * W canvas * H canvas) bp c s1 = Some s2" "length s2 = length s1"
    "\<And>px py k. on_canvas canvas px py \<Longrightarrow> k < 3 \<Longrightarrow> px_at canvas s2 px py k =
      (if ring bp c px py then edge_of (px_at canvas s) c px py k else px_at canvas s1 px py k)"
    using view s1(2) by (auto elim!: drawsD)
  then show ?case
    using s1 v1 by (simp add: foreach_append bleed_owner_def)
qed

lemma apply_bleed_spec:
  assumes "rgb_view canvas (length s)" and "0 < bleed" and "uint bleed < 2 ^ 29" and "uint bleed \<le> g"
    and "length (cells layout) = unat (count layout)"
    and "\<And>c. c \<in> set (cells layout) \<Longrightarrow> cell_fits canvas c"
    and "\<And>c d. c \<in> set (cells layout) \<Longrightarrow> d \<in> set (cells layout) \<Longrightarrow> apart g c d"
    and "uint (height canvas) < 2 ^ 31"
  shows "\<exists>s'. img_apply_bleed (Some canvas) (Some layout) bleed s = Some (IMG_SUCCESS, s') \<and> length s' = length s \<and>
    (\<forall>px py k. on_canvas canvas px py \<longrightarrow> k < 3 \<longrightarrow> px_at canvas s' px py k =
       (case bleed_owner (uint bleed) (cells layout) px py of None \<Rightarrow> px_at canvas s px py k
        | Some c \<Rightarrow> edge_of (px_at canvas s) c px py k)) \<and>
    (\<forall>c \<in> set (cells layout). \<forall>px py. cell_area c px py \<longrightarrow> bleed_owner (uint bleed) (cells layout) px py = None)"
proof -
  have b: "0 < uint bleed" "sint bleed = uint bleed"
    using assms(2,3) by (simp_all add: word_less_def sint_uint_small)
  have "offs canvas (sint (height canvas)) 0 = Some (3 * W canvas * H canvas)"
    using assms(8) rgb_viewD(2) [OF assms(1)] by (simp add: offs_def sint_uint_small)
  moreover obtain s' where loop: "foreach (cells layout) (bleed_cell canvas (3 * W canvas * H canvas) (uint bleed)) s = Some s'"
    and "length s' = length s"
    and "\<forall>px py k. on_canvas canvas px py \<longrightarrow> k < 3 \<longrightarrow> px_at canvas s' px py k =
       (case bleed_owner (uint bleed) (cells layout) px py of None \<Rightarrow> px_at canvas s px py k
        | Some c \<Rightarrow> edge_of (px_at canvas s) c px py k)"
    using bleed_cells [OF assms(1) b(1) assms(3,4,6,7)] by blast
  moreover have "bleed_owner (uint bleed) (cells layout) px py = None"
    if "c \<in> set (cells layout)" "cell_area c px py" for c px py
    using ring_avoids_cells [OF assms(7) assms(4)] that by (auto simp: bleed_owner_def find_None_iff)
  moreover have "foreach [0..<unat (count layout)] (\<lambda>i s. if i < length (cells layout)
      then bleed_cell canvas (3 * W canvas * H canvas) (sint bleed) (cells layout ! i) s else None) s = Some s'"
    using loop by (simp add: foreach_nth [OF assms(5) [symmetric]] b(2))
  ultimately show ?thesis
    using assms(2) by (auto simp: img_apply_bleed_def)
qed

text \<open>
  C17. The bleed pass extends every cell by \<open>bleed_px\<close> pixels of its nearest edge pixel, also in
  the corners; where the bleeds of two cells overlap the later cell wins; and when the bleed
  is no wider than the gap, the photos themselves are unchanged. No access leaves the canvas.
\<close>

theorem apply_bleed_exact:
  assumes "rgb_view canvas (length s)" and "0 < bleed" and "uint bleed < 2 ^ 29" and "uint bleed \<le> g"
    and "length (cells layout) = unat (count layout)"
    and "\<And>c. c \<in> set (cells layout) \<Longrightarrow> cell_fits canvas c"
    and "\<And>c d. c \<in> set (cells layout) \<Longrightarrow> d \<in> set (cells layout) \<Longrightarrow> apart g c d"
    and "uint (height canvas) < 2 ^ 31"
  shows "\<exists>s'. img_apply_bleed (Some canvas) (Some layout) bleed s = Some (IMG_SUCCESS, s') \<and> length s' = length s \<and>
    (\<forall>px py k. on_canvas canvas px py \<longrightarrow> k < 3 \<longrightarrow> px_at canvas s' px py k =
       (case bleed_owner (uint bleed) (cells layout) px py of None \<Rightarrow> px_at canvas s px py k
        | Some c \<Rightarrow> edge_of (px_at canvas s) c px py k)) \<and>
    (\<forall>c \<in> set (cells layout). \<forall>px py. cell_area c px py \<longrightarrow> bleed_owner (uint bleed) (cells layout) px py = None)"
  by (rule apply_bleed_spec [OF assms])

theorem apply_bleed_exact_witness:
  "\<exists>s'. img_apply_bleed (Some demo_canvas) (Some demo_layout) 1 (replicate 108 7) = Some (IMG_SUCCESS, s') \<and>
    length s' = length (replicate 108 (7 :: u8)) \<and>
    (\<forall>px py k. on_canvas demo_canvas px py \<longrightarrow> k < 3 \<longrightarrow> px_at demo_canvas s' px py k =
       (case bleed_owner (uint (1 :: u32)) (cells demo_layout) px py of
          None \<Rightarrow> px_at demo_canvas (replicate 108 7) px py k
        | Some c \<Rightarrow> edge_of (px_at demo_canvas (replicate 108 7)) c px py k)) \<and>
    (\<forall>c \<in> set (cells demo_layout). \<forall>px py. cell_area c px py \<longrightarrow>
       bleed_owner (uint (1 :: u32)) (cells demo_layout) px py = None)"
  by (rule apply_bleed_exact [where g = 2])
     (simp_all add: demo_defs rgb_view_def cell_fits_def fits_def apart_def)

end
