(* ===== verification/Layout_Grid.thy ===== *)
theory Layout_Grid
  imports Layout Bleed
begin

text \<open>
  What \<open>img_layout_grid\<close> guarantees on a canvas made by \<open>img_canvas_init\<close>: every cell of the
  grid is placed, none is skipped, and each holds the prepared photo.
\<close>

section \<open>Positions in the grid\<close>

definition grid_cell :: "img_job \<Rightarrow> img_canvas \<Rightarrow> nat \<Rightarrow> nat \<Rightarrow> img_cell" where
  "grid_cell job c row col =
     \<lparr>cell_x = start_x c + of_nat col * (photo_w_px c + gap job),
      cell_y = start_y c + of_nat row * (photo_h_px c + gap job),
      cell_w = photo_w_px c, cell_h = photo_h_px c\<rparr>"

definition grid_cells :: "img_job \<Rightarrow> img_canvas \<Rightarrow> img_cell list" where
  "grid_cells job c = map (\<lambda>i. grid_cell job c (i div unat (cols job)) (i mod unat (cols job)))
     [0..<unat (rows job) * unat (cols job)]"

text \<open>One axis of the grid: the \<open>i\<close>-th of \<open>n\<close> steps stays below the far edge.\<close>

lemma axis_position:
  fixes start side gp :: u32
  assumes fit: "unat start + n * unat side + (n - 1) * unat gp \<le> far" and lim: "far < 2 ^ 16" and i: "i < n"
  shows "unat (start + of_nat i * (side + gp)) = unat start + i * (unat side + unat gp)"
    and "unat start + i * (unat side + unat gp) + unat side \<le> far"
proof -
  obtain m where n: "n = Suc m" using i by (cases n) auto
  have "i * (unat side + unat gp) \<le> m * (unat side + unat gp)" using i n by (intro mult_le_mono1) simp
  then show le: "unat start + i * (unat side + unat gp) + unat side \<le> far"
    using fit by (simp add: n algebra_simps)
  show "unat (start + of_nat i * (side + gp)) = unat start + i * (unat side + unat gp)"
  proof (cases i)
    case (Suc k)
    then have "1 * (unat side + unat gp) \<le> i * (unat side + unat gp)" by (intro mult_le_mono1) simp
    then have "unat side + unat gp \<le> far" using le by (simp only: mult_1)
    then have "unat side + unat gp < 2 ^ 16" using lim by (rule le_less_trans)
    then have s: "unat (side + gp) = unat side + unat gp" by (intro unat_add_small) simp
    have "i < 2 ^ 16 \<or> unat side + unat gp = 0"
      using le lim by (cases "unat side + unat gp") auto
    then show ?thesis
    proof
      assume "i < 2 ^ 16"
      then have "unat (of_nat i :: u32) = i" by (simp add: unat_of_nat_small)
      then have "unat (of_nat i * (side + gp)) = i * (unat side + unat gp)"
        using le lim s by (simp add: unat_mult_small)
      then show ?thesis using le lim by (simp add: unat_add_small)
    next
      assume "unat side + unat gp = 0"
      then have "side + gp = 0" using s by (metis unat_eq_zero)
      then show ?thesis using \<open>unat side + unat gp = 0\<close> by simp
    qed
  qed simp
qed

lemma grid_fitsD:
  assumes "grid_fits job c"
  shows "1 \<le> unat (cols job)" "1 \<le> unat (rows job)" "1 \<le> unat (photo_w_px c)" "1 \<le> unat (photo_h_px c)"
    "unat (start_x c) + unat (cols job) * unat (photo_w_px c) + (unat (cols job) - 1) * unat (gap job) \<le> unat (page_w_px c)"
    "unat (start_y c) + unat (rows job) * unat (photo_h_px c) + (unat (rows job) - 1) * unat (gap job) \<le> unat (page_h_px c)"
    "unat (page_w_px c) < 2 ^ 16" "unat (page_h_px c) < 2 ^ 16"
    "unat (cols job) < 2 ^ 16" "unat (rows job) < 2 ^ 16" "unat (photo_w_px c) < 2 ^ 16" "unat (photo_h_px c) < 2 ^ 16"
proof -
  have le: "a \<le> a * b" "b \<le> a * b" if "1 \<le> a" "1 \<le> b" for a b :: nat using that by (cases a; cases b; simp)+
  have "1 \<le> unat (cols job)" "1 \<le> unat (rows job)" "1 \<le> unat (photo_w_px c)" "1 \<le> unat (photo_h_px c)"
    using assms by (simp_all add: grid_fits_def)
  note b = le(1) [OF this(1,3)] le(2) [OF this(1,3)] le(1) [OF this(2,4)] le(2) [OF this(2,4)]
  show "unat (cols job) < 2 ^ 16" "unat (rows job) < 2 ^ 16" "unat (photo_w_px c) < 2 ^ 16" "unat (photo_h_px c) < 2 ^ 16"
    using assms b unfolding grid_fits_def by linarith+
qed (use assms in \<open>simp_all add: grid_fits_def\<close>)

lemma grid_cell_position:
  assumes g: "grid_fits job c" and rc: "row < unat (rows job)" "col < unat (cols job)"
  shows "unat (cell_x (grid_cell job c row col)) = unat (start_x c) + col * (unat (photo_w_px c) + unat (gap job))"
    and "unat (cell_y (grid_cell job c row col)) = unat (start_y c) + row * (unat (photo_h_px c) + unat (gap job))"
    and "unat (cell_x (grid_cell job c row col)) + unat (photo_w_px c) \<le> unat (page_w_px c)"
    and "unat (cell_y (grid_cell job c row col)) + unat (photo_h_px c) \<le> unat (page_h_px c)"
  using axis_position [OF grid_fitsD(5,7) [OF g] rc(2)] axis_position [OF grid_fitsD(6,8) [OF g] rc(1)]
  by (simp_all add: grid_cell_def)

section \<open>The placing loop\<close>

text \<open>A loop over a pair of independent states runs both loops.\<close>

lemma foreach_pair:
  assumes "\<And>x s t s' t'. x \<in> set xs \<Longrightarrow> f x s = Some s' \<Longrightarrow> g x t = Some t' \<Longrightarrow> body x (s, t) = Some (s', t')"
    and "foreach xs f s = Some s'" and "foreach xs g t = Some t'"
  shows "foreach xs body (s, t) = Some (s', t')"
  using assms
proof (induction xs arbitrary: s t)
  case (Cons x xs)
  obtain s1 t1 where "f x s = Some s1" "foreach xs f s1 = Some s'" "g x t = Some t1" "foreach xs g t1 = Some t'"
    using Cons.prems(2,3) by (auto simp: bind_eq_Some_conv)
  then show ?case using Cons.IH Cons.prems(1) by simp
qed simp

definition blit_cell :: "img_canvas \<Rightarrow> img_buffer \<Rightarrow> bytes \<Rightarrow> img_job \<Rightarrow> nat \<Rightarrow> nat \<Rightarrow> bytes \<Rightarrow> bytes option" where
  "blit_cell c T m job row col =
     img_blit_avx2 (Some (buf c)) (Some T) m (cell_x (grid_cell job c row col)) (cell_y (grid_cell job c row col))"

definition note_cell :: "img_canvas \<Rightarrow> img_job \<Rightarrow> nat \<Rightarrow> nat \<Rightarrow> img_cell option list \<Rightarrow> img_cell option list option" where
  "note_cell c job row col cs =
     (let i = row * unat (cols job) + col in
      if i < length cs then Some (cs[i := Some (grid_cell job c row col)]) else None)"

lemma row_col_bound: "row < R \<Longrightarrow> col < C \<Longrightarrow> row * C + col < R * (C :: nat)"
  using mult_le_mono1 [of "Suc row" R C] by simp

lemma place_cell_split:
  assumes ok: "canvas_ok job c n" and rc: "row < unat (rows job)" "col < unat (cols job)"
    and f: "blit_cell c T m job row col s = Some s'" and g: "note_cell c job row col cs = Some cs'"
  shows "place_cell c T m job row col (s, cs) = Some (s', cs')"
proof -
  have gf: "grid_fits job c" and wh: "width (buf c) = page_w_px c" "height (buf c) = page_h_px c"
    using ok by (simp_all add: canvas_ok_def)
  note pos = grid_cell_position [OF gf rc]
  have "unat (cell_x (grid_cell job c row col) + photo_w_px c) \<le> unat (page_w_px c)"
    "unat (cell_y (grid_cell job c row col) + photo_h_px c) \<le> unat (page_h_px c)"
    using pos(3,4) grid_fitsD(7,8) [OF gf] by (simp_all add: unat_add_small)
  then have fits: "\<not> page_w_px c < cell_x (grid_cell job c row col) + photo_w_px c"
    "\<not> page_h_px c < cell_y (grid_cell job c row col) + photo_h_px c"
    by (simp_all add: word_less_nat_alt)
  have "unat (rows job) * unat (cols job) \<le> 2 ^ 16 * 2 ^ 16"
    using grid_fitsD(9,10) [OF gf] by (intro mult_le_mono) simp_all
  then have lt: "row * unat (cols job) + col < 2 ^ 32" using row_col_bound [OF rc] by simp
  have u: "unat (of_nat row :: u32) = row" "unat (of_nat col :: u32) = col"
    using rc grid_fitsD(9,10) [OF gf] by (simp_all add: unat_of_nat_small)
  have idx: "unat (of_nat row * cols job + of_nat col) = row * unat (cols job) + col"
    using lt u by (simp add: unat_add_small unat_mult_small)
  show ?thesis
    using f g fits
    by (simp add: place_cell_def blit_cell_def note_cell_def grid_cell_def idx wh Let_def split: if_splits)
qed

lemma note_cells:
  assumes "length cs = R * C" and "C = unat (cols job)"
  shows "foreach [0..<R] (\<lambda>row. foreach [0..<C] (note_cell c job row)) cs =
    Some (map (\<lambda>i. Some (grid_cell job c (i div C) (i mod C))) [0..<R * C])"
proof -
  define G where "G i = Some (grid_cell job c (i div C) (i mod C))" for i
  have row: "\<exists>t. foreach [0..<C] (note_cell c job row) cs = Some t \<and> length t = R * C \<and> (\<forall>i < row * C + C. t ! i = G i)"
    if row: "row < R" and cs: "length cs = R * C" "\<forall>i < row * C. cs ! i = G i" for row cs
  proof (rule foreach_upt_invariant [where I = "\<lambda>k t. length t = R * C \<and> (\<forall>i < row * C + k. t ! i = G i)"])
    fix k and t :: "img_cell option list"
    assume k: "k < C" and t: "length t = R * C \<and> (\<forall>i < row * C + k. t ! i = G i)"
    have lt: "row * C + k < length t" using row_col_bound [OF row k] t by simp
    have "G (row * C + k) = Some (grid_cell job c row k)" using k by (simp add: G_def)
    then show "\<exists>t'. note_cell c job row k t = Some t' \<and> length t' = R * C \<and> (\<forall>i < row * C + Suc k. t' ! i = G i)"
      using t lt assms(2) by (auto simp: note_cell_def Let_def nth_list_update less_Suc_eq)
  qed (use cs in simp)
  have "\<exists>t. foreach [0..<R] (\<lambda>row. foreach [0..<C] (note_cell c job row)) cs = Some t \<and>
      length t = R * C \<and> (\<forall>i < R * C. t ! i = G i)"
    by (rule foreach_upt_invariant [where I = "\<lambda>r t. length t = R * C \<and> (\<forall>i < r * C. t ! i = G i)"])
       (use assms row in \<open>auto simp: add.commute\<close>)
  then obtain t where t: "foreach [0..<R] (\<lambda>row. foreach [0..<C] (note_cell c job row)) cs = Some t"
    "length t = R * C" "\<forall>i < R * C. t ! i = G i" by blast
  then have "t = map G [0..<R * C]" by (intro nth_equalityI) simp_all
  with t(1) show ?thesis by (simp add: G_def)
qed

text \<open>The photo under a pixel of the grid: the offset into the cell is the remainder by the step.\<close>

definition tiled :: "img_job \<Rightarrow> img_canvas \<Rightarrow> (int \<Rightarrow> int \<Rightarrow> nat \<Rightarrow> u8) \<Rightarrow> int \<Rightarrow> int \<Rightarrow> nat \<Rightarrow> u8" where
  "tiled job c V px py k =
     V ((px - uint (start_x c)) mod (uint (photo_w_px c) + uint (gap job)))
       ((py - uint (start_y c)) mod (uint (photo_h_px c) + uint (gap job))) k"

lemma tile_offset:
  fixes w g :: nat
  assumes "int (a + i * (w + g)) \<le> p" and "p < int (a + i * (w + g)) + int w"
  shows "(p - int a) mod (int w + int g) = p - int (a + i * (w + g))"
proof -
  have "p - int a = (p - int (a + i * (w + g))) + int i * (int w + int g)" by simp
  then have "(p - int a) mod (int w + int g) = (p - int (a + i * (w + g))) mod (int w + int g)"
    by (metis mod_mult_self1)
  also have "\<dots> = p - int (a + i * (w + g))" using assms by (intro mod_pos_pos_trivial) simp_all
  finally show ?thesis .
qed

lemma tiled_in_cell:
  assumes "grid_fits job c" and "row < unat (rows job)" and "col < unat (cols job)"
    and in_cell: "cell_area (grid_cell job c row col) px py"
  shows "tiled job c V px py k =
    V (px - uint (cell_x (grid_cell job c row col))) (py - uint (cell_y (grid_cell job c row col))) k"
proof -
  let ?x = "uint (cell_x (grid_cell job c row col))" and ?y = "uint (cell_y (grid_cell job c row col))"
  have x: "?x = int (unat (start_x c) + col * (unat (photo_w_px c) + unat (gap job)))"
    and y: "?y = int (unat (start_y c) + row * (unat (photo_h_px c) + unat (gap job)))"
    using grid_cell_position(1,2) [OF assms(1-3)] by (simp_all only: uint_nat)
  have "?x \<le> px" "px < ?x + int (unat (photo_w_px c))" "?y \<le> py" "py < ?y + int (unat (photo_h_px c))"
    using in_cell by (simp_all add: cell_area_def rect_def grid_cell_def)
  then have "(px - int (unat (start_x c))) mod (int (unat (photo_w_px c)) + int (unat (gap job))) = px - ?x"
    "(py - int (unat (start_y c))) mod (int (unat (photo_h_px c)) + int (unat (gap job))) = py - ?y"
    unfolding x y by (simp_all only: tile_offset)
  then show ?thesis
    by (simp only: tiled_def uint_nat)
qed

definition in_grid :: "img_job \<Rightarrow> img_canvas \<Rightarrow> region" where
  "in_grid job c px py \<longleftrightarrow> (\<exists>d \<in> set (grid_cells job c). cell_area d px py)"

lemma grid_cells_set:
  assumes "1 \<le> unat (cols job)"
  shows "set (grid_cells job c) = {grid_cell job c row col | row col. row < unat (rows job) \<and> col < unat (cols job)}"
proof -
  have "\<exists>i < R * C. row = i div C \<and> col = i mod C" if "row < R" "col < C" for row col R C :: nat
    using that row_col_bound by (intro exI [of _ "row * C + col"]) simp
  moreover have "i div C < R" "i mod C < C" if "i < R * C" "1 \<le> C" for i R C :: nat
    using that by (simp_all add: less_mult_imp_div_less)
  ultimately show ?thesis
    using assms unfolding grid_cells_def by (fastforce simp: image_iff)
qed

lemma blit_cells_draws:
  assumes ok: "canvas_ok job c (length s)" and T: "T = rgb_desc mem (photo_w_px c) (photo_h_px c)" "mem \<noteq> NULL"
    and view: "rgb_view T (length m)"
  shows "draws (buf c) (foreach [0..<unat (rows job)] (\<lambda>row. foreach [0..<unat (cols job)] (blit_cell c T m job row))) s
    (in_grid job c) (tiled job c (px_at T m))"
proof -
  have gf: "grid_fits job c" and vw: "rgb_view (buf c) (length s)" and wh: "width (buf c) = page_w_px c"
    "height (buf c) = page_h_px c" "data (buf c) \<noteq> NULL"
    using ok by (simp_all add: canvas_ok_def)
  have cell: "draws (buf c) (blit_cell c T m job row col) s' (cell_area (grid_cell job c row col)) (tiled job c (px_at T m))"
    if rc: "row < unat (rows job)" "col < unat (cols job)" and len: "length s' = length s" for row col s'
  proof -
    note pos = grid_cell_position [OF gf rc]
    have sz: "0 < W T" "3 * W T < 2 ^ 32 - 32" "unat (cell_x (grid_cell job c row col)) + W T \<le> W (buf c)"
      "unat (cell_y (grid_cell job c row col)) + H T \<le> H (buf c)"
      using grid_fitsD [OF gf] pos(3,4) wh T(1) by simp_all
    let ?x = "uint (cell_x (grid_cell job c row col))" and ?y = "uint (cell_y (grid_cell job c row col))"
    have "draws (buf c) (blit_cell c T m job row col) s' (rect ?x ?y (uint (width T)) (uint (height T)))
        (\<lambda>px py k. px_at T m (px - ?x) (py - ?y) k)"
      unfolding blit_cell_def using vw len view wh T sz by (intro blit_draws) simp_all
    moreover have "rect ?x ?y (uint (width T)) (uint (height T)) = cell_area (grid_cell job c row col)"
      by (simp add: cell_area_def grid_cell_def T(1) fun_eq_iff)
    ultimately have "draws (buf c) (blit_cell c T m job row col) s' (cell_area (grid_cell job c row col))
        (\<lambda>px py k. px_at T m (px - ?x) (py - ?y) k)" by simp
    then show ?thesis
      unfolding draws_def
    proof (rule paints_cong)
      fix i assume i: "in_region (buf c) (cell_area (grid_cell job c row col)) i"
      have "px_at T m (px - ?x) (py - ?y) k = tiled job c (px_at T m) px py k"
        if "cell_area (grid_cell job c row col) px py" for px py k
        using that tiled_in_cell [OF gf rc] by simp
      then show "lift_v (buf c) (\<lambda>px py k. px_at T m (px - ?x) (py - ?y) k) i = lift_v (buf c) (tiled job c (px_at T m)) i"
        using i by (simp add: in_region_def lift_v_def)
    qed simp
  qed
  have row: "draws (buf c) (foreach [0..<unat (cols job)] (blit_cell c T m job row)) s'
      (\<lambda>px py. \<exists>col \<in> set [0..<unat (cols job)]. cell_area (grid_cell job c row col) px py) (tiled job c (px_at T m))"
    if "row < unat (rows job)" "length s' = length s" for row s'
    by (rule draws_foreach) (use that vw cell in \<open>simp_all\<close>)
  have "draws (buf c) (foreach [0..<unat (rows job)] (\<lambda>row. foreach [0..<unat (cols job)] (blit_cell c T m job row))) s
      (\<lambda>px py. \<exists>row \<in> set [0..<unat (rows job)]. \<exists>col \<in> set [0..<unat (cols job)].
         cell_area (grid_cell job c row col) px py) (tiled job c (px_at T m))"
    by (rule draws_foreach [OF vw], rule row) simp_all
  then show ?thesis
    by (rule draws_cong) (simp add: in_grid_def grid_cells_set [OF grid_fitsD(1) [OF gf]], fastforce)
qed

section \<open>The whole layout, for any preparation that meets the contract\<close>

lemma tiled_cong:
  assumes gf: "grid_fits job c" and gr: "in_grid job c px py" and T: "T = rgb_desc mem (photo_w_px c) (photo_h_px c)"
    and eq: "\<And>x y. on_canvas T x y \<Longrightarrow> V x y k = V' x y k"
  shows "tiled job c V px py k = tiled job c V' px py k"
proof -
  obtain row col where rc: "row < unat (rows job)" "col < unat (cols job)" "cell_area (grid_cell job c row col) px py"
    using gr by (auto simp: in_grid_def grid_cells_set [OF grid_fitsD(1) [OF gf]])
  have "on_canvas T (px - uint (cell_x (grid_cell job c row col))) (py - uint (cell_y (grid_cell job c row col)))"
    using rc(3) by (simp add: on_canvas_def T cell_area_def rect_def grid_cell_def)
  then show ?thesis using eq by (simp add: tiled_in_cell [OF gf rc])
qed

lemma cells_size:
  assumes "grid_fits job c"
  shows "unat (cols job * rows job) = unat (rows job) * unat (cols job)"
    and "unat (sizeof_img_cell * ucast (cols job * rows job) :: u64) \<le> 2 ^ 62"
proof -
  have "unat (cols job) * unat (rows job) < 2 ^ 16 * 2 ^ 16"
    using grid_fitsD(1,2,9,10) [OF assms] by (intro mult_strict_mono) simp_all
  then show n: "unat (cols job * rows job) = unat (rows job) * unat (cols job)"
    by (simp add: unat_mult_small mult.commute)
  have "unat (sizeof_img_cell * ucast (cols job * rows job) :: u64) = 16 * unat (cols job * rows job)"
    using unat_lt_u32 [of "cols job * rows job"] unat_mult_small [of "16 :: u64" "ucast (cols job * rows job)"]
    by (simp add: sizeof_img_cell_def)
  then show "unat (sizeof_img_cell * ucast (cols job * rows job) :: u64) \<le> 2 ^ 62"
    using unat_lt_u32 [of "cols job * rows job"] by simp
qed

lemma arena_room_not_null:
  assumes "arena_wf a"
  shows "base a + offset a \<noteq> NULL"
proof -
  have "unat (base a + offset a) = unat (base a) + unat (offset a)"
    using arena_wfD [OF assms] by (intro unat_base_add assms)
  then show ?thesis using arena_wfD(1) [OF assms] by (metis add_is_0 unat_0 unat_eq_zero)
qed

lemma place_cells:
  assumes ok: "canvas_ok job c (length s)" and T: "T = rgb_desc mem (photo_w_px c) (photo_h_px c)" "mem \<noteq> NULL"
    and view: "rgb_view T (length m)"
  shows "\<exists>t. foreach [0..<unat (rows job)] (\<lambda>row. foreach [0..<unat (cols job)] (place_cell c T m job row))
      (s, replicate (unat (cols job * rows job)) None) = Some (t, map Some (grid_cells job c)) \<and> length t = length s \<and>
    (\<forall>px py k. on_canvas (buf c) px py \<longrightarrow> k < 3 \<longrightarrow> px_at (buf c) t px py k =
       (if in_grid job c px py then tiled job c (px_at T m) px py k else px_at (buf c) s px py k))"
proof -
  have vw: "rgb_view (buf c) (length s)" and gf: "grid_fits job c" using ok by (simp_all add: canvas_ok_def)
  obtain t where t: "foreach [0..<unat (rows job)] (\<lambda>row. foreach [0..<unat (cols job)] (blit_cell c T m job row)) s = Some t"
    "length t = length s" "\<forall>px py k. on_canvas (buf c) px py \<longrightarrow> k < 3 \<longrightarrow> px_at (buf c) t px py k =
       (if in_grid job c px py then tiled job c (px_at T m) px py k else px_at (buf c) s px py k)"
    using draws_exec [OF blit_cells_draws [OF ok T view] vw] by blast
  have "foreach [0..<unat (rows job)] (\<lambda>row. foreach [0..<unat (cols job)] (place_cell c T m job row))
      (s, replicate (unat (cols job * rows job)) None) = Some (t, map Some (grid_cells job c))"
  proof (rule foreach_pair [OF _ t(1)])
    show "foreach [0..<unat (rows job)] (\<lambda>row. foreach [0..<unat (cols job)] (note_cell c job row))
        (replicate (unat (cols job * rows job)) None) = Some (map Some (grid_cells job c))"
      by (subst note_cells) (simp_all add: cells_size(1) [OF gf] grid_cells_def comp_def)
  qed (rule foreach_pair, rule place_cell_split [OF ok], auto)
  with t show ?thesis by blast
qed

text \<open>The canvas bytes after the layout, when every cell shows the picture \<open>V\<close>.\<close>

definition laid_out :: "img_job \<Rightarrow> img_canvas \<Rightarrow> (int \<Rightarrow> int \<Rightarrow> nat \<Rightarrow> u8) \<Rightarrow> bytes \<Rightarrow> bytes \<Rightarrow> bool" where
  "laid_out job c V s t \<longleftrightarrow> length t = length s \<and>
     (\<forall>px py k. on_canvas (buf c) px py \<longrightarrow> k < 3 \<longrightarrow> px_at (buf c) t px py k =
        (if in_grid job c px py then tiled job c V px py k else px_at (buf c) s px py k))"

text \<open>The array of cells does not fit the scratch arena.\<close>

definition cells_too_big :: "img_job \<Rightarrow> img_arena \<Rightarrow> bool" where
  "cells_too_big job a \<longleftrightarrow>
     unat (asize a) < unat (offset a) + unat (align64 (sizeof_img_cell * ucast (cols job * rows job)))"

context photo_preparer
begin

lemma layout_with_spec:
  assumes wf: "slab_wf h s xs" and src: "photo_ok h xs photo" and blk: "unat (block_size s) < 2 ^ 32"
    and cv: "canvas_ok job c (length (h (data (buf c))))" "data (buf c) \<notin> set xs" and ar: "arena_wf a"
  shows "\<exists>r out a' s' h' xs'. layout_with prep c photo job a (Some s) h = Some (r, out, a', Some s', h') \<and> arena_wf a' \<and>
    (if r = IMG_SUCCESS
     then out = Some (map Some (grid_cells job c)) \<and>
       (\<exists>t. laid_out job c (content photo (h (data photo)) (photo_w_px c) (photo_h_px c)) (h (data (buf c))) t \<and>
         pool_kept (h(data (buf c) := t)) s xs h' s' xs')
     else r = IMG_ERR_NOMEM \<and> out = None \<and> pool_kept h s xs h' s' xs' \<and>
       (length xs < 2 \<or> unat (block_size s) < room photo (photo_w_px c) (photo_h_px c) \<or> cells_too_big job a))"
    (is "\<exists>r out a' s' h' xs'. _ \<and> _ \<and> ?post r out s' h' xs'")
proof -
  have gf: "grid_fits job c" using cv(1) by (simp add: canvas_ok_def)
  have dim: "0 < photo_w_px c" "unat (photo_w_px c) < 2 ^ 16" "0 < photo_h_px c" "unat (photo_h_px c) < 2 ^ 16"
    using grid_fitsD [OF gf] by (simp_all add: word_less_nat_alt)
  show ?thesis
    using prep_spec [OF wf src blk dim, of empty_buffer]
  proof (elim disjE exE conjE)
    fix dst' s' h' xs'
    assume pr: "prep photo empty_buffer (photo_w_px c) (photo_h_px c) (Some s) h = Some (IMG_ERR_NOMEM, dst', Some s', h')"
      and kept: "pool_kept h s xs h' s' xs'" "length xs < 2"
    then have "layout_with prep c photo job a (Some s) h = Some (IMG_ERR_NOMEM, None, a, Some s', h')" by (simp add: layout_with_def)
    moreover have "?post IMG_ERR_NOMEM None s' h' xs'" using kept by simp
    ultimately show ?thesis using ar by blast
  next
    fix dst' s' h' xs'
    assume pr: "prep photo empty_buffer (photo_w_px c) (photo_h_px c) (Some s) h = Some (IMG_ERR_NOMEM, dst', Some s', h')"
      and kept: "pool_kept h s xs h' s' xs'" "unat (block_size s) < room photo (photo_w_px c) (photo_h_px c)"
    then have "layout_with prep c photo job a (Some s) h = Some (IMG_ERR_NOMEM, None, a, Some s', h')" by (simp add: layout_with_def)
    moreover have "?post IMG_ERR_NOMEM None s' h' xs'" using kept by simp
    ultimately show ?thesis using ar by blast
  next
    fix mem s1 h1 xs1
    define T where "T = rgb_desc mem (photo_w_px c) (photo_h_px c)"
    assume pr: "prep photo empty_buffer (photo_w_px c) (photo_h_px c) (Some s) h =
        Some (IMG_SUCCESS, rgb_desc mem (photo_w_px c) (photo_h_px c), Some s1, h1)"
      and took: "pool_took mem h s xs h1 s1 xs1" and view: "rgb_view (rgb_desc mem (photo_w_px c) (photo_h_px c)) (length (h1 mem))"
      and val: "\<forall>px py k. on_canvas (rgb_desc mem (photo_w_px c) (photo_h_px c)) px py \<longrightarrow> k < 3 \<longrightarrow>
        px_at (rgb_desc mem (photo_w_px c) (photo_h_px c)) (h1 mem) px py k =
        content photo (h (data photo)) (photo_w_px c) (photo_h_px c) px py k"
    have hc: "h1 (data (buf c)) = h (data (buf c))" using took cv(2) by (simp add: pool_took_def)
    have mem: "mem \<noteq> NULL" using took by (simp add: pool_took_def)
    show ?thesis
      using ar cells_size(2) [OF gf]
    proof (cases rule: arena_alloc_cases)
      case full
      obtain s2 h2 where "img_slab_free (Some s1) mem h1 = Some (Some s2, h2)" "pool_kept h s xs h2 s2 (mem # xs1)"
        using pool_took_free [OF took] by metis
      then have "layout_with prep c photo job a (Some s) h = Some (IMG_ERR_NOMEM, None, a, Some s2, h2) \<and>
          arena_wf a \<and> ?post IMG_ERR_NOMEM None s2 h2 (mem # xs1)"
        using pr full ar by (simp add: layout_with_def cells_too_big_def Let_def)
      then show ?thesis by blast
    next
      case (room a')
      obtain t where t: "foreach [0..<unat (rows job)] (\<lambda>row. foreach [0..<unat (cols job)] (place_cell c T (h1 mem) job row))
          (h1 (data (buf c)), replicate (unat (cols job * rows job)) None) = Some (t, map Some (grid_cells job c))"
        "length t = length (h (data (buf c)))"
        and tv: "\<forall>px py k. on_canvas (buf c) px py \<longrightarrow> k < 3 \<longrightarrow> px_at (buf c) t px py k =
          (if in_grid job c px py then tiled job c (px_at T (h1 mem)) px py k else px_at (buf c) (h (data (buf c))) px py k)"
        using place_cells [OF cv(1) T_def mem view [folded T_def]] hc by auto
      have took2: "pool_took mem (h(data (buf c) := t)) s xs (h1(data (buf c) := t)) s1 xs1"
        using took cv(2) slab_client_write [of h1 s1 xs1 "data (buf c)" t] t(2) hc by (auto simp: pool_took_def)
      obtain s2 h2 where fr: "img_slab_free (Some s1) mem (h1(data (buf c) := t)) = Some (Some s2, h2)"
        "pool_kept (h(data (buf c) := t)) s xs h2 s2 (mem # xs1)"
        using pool_took_free [OF took2] by metis
      have "layout_with prep c photo job a (Some s) h = Some (IMG_SUCCESS, Some (map Some (grid_cells job c)), a', Some s2, h2)"
        using pr room(1) arena_room_not_null [OF ar] t(1) fr(1) by (simp add: layout_with_def T_def Let_def)
      moreover have "arena_wf a'" using ar room by (simp add: arena_wf_def)
      moreover have "tiled job c (px_at T (h1 mem)) px py k =
          tiled job c (content photo (h (data photo)) (photo_w_px c) (photo_h_px c)) px py k"
        if "in_grid job c px py" "k < 3" for px py k
        using val that by (intro tiled_cong [OF gf that(1) T_def]) (simp add: T_def)
      then have "?post IMG_SUCCESS (Some (map Some (grid_cells job c))) s2 h2 (mem # xs1)"
        using t(2) fr(2) tv by (auto simp: laid_out_def)
      ultimately show ?thesis by blast
    qed
  qed
qed

end

section \<open>Properties\<close>

lemma steps_apart:
  fixes i j w g :: nat
  assumes "i < j"
  shows "i * (w + g) + w + g \<le> j * (w + g)"
  using mult_le_mono1 [of "Suc i" j "w + g"] assms by simp

lemma grid_cells_apart:
  assumes gf: "grid_fits job c" and "d \<in> set (grid_cells job c)" "e \<in> set (grid_cells job c)"
  shows "apart (uint (gap job)) d e"
proof -
  obtain r1 c1 r2 c2 where rc: "r1 < unat (rows job)" "c1 < unat (cols job)" "r2 < unat (rows job)" "c2 < unat (cols job)"
    and de: "d = grid_cell job c r1 c1" "e = grid_cell job c r2 c2"
    using assms(2,3) unfolding grid_cells_set [OF grid_fitsD(1) [OF gf]] by auto
  note p = grid_cell_position(1,2) [OF gf rc(1,2)] grid_cell_position(1,2) [OF gf rc(3,4)]
  have x: "c1 = c2 \<or> unat (cell_x d) + unat (photo_w_px c) + unat (gap job) \<le> unat (cell_x e) \<or>
      unat (cell_x e) + unat (photo_w_px c) + unat (gap job) \<le> unat (cell_x d)"
    using steps_apart [of c1 c2 "unat (photo_w_px c)" "unat (gap job)"]
      steps_apart [of c2 c1 "unat (photo_w_px c)" "unat (gap job)"] p de by (cases c1 c2 rule: linorder_cases) auto
  have y: "r1 = r2 \<or> unat (cell_y d) + unat (photo_h_px c) + unat (gap job) \<le> unat (cell_y e) \<or>
      unat (cell_y e) + unat (photo_h_px c) + unat (gap job) \<le> unat (cell_y d)"
    using steps_apart [of r1 r2 "unat (photo_h_px c)" "unat (gap job)"]
      steps_apart [of r2 r1 "unat (photo_h_px c)" "unat (gap job)"] p de by (cases r1 r2 rule: linorder_cases) auto
  have int: "unat a + unat b + unat f \<le> unat z \<Longrightarrow> uint a + uint b + uint f \<le> uint z" for a b f z :: u32
    by (simp only: uint_nat of_nat_add [symmetric] of_nat_le_iff)
  show ?thesis
    using x y by (auto simp: apart_def de grid_cell_def intro!: int)
qed

lemma grid_cells_fit:
  assumes "canvas_ok job c n" and d: "d \<in> set (grid_cells job c)"
  shows "small_cell d" and "cell_fits (buf c) d"
proof -
  have gf: "grid_fits job c" and wh: "width (buf c) = page_w_px c" "height (buf c) = page_h_px c"
    using assms(1) by (simp_all add: canvas_ok_def)
  obtain row col where rc: "row < unat (rows job)" "col < unat (cols job)" and de: "d = grid_cell job c row col"
    using d unfolding grid_cells_set [OF grid_fitsD(1) [OF gf]] by auto
  have wh': "cell_w d = photo_w_px c" "cell_h d = photo_h_px c" by (simp_all add: de grid_cell_def)
  note p = grid_cell_position(3,4) [OF gf rc, folded de] and g = grid_fitsD [OF gf]
  have x: "uint (cell_x d) + uint (cell_w d) \<le> uint (page_w_px c)" "uint (cell_y d) + uint (cell_h d) \<le> uint (page_h_px c)"
    using p wh' by (auto intro: uint_sum_le)
  have pos: "0 < uint (cell_w d)" "0 < uint (cell_h d)"
    using g(3,4) wh' by (simp_all only: uint_nat of_nat_0_less_iff)
  have "uint (page_w_px c) < int (2 ^ 16)" "uint (page_h_px c) < int (2 ^ 16)"
    using g(7,8) by (simp_all only: int_compare_uint)
  then have lim: "uint (page_w_px c) < 65536" "uint (page_h_px c) < 65536" "(65536 :: int) \<le> 2 ^ 29" by simp_all
  show "small_cell d"
    unfolding small_cell_def using x lim pos uint_ge_0 [of "cell_x d"] uint_ge_0 [of "cell_y d"]
    by (intro conjI) linarith+
  show "cell_fits (buf c) d" using x lim pos by (simp add: cell_fits_def fits_def wh)
qed

text \<open>The photo that \<open>img_layout_grid\<close> puts into every cell, by the job's mode.\<close>

definition cell_content :: "img_job \<Rightarrow> img_buffer \<Rightarrow> bytes \<Rightarrow> u32 \<Rightarrow> u32 \<Rightarrow> int \<Rightarrow> int \<Rightarrow> nat \<Rightarrow> u8" where
  "cell_content job =
     (if scale_mode job = IMG_FIT then fit_content (bg_r job) (bg_g job) (bg_b job) else fill_content)"

definition cell_room :: "img_job \<Rightarrow> img_buffer \<Rightarrow> u32 \<Rightarrow> u32 \<Rightarrow> nat" where
  "cell_room job = (if scale_mode job = IMG_FIT then fit_room else fill_room)"

lemma layout_grid_spec:
  assumes "slab_wf h s xs" and "photo_ok h xs photo" and "unat (block_size s) < 2 ^ 32"
    and "canvas_ok job c (length (h (data (buf c))))" "data (buf c) \<notin> set xs" and "arena_wf a"
  shows "\<exists>r out a' s' h' xs'. img_layout_grid (Some c) (Some photo) (Some job) True (Some a) (Some s) h =
      Some (r, out, Some a', Some s', h') \<and> arena_wf a' \<and>
    (if r = IMG_SUCCESS
     then out = Some (map Some (grid_cells job c)) \<and>
       (\<exists>t. laid_out job c (cell_content job photo (h (data photo)) (photo_w_px c) (photo_h_px c)) (h (data (buf c))) t \<and> pool_kept (h(data (buf c) := t)) s xs h' s' xs')
     else r = IMG_ERR_NOMEM \<and> out = None \<and> pool_kept h s xs h' s' xs' \<and>
       (length xs < 2 \<or> unat (block_size s) < cell_room job photo (photo_w_px c) (photo_h_px c) \<or> cells_too_big job a))"
proof -
  define prep where "prep = (if scale_mode job = IMG_FIT then prepare_fit (bg_r job) (bg_g job) (bg_b job) else prepare_fill)"
  have "photo_preparer (cell_room job) prep (cell_content job)"
    using fit.photo_preparer_axioms fill.photo_preparer_axioms by (simp add: prep_def cell_content_def cell_room_def)
  note spec = photo_preparer.layout_with_spec [OF this assms]
  have "img_layout_grid (Some c) (Some photo) (Some job) True (Some a) (Some s) h =
      Option.bind (layout_with prep c photo job a (Some s) h) (\<lambda>(r, cs, arena, pool, h). Some (r, cs, Some arena, pool, h))"
    by (simp add: img_layout_grid_def prep_def)
  with spec show ?thesis by (elim exE conjE, intro exI conjI) (simp, assumption+)
qed

text \<open>
  C3. \<open>img_layout_grid\<close> on a canvas of \<open>img_canvas_init\<close>, for both modes: it runs without
  undefined behaviour; on success every cell of the grid is recorded (none is skipped), the
  cells lie on the canvas, are pairwise at least a gap apart, each shows the prepared photo
  and no other pixel changes; every slab block taken on the way is given back, on success and
  on failure.
\<close>

theorem layout_grid_correct:
  assumes "slab_wf h s xs" and "photo_ok h xs photo" and "unat (block_size s) < 2 ^ 32"
    and "canvas_ok job c (length (h (data (buf c))))" "data (buf c) \<notin> set xs" and "arena_wf a"
  shows "\<exists>r out a' s' h' xs'. img_layout_grid (Some c) (Some photo) (Some job) True (Some a) (Some s) h =
      Some (r, out, Some a', Some s', h') \<and> arena_wf a' \<and>
    (if r = IMG_SUCCESS
     then out = Some (map Some (grid_cells job c)) \<and>
       (\<exists>t. laid_out job c (cell_content job photo (h (data photo)) (photo_w_px c) (photo_h_px c)) (h (data (buf c))) t \<and> pool_kept (h(data (buf c) := t)) s xs h' s' xs')
     else r = IMG_ERR_NOMEM \<and> out = None \<and> pool_kept h s xs h' s' xs' \<and>
       (length xs < 2 \<or> unat (block_size s) < cell_room job photo (photo_w_px c) (photo_h_px c) \<or> cells_too_big job a)) \<and>
    (\<forall>d \<in> set (grid_cells job c). cell_fits (buf c) d \<and>
       (\<forall>e \<in> set (grid_cells job c). apart (uint (gap job)) d e))"
proof -
  have "grid_fits job c" using assms(4) by (simp add: canvas_ok_def)
  then have "\<forall>d \<in> set (grid_cells job c). cell_fits (buf c) d \<and>
      (\<forall>e \<in> set (grid_cells job c). apart (uint (gap job)) d e)"
    using grid_cells_fit(2) [OF assms(4)] grid_cells_apart by blast
  with layout_grid_spec [OF assms] show ?thesis by blast
qed

text \<open>A canvas of 4 by 4 pixels with one photo of 2 by 2, and a photo of 2 by 1.\<close>

definition grid_job :: img_job where
  "grid_job = img_job_defaults\<lparr>cols := 1, rows := 1, gap := 1, padding := 1\<rparr>"

definition grid_canvas :: img_canvas where
  "grid_canvas = \<lparr>buf = \<lparr>data = 4096, width = 4, height = 4, channels = 3, stride = 12\<rparr>,
     page_w_px = 4, page_h_px = 4, photo_w_px = 2, photo_h_px = 2, start_x = 1, start_y = 1\<rparr>"

definition grid_photo :: img_buffer where
  "grid_photo = \<lparr>data = 8192, width = 2, height = 1, channels = 3, stride = 6\<rparr>"

definition grid_heap :: heap where
  "grid_heap = demo_heap(4096 := replicate 48 255, 8192 := [1, 2, 3, 4, 5, 6])"

lemmas grid_defs = grid_job_def grid_canvas_def grid_photo_def grid_heap_def

lemma grid_demo:
  "slab_wf grid_heap demo_pool demo_free" "photo_ok grid_heap demo_free grid_photo" "unat (block_size demo_pool) < 2 ^ 32"
  "canvas_ok grid_job grid_canvas (length (grid_heap (data (buf grid_canvas))))"
  "data (buf grid_canvas) \<notin> set demo_free" "arena_wf \<lparr>base = 4096, asize = 1048576, offset = 64\<rparr>"
proof -
  have free: "4096 \<notin> set demo_free" "8192 \<notin> set demo_free"
    by (simp_all add: demo_free_def image_iff upt_rec)
  show "photo_ok grid_heap demo_free grid_photo"
    using free by (simp add: photo_ok_def grid_defs rgb_view_def)
  show "canvas_ok grid_job grid_canvas (length (grid_heap (data (buf grid_canvas))))"
    by (simp add: canvas_ok_def grid_fits_def grid_defs rgb_view_def img_job_defaults_def)
  show "data (buf grid_canvas) \<notin> set demo_free" using free by (simp add: grid_defs)
  show "arena_wf \<lparr>base = 4096, asize = 1048576, offset = 64\<rparr>" by (simp add: arena_wf_def)
  show "unat (block_size demo_pool) < 2 ^ 32" by (simp add: demo_pool_wf)
  show "slab_wf grid_heap demo_pool demo_free"
    unfolding grid_heap_def using free by (intro slab_other_write demo_pool_wf) (simp_all add: demo_pool_wf)
qed

theorem layout_grid_correct_witness:
  "\<exists>r out a' s' h' xs'. img_layout_grid (Some grid_canvas) (Some grid_photo) (Some grid_job) True (Some \<lparr>base = 4096, asize = 1048576, offset = 64\<rparr>) (Some demo_pool) grid_heap =
      Some (r, out, Some a', Some s', h') \<and> arena_wf a' \<and>
    (if r = IMG_SUCCESS
     then out = Some (map Some (grid_cells grid_job grid_canvas)) \<and>
       (\<exists>t. laid_out grid_job grid_canvas (cell_content grid_job grid_photo (grid_heap (data grid_photo)) (photo_w_px grid_canvas) (photo_h_px grid_canvas)) (grid_heap (data (buf grid_canvas))) t \<and> pool_kept (grid_heap(data (buf grid_canvas) := t)) demo_pool demo_free h' s' xs')
     else r = IMG_ERR_NOMEM \<and> out = None \<and> pool_kept grid_heap demo_pool demo_free h' s' xs' \<and>
       (length demo_free < 2 \<or> unat (block_size demo_pool) < cell_room grid_job grid_photo (photo_w_px grid_canvas) (photo_h_px grid_canvas) \<or>
        cells_too_big grid_job \<lparr>base = 4096, asize = 1048576, offset = 64\<rparr>)) \<and>
    (\<forall>d \<in> set (grid_cells grid_job grid_canvas). cell_fits (buf grid_canvas) d \<and>
       (\<forall>e \<in> set (grid_cells grid_job grid_canvas). apart (uint (gap grid_job)) d e))"
  by (rule layout_grid_correct [OF grid_demo])

text \<open>
  \<open>resize_nearest\<close> runs without undefined behaviour; unless memory is short (and then it
  changes nothing) it takes the first free block and fills it with the nearest-neighbour
  scaling: destination pixel \<open>(dx, dy)\<close> is the source pixel at the rounded-down scaled
  coordinates. The hypotheses on the products exclude the 32-bit wrap-around of \<open>dx * src->width\<close>.
\<close>

theorem resize_nearest_correct:
  assumes "slab_wf h s xs" and "photo_ok h xs src" and "unat (block_size s) < 2 ^ 32"
    and new: "0 < new_w" "unat new_w < 2 ^ 31" "0 < new_h" "unat new_h < 2 ^ 31"
    and small: "unat new_w * W src < 2 ^ 32" "unat new_h * H src < 2 ^ 32"
  shows "resize_nearest src dst new_w new_h (Some s) h = Some (IMG_ERR_NOMEM, dst, Some s, h) \<and>
      (xs = [] \<or> unat (block_size s) < 3 * unat new_w * unat new_h) \<or>
    (\<exists>s' h'. resize_nearest src dst new_w new_h (Some s) h = Some (IMG_SUCCESS, rgb_desc (hd xs) new_w new_h, Some s', h') \<and>
       slab_wf h' s' (tl xs) \<and> (\<forall>q. q \<noteq> hd xs \<longrightarrow> h' q = h q) \<and>
       (\<forall>dx < unat new_w. \<forall>dy < unat new_h. \<forall>k < 3.
          h' (hd xs) ! pix (unat new_w) dx dy k =
          h (data src) ! pix (W src) (dx * W src div unat new_w) (dy * H src div unat new_h) k))"
  using assms(1-3) new
proof (cases rule: resize_nearest_cases [where dst = dst])
  case (ok mem xs' s' h')
  have near: "unat (nearest (of_nat d) n m) = d * unat n div unat m"
    if "d < unat m" "unat m * unat n < 2 ^ 32" "n \<noteq> 0" for d and n m :: u32
  proof -
    have u: "unat (of_nat d :: u32) = d" using that(1) unat_lt_u32 [of m] by (simp add: unat_of_nat_small)
    have "d * unat n < 2 ^ 32" using mult_le_mono1 [of d "unat m" "unat n"] that(1,2) by (intro le_less_trans [OF _ that(2)]) simp
    then show ?thesis using nearest_exact [of "of_nat d" n m] that u by simp
  qed
  have "h' mem ! pix (unat new_w) dx dy k =
      h (data src) ! pix (W src) (dx * W src div unat new_w) (dy * H src div unat new_h) k"
    if "dx < unat new_w" "dy < unat new_h" "k < 3" for dx dy k
    using ok(12) [of "int dx" "int dy" k] that near [of dx new_w "width src"] near [of dy new_h "height src"]
      small photo_okD(3,4) [OF assms(2)]
    by (simp add: on_canvas_def px_at_def resized_def)
  with ok show ?thesis by auto
qed simp

theorem resize_nearest_correct_witness:
  "resize_nearest grid_photo empty_buffer 2 2 (Some demo_pool) grid_heap =
      Some (IMG_ERR_NOMEM, empty_buffer, Some demo_pool, grid_heap) \<and>
      (demo_free = [] \<or> unat (block_size demo_pool) < 3 * unat (2 :: u32) * unat (2 :: u32)) \<or>
    (\<exists>s' h'. resize_nearest grid_photo empty_buffer 2 2 (Some demo_pool) grid_heap =
         Some (IMG_SUCCESS, rgb_desc (hd demo_free) 2 2, Some s', h') \<and>
       slab_wf h' s' (tl demo_free) \<and> (\<forall>q. q \<noteq> hd demo_free \<longrightarrow> h' q = grid_heap q) \<and>
       (\<forall>dx < unat (2 :: u32). \<forall>dy < unat (2 :: u32). \<forall>k < 3.
          h' (hd demo_free) ! pix (unat (2 :: u32)) dx dy k =
          grid_heap (data grid_photo) ! pix (W grid_photo) (dx * W grid_photo div unat (2 :: u32))
            (dy * H grid_photo div unat (2 :: u32)) k))"
  by (rule resize_nearest_correct [OF grid_demo(1-3)]) (simp_all add: grid_photo_def)

end
