(* ===== verification/Validation.thy ===== *)
theory Validation
  imports Core_Types
begin

text \<open>
  The guards against hostile input: \<open>security/input_validator.c\<close>, \<open>cold/validation.c\<close>,
  \<open>security/bounds_check.h\<close>, the overflow check of \<open>io/decoder/decoder_entry.c\<close> and the
  seccomp filter of \<open>security/sandbox.c\<close>.
\<close>

section \<open>Image requests\<close>

definition MAX_PIXELS :: u64 where "MAX_PIXELS = 16384 * 16384"
definition MAX_RATIO :: u64 where "MAX_RATIO = 400"

definition img_security_validate_request :: "u32 \<Rightarrow> u32 \<Rightarrow> u64 \<Rightarrow> img_result" where
  "img_security_validate_request w h file_size =
     (if w = 0 \<or> h = 0 then IMG_ERR_SECURITY
      else if w > 16384 \<or> h > 16384 then IMG_ERR_SECURITY
      else let pixels = ucast w * ucast h :: u64 in
        if pixels = 0 \<or> pixels > MAX_PIXELS then IMG_ERR_SECURITY
        else if file_size = 0 then IMG_ERR_SECURITY
        else if pixels > file_size * MAX_RATIO then IMG_ERR_SECURITY
        else let required = pixels * 4 in
          if required > push_bit 32 1 then IMG_ERR_SECURITY
          else IMG_SUCCESS)"

definition UINT32_MAX :: u32 where "UINT32_MAX = 0xFFFFFFFF"
definition SIZE_MAX :: u64 where "SIZE_MAX = 0xFFFFFFFFFFFFFFFF"

definition MAX_IMG_DIM :: u32 where "MAX_IMG_DIM = 16384"
definition MAX_CHANNELS :: u32 where "MAX_CHANNELS = 4"

definition img_validate_header :: "u32 \<Rightarrow> u32 \<Rightarrow> u32 \<Rightarrow> img_result" where
  "img_validate_header w h ch =
     (if w = 0 \<or> h = 0 then IMG_ERR_FORMAT
      else if w > MAX_IMG_DIM \<or> h > MAX_IMG_DIM then IMG_ERR_SECURITY
      else if w > 0 \<and> h > UINT32_MAX div w then IMG_ERR_SECURITY
      else let pixels = ucast w * ucast h :: u64 in
        if pixels > MAX_PIXELS then IMG_ERR_SECURITY
        else if ch = 0 \<or> ch > MAX_CHANNELS then IMG_ERR_FORMAT
        else IMG_SUCCESS)"

section \<open>Pipeline descriptions\<close>

record img_op_desc =
  op_code :: u32
  op_params :: ptr

record img_pipeline_desc =
  ops :: "img_op_desc list"
  op_count :: u32

definition IMG_MAX_PIPELINE_OPS :: u32 where "IMG_MAX_PIPELINE_OPS = 32"

text \<open>The loop over the first \<open>n\<close> operations, with its early return; reading past the array is undefined.\<close>

fun ops_safe :: "img_op_desc list \<Rightarrow> nat \<Rightarrow> bool option" where
  "ops_safe ds 0 = Some True"
| "ops_safe [] (Suc n) = None"
| "ops_safe (d # ds) (Suc n) =
     (if op_code d = 0 \<or> op_code d \<ge> OP_CUSTOM_BASE then Some False else ops_safe ds n)"

definition img_validate_pipeline_safety :: "img_pipeline_desc option \<Rightarrow> bool option" where
  "img_validate_pipeline_safety pipe =
     (case pipe of
        None \<Rightarrow> Some False
      | Some p \<Rightarrow>
          if op_count p = 0 \<or> op_count p > IMG_MAX_PIPELINE_OPS then Some False
          else ops_safe (ops p) (unat (op_count p)))"

section \<open>Bounds and products\<close>

definition img_bounds_check :: "ptr \<Rightarrow> u64 \<Rightarrow> ptr \<Rightarrow> u64 \<Rightarrow> bool" where
  "img_bounds_check p sz b limit =
     (if p < b then False
      else let off = p - b in
        if off > limit then False else sz \<le> limit - off)"

text \<open>\<open>*out\<close> and the returned flag as an option.\<close>

definition safe_mul :: "u64 \<Rightarrow> u64 \<Rightarrow> u64 option" where
  "safe_mul a b =
     (if a = 0 \<or> b = 0 then Some 0
      else if a > SIZE_MAX div b then None
      else Some (a * b))"

section \<open>The system call filter\<close>

text \<open>
  A classic BPF program as the kernel runs it: \<open>BPF_LD\<close> loads the system call number,
  \<open>BPF_JEQ k jt jf\<close> skips \<open>jt\<close> or \<open>jf\<close> instructions, \<open>BPF_RET\<close> ends the program.
\<close>

datatype seccomp_ret = SECCOMP_RET_ALLOW | SECCOMP_RET_KILL

datatype sock_filter = BPF_LD_NR | BPF_JEQ u32 nat nat | BPF_RET seccomp_ret

fun bpf_run :: "sock_filter list \<Rightarrow> u32 \<Rightarrow> u32 \<Rightarrow> seccomp_ret option" where
  "bpf_run [] nr acc = None"
| "bpf_run (BPF_LD_NR # is) nr acc = bpf_run is nr nr"
| "bpf_run (BPF_JEQ k jt jf # is) nr acc = bpf_run (drop (if acc = k then jt else jf) is) nr acc"
| "bpf_run (BPF_RET r # is) nr acc = Some r"

definition ALLOW :: "u32 \<Rightarrow> sock_filter list" where
  "ALLOW syscall_nr = [BPF_JEQ syscall_nr 0 1, BPF_RET SECCOMP_RET_ALLOW]"

text \<open>The names in the order of the source; \<open>SYS\<close> is the table of the platform's headers.\<close>

definition allowed_syscalls :: "string list" where
  "allowed_syscalls =
    [''read'', ''write'', ''readv'', ''writev'', ''pread64'', ''pwrite64'',
     ''openat'', ''close'', ''fstat'', ''lseek'', ''stat'',
     ''mmap'', ''munmap'', ''mprotect'', ''mremap'', ''brk'',
     ''clone'', ''clone3'', ''futex'', ''set_robust_list'', ''get_robust_list'',
     ''sched_getaffinity'', ''sched_setaffinity'',
     ''io_uring_setup'', ''io_uring_enter'', ''io_uring_register'',
     ''clock_gettime'', ''clock_nanosleep'', ''nanosleep'',
     ''exit'', ''exit_group'', ''getpid'', ''gettid'', ''tgkill'', ''getcpu'',
     ''rt_sigaction'', ''rt_sigprocmask'', ''rt_sigreturn'', ''sigaltstack'',
     ''prctl'']"

definition sandbox_filter :: "(string \<Rightarrow> u32) \<Rightarrow> sock_filter list" where
  "sandbox_filter SYS =
     [BPF_LD_NR] @ concat (map (\<lambda>name. ALLOW (SYS name)) allowed_syscalls) @ [BPF_RET SECCOMP_RET_KILL]"

text \<open>
  \<open>enabled\<close> is the build switch \<open>IMG_SANDBOX_ENABLED\<close>; \<open>no_new_privs\<close> and \<open>set_seccomp\<close> are
  the results of the two \<open>prctl\<close> calls. The filter that is in force afterwards is the second
  component.
\<close>

definition img_security_enter_sandbox ::
  "bool \<Rightarrow> int \<Rightarrow> (sock_filter list \<Rightarrow> int) \<Rightarrow> (string \<Rightarrow> u32) \<Rightarrow> bool \<times> sock_filter list option" where
  "img_security_enter_sandbox enabled no_new_privs set_seccomp SYS =
     (if \<not> enabled then (True, None)
      else if no_new_privs \<noteq> 0 then (False, None)
      else if set_seccomp (sandbox_filter SYS) \<noteq> 0 then (False, None)
      else (True, Some (sandbox_filter SYS)))"

section \<open>Properties\<close>

lemma unat_pixels:
  fixes w h :: u32
  assumes "unat w \<le> 16384" and "unat h \<le> 16384"
  shows "unat (ucast w * ucast h :: u64) = unat w * unat h" and "unat w * unat h \<le> 268435456"
proof -
  show le: "unat w * unat h \<le> 268435456"
    using mult_le_mono [OF assms] by simp
  then show "unat (ucast w * ucast h :: u64) = unat w * unat h"
    using unat_mult_small [of "ucast w :: u64" "ucast h"] by simp
qed

lemma validate_request_spec:
  assumes "400 * unat file_size < 2 ^ 64"
  shows "img_security_validate_request w h file_size =
    (if 1 \<le> unat w \<and> unat w \<le> 16384 \<and> 1 \<le> unat h \<and> unat h \<le> 16384 \<and>
        0 < unat file_size \<and> unat w * unat h \<le> 400 * unat file_size
     then IMG_SUCCESS else IMG_ERR_SECURITY)"
proof (cases "1 \<le> unat w \<and> unat w \<le> 16384 \<and> 1 \<le> unat h \<and> unat h \<le> 16384")
  case True
  define p :: u64 where "p = ucast w * ucast h"
  have p: "unat p = unat w * unat h" "unat w * unat h \<le> 268435456"
    using True unat_pixels [of w h] by (simp_all add: p_def)
  have "unat p \<noteq> 0" using True p(1) by simp
  then have p0: "p \<noteq> 0" by auto
  have four: "unat (p * 4) = 4 * unat p"
    using p unat_mult_small [of p 4] by (simp add: mult.commute)
  have ratio: "unat (file_size * 400) = 400 * unat file_size"
    using assms unat_mult_small [of file_size 400] by simp
  have "w \<noteq> 0" "h \<noteq> 0" "\<not> w > 16384" "\<not> h > 16384"
    using True by (auto simp: word_less_nat_alt)
  moreover have "\<not> p > MAX_PIXELS" "\<not> p * 4 > push_bit 32 1"
    using p four by (simp_all add: word_less_nat_alt MAX_PIXELS_def mult.commute)
  moreover have "p > file_size * 400 \<longleftrightarrow> 400 * unat file_size < unat w * unat h"
    by (simp add: word_less_nat_alt ratio p)
  moreover have "file_size = 0 \<longleftrightarrow> \<not> 0 < unat file_size" by (simp add: unat_gt_0)
  ultimately show ?thesis
    using True p0 by (simp add: img_security_validate_request_def MAX_RATIO_def flip: p_def)
next
  case False
  then have "w = 0 \<or> h = 0 \<or> w > 16384 \<or> h > 16384"
    by (auto simp: word_less_nat_alt Suc_le_eq unat_gt_0)
  then show ?thesis
    using False by (auto simp: img_security_validate_request_def)
qed

text \<open>
  C23. \<open>img_security_validate_request\<close> accepts a request exactly when both sides are between 1
  and 16384, the file is not empty and there are at most 400 pixels per byte of the file; the
  pixel count, which is computed in 64 bits, never overflows. All other requests get
  \<open>IMG_ERR_SECURITY\<close>. The file is assumed small enough for \<open>file_size * 400\<close> to fit 64 bits.
\<close>

theorem validate_request_exact:
  assumes "400 * unat file_size < 2 ^ 64"
  shows "img_security_validate_request w h file_size =
    (if 1 \<le> unat w \<and> unat w \<le> 16384 \<and> 1 \<le> unat h \<and> unat h \<le> 16384 \<and>
        0 < unat file_size \<and> unat w * unat h \<le> 400 * unat file_size
     then IMG_SUCCESS else IMG_ERR_SECURITY)"
  by (rule validate_request_spec [OF assms])

theorem validate_request_exact_witness:
  "img_security_validate_request 1000 1000 2500 = IMG_SUCCESS \<and>
   img_security_validate_request 1000 1001 2500 = IMG_ERR_SECURITY"
  using validate_request_exact [of 2500 1000 1000] validate_request_exact [of 2500 1000 1001] by simp

text \<open>
  \<open>img_validate_header\<close>: a zero side is \<open>IMG_ERR_FORMAT\<close>, a side above 16384 is
  \<open>IMG_ERR_SECURITY\<close>, a channel count outside 1 to 4 is \<open>IMG_ERR_FORMAT\<close>, in this order of
  precedence, and every other header is accepted: the two overflow tests never fire after the
  limits on the sides.
\<close>

theorem validate_header_exact:
  "img_validate_header w h ch =
    (if unat w = 0 \<or> unat h = 0 then IMG_ERR_FORMAT
     else if 16384 < unat w \<or> 16384 < unat h then IMG_ERR_SECURITY
     else if unat ch = 0 \<or> 4 < unat ch then IMG_ERR_FORMAT
     else IMG_SUCCESS)"
proof (cases "unat w = 0 \<or> unat h = 0 \<or> 16384 < unat w \<or> 16384 < unat h")
  case False
  then have lim: "unat w \<le> 16384" "unat h \<le> 16384" "0 < unat w" by auto
  have "unat h * unat w \<le> 4294967295"
    using unat_pixels(2) [OF lim(1,2)] by (simp add: mult.commute)
  then have "unat h \<le> 4294967295 div unat w"
    using lim(3) by (simp add: less_eq_div_iff_mult_less_eq)
  then have "\<not> h > UINT32_MAX div w"
    by (simp add: word_less_nat_alt unat_div UINT32_MAX_def)
  moreover have "\<not> ucast w * ucast h > MAX_PIXELS"
    using unat_pixels [OF lim(1,2)] by (simp add: word_less_nat_alt MAX_PIXELS_def)
  ultimately show ?thesis
    using False
    by (auto simp: img_validate_header_def MAX_IMG_DIM_def MAX_CHANNELS_def word_less_nat_alt unat_eq_zero)
next
  case True
  then show ?thesis
    by (auto simp: img_validate_header_def MAX_IMG_DIM_def word_less_nat_alt unat_eq_zero)
qed

text \<open>
  \<open>img_bounds_check\<close> is exact and free of overflow: for an object of \<open>limit\<close> bytes at
  \<open>base\<close> it accepts exactly the ranges inside the object, whatever the 64-bit values are.
\<close>

theorem bounds_check_exact:
  "img_bounds_check p sz b limit \<longleftrightarrow> unat b \<le> unat p \<and> unat p + unat sz \<le> unat b + unat limit"
proof (cases "p < b")
  case False
  then have "unat (p - b) = unat p - unat b" and le: "unat b \<le> unat p"
    by (simp_all add: unat_sub_if' word_less_nat_alt)
  moreover have "unat (limit - (p - b)) = unat limit - unat (p - b)" if "\<not> p - b > limit"
    using that by (simp add: unat_sub_if' word_less_nat_alt)
  ultimately show ?thesis
    using False by (auto simp: img_bounds_check_def Let_def word_less_nat_alt word_le_nat_alt)
qed (simp add: img_bounds_check_def word_less_nat_alt)

text \<open>\<open>safe_mul\<close> detects every overflow and nothing else.\<close>

lemma safe_mul_exact:
  "safe_mul a b = (if unat a * unat b < 2 ^ 64 then Some (a * b) else None)"
proof (cases "a = 0 \<or> b = 0")
  case False
  then have b: "0 < unat b" by (simp add: unat_gt_0)
  have "a > SIZE_MAX div b \<longleftrightarrow> 18446744073709551615 div unat b < unat a"
    by (simp add: word_less_nat_alt unat_div SIZE_MAX_def)
  also have "\<dots> \<longleftrightarrow> \<not> unat a * unat b \<le> 18446744073709551615"
    using b by (auto simp: div_less_iff_less_mult)
  finally show ?thesis
    using False by (auto simp: safe_mul_def)
qed (auto simp: safe_mul_def)

lemma ops_safe_exact:
  assumes "n \<le> length ds"
  shows "ops_safe ds n = Some (\<forall>d \<in> set (take n ds). op_code d \<noteq> 0 \<and> op_code d < OP_CUSTOM_BASE)"
  using assms
proof (induction ds n rule: ops_safe.induct)
  case (3 d ds n)
  then show ?case by auto
qed simp_all

text \<open>
  An accepted pipeline has 1 to 32 operations with op-codes between 1 and \<open>0xFFF\<close>: more than
  the 256 entries of the jump table the compiler indexes with them.
\<close>

lemma pipeline_safety_accepts_large_opcode:
  "img_validate_pipeline_safety (Some \<lparr>ops = [\<lparr>op_code = 0xFFF, op_params = NULL\<rparr>], op_count = 1\<rparr>) = Some True"
  by (simp add: img_validate_pipeline_safety_def IMG_MAX_PIPELINE_OPS_def OP_CUSTOM_BASE_def)

lemma bpf_allow_list:
  "bpf_run (concat (map ALLOW ks) @ [BPF_RET SECCOMP_RET_KILL]) nr acc =
    Some (if acc \<in> set ks then SECCOMP_RET_ALLOW else SECCOMP_RET_KILL)"
  by (induction ks) (auto simp: ALLOW_def)

text \<open>
  C24. The seccomp filter allows exactly the listed system calls and kills the process on every
  other number, for every numbering of the calls by the platform: the jump offsets of the
  generated program skip exactly the right instructions and control never runs off its end.
\<close>

theorem sandbox_filter_exact:
  "bpf_run (sandbox_filter SYS) nr acc =
    Some (if nr \<in> SYS ` set allowed_syscalls then SECCOMP_RET_ALLOW else SECCOMP_RET_KILL)"
  using bpf_allow_list [of "map SYS allowed_syscalls" nr nr]
  by (simp add: sandbox_filter_def comp_def)

text \<open>
  The filter does not look at the architecture of the call, so on x86-64 a call made through
  the 32-bit entry is judged by the 64-bit table: number 11, \<open>munmap\<close> there, is \<open>execve\<close> in
  the 32-bit table and passes.
\<close>

lemma sandbox_ignores_arch:
  assumes "SYS ''munmap'' = 11"
  shows "bpf_run (sandbox_filter SYS) 11 acc = Some SECCOMP_RET_ALLOW"
proof -
  have "11 \<in> SYS ` set allowed_syscalls"
    using assms by (intro image_eqI [of _ _ "''munmap''"]) (simp_all add: allowed_syscalls_def)
  then show ?thesis
    using bpf_allow_list [of "map SYS allowed_syscalls" 11 11]
    by (simp add: sandbox_filter_def comp_def)
qed

end
