(* ===== verification/Decoder.thy ===== *)
theory Decoder
  imports Layout Validation
begin

text \<open>
  Decoding into the slab pool: \<open>io/decoder/decoder_entry.c\<close>, \<open>io/decoder/stb_bridge.c\<close>,
  \<open>io/decoder/streaming_decoder.c\<close> and the streams of \<open>io/vfs/memory_stream.c\<close> and
  \<open>io/vfs/http_stream.c\<close>. The codec libraries are parameters.
\<close>

section \<open>The codec libraries\<close>

text \<open>
  What the code calls of libjpeg-turbo. A C \<open>int\<close> is a 32-bit word here, so that the casts of
  the source are the casts of the model. \<open>tjDecompressHeader3\<close> gives the dimensions or fails.
  \<open>tjDecompress2\<close> gives its success flag and the bytes it wrote from the start of the
  destination; it writes at most \<open>pitch * height\<close> of them, and a smaller destination is
  undefined. \<open>tjCompress2\<close> takes the pixels, width, pitch, height and quality.
\<close>

record turbojpeg =
  tjInitDecompress :: bool
  tjInitCompress :: bool
  tjDecompressHeader3 :: "bytes \<Rightarrow> (u32 \<times> u32) option"
  tjDecompress2 :: "bytes \<Rightarrow> u32 \<Rightarrow> u32 \<Rightarrow> u32 \<Rightarrow> bool \<times> bytes"
  tjCompress2 :: "bytes \<Rightarrow> u32 \<Rightarrow> u32 \<Rightarrow> u32 \<Rightarrow> nat \<Rightarrow> bytes option"

definition overlay :: "nat \<Rightarrow> bytes \<Rightarrow> bytes \<Rightarrow> bytes" where
  "overlay n px m = take n px @ drop (length (take n px)) m"

definition tj_write :: "turbojpeg \<Rightarrow> bytes \<Rightarrow> u32 \<Rightarrow> u32 \<Rightarrow> u32 \<Rightarrow> bytes \<Rightarrow> (bool \<times> bytes) option" where
  "tj_write tj inp w pitch ht m =
     (let n = unat pitch * unat ht; (ok, px) = tjDecompress2 tj inp w pitch ht in
      if n \<le> length m then Some (ok, overlay n px m) else None)"

text \<open>\<open>stbi_load_from_memory\<close> with three components: the dimensions and the pixels.\<close>

type_synonym stb_load = "bytes \<Rightarrow> (u32 \<times> u32 \<times> bytes) option"

section \<open>JPEG\<close>

text \<open>
  \<open>img_decode_to_buffer\<close>: the input is its address and its bytes, and \<open>size\<close> their number;
  \<open>pool\<close> is \<open>ctx->local_pool\<close>.
\<close>

definition img_decode_to_buffer ::
  "turbojpeg \<Rightarrow> bool \<Rightarrow> (ptr \<times> bytes) option \<Rightarrow> img_buffer option \<Rightarrow> img_slab_pool option \<Rightarrow> heap \<Rightarrow>
   (img_result \<times> img_buffer option \<times> img_slab_pool option \<times> heap) option" where
  "img_decode_to_buffer tj ctx_given input out pool h =
     (case (input, out) of
        (Some (addr, inp), Some _) \<Rightarrow>
          let size = (of_nat (length inp) :: u64) in
          if \<not> ctx_given \<or> size = 0 then Some (IMG_ERR_SECURITY, out, pool, h)
          else if \<not> img_bounds_check addr size addr size then Some (IMG_ERR_SECURITY, out, pool, h)
          else if \<not> tjInitDecompress tj then Some (IMG_ERR_NOMEM, out, pool, h)
          else (case tjDecompressHeader3 tj inp of
              None \<Rightarrow> Some (IMG_ERR_FORMAT, out, pool, h)
            | Some (w, ht) \<Rightarrow>
                let sec = img_security_validate_request w ht size in
                if sec \<noteq> IMG_SUCCESS then Some (sec, out, pool, h)
                else (case safe_mul (scast w) 3 of
                    None \<Rightarrow> Some (IMG_ERR_SECURITY, out, pool, h)
                  | Some strd \<Rightarrow>
                      (case safe_mul strd (scast ht) of
                         None \<Rightarrow> Some (IMG_ERR_SECURITY, out, pool, h)
                       | Some required \<Rightarrow>
                           let block = img_slab_block_size pool in
                           if required > block then Some (IMG_ERR_NOMEM, out, pool, h)
                           else do {
                             (mem, pool) \<leftarrow> img_slab_alloc pool h;
                             if mem = NULL then Some (IMG_ERR_NOMEM, out, pool, h)
                             else do {
                               (ok, m) \<leftarrow> tj_write tj inp w (ucast strd) ht (h mem);
                               let h = h(mem := m);
                               if \<not> ok then do {
                                 (pool, h) \<leftarrow> img_slab_free pool mem h;
                                 Some (IMG_ERR_FORMAT, out, pool, h) }
                               else if \<not> img_bounds_check mem required mem block then do {
                                 (pool, h) \<leftarrow> img_slab_free pool mem h;
                                 Some (IMG_ERR_SECURITY, out, pool, h) }
                               else Some (IMG_SUCCESS,
                                 Some \<lparr>data = mem, width = w, height = ht, channels = 3, stride = ucast strd\<rparr>,
                                 pool, h) } })))
      | _ \<Rightarrow> Some (IMG_ERR_SECURITY, out, pool, h))"

section \<open>stb\<close>

text \<open>The product of two C \<open>int\<close> values, undefined when it overflows.\<close>

definition int_mul :: "u32 \<Rightarrow> u32 \<Rightarrow> u32 option" where
  "int_mul a b = (if - (2 ^ 31) \<le> sint a * sint b \<and> sint a * sint b < 2 ^ 31 then Some (a * b) else None)"

definition img_decode_stb ::
  "stb_load \<Rightarrow> bytes \<Rightarrow> img_buffer \<Rightarrow> img_slab_pool option \<Rightarrow> heap \<Rightarrow>
   (img_result \<times> img_buffer \<times> img_slab_pool option \<times> heap) option" where
  "img_decode_stb stb inp out pool h =
     (case stb inp of
        None \<Rightarrow> Some (IMG_ERR_FORMAT, out, pool, h)
      | Some (w, ht, decoded) \<Rightarrow>
          let required = scast w * scast ht * 3; block = img_slab_block_size pool in
          if required > block then Some (IMG_ERR_NOMEM, out, pool, h)
          else do {
            (mem, pool) \<leftarrow> img_slab_alloc pool h;
            if mem = NULL then Some (IMG_ERR_NOMEM, out, pool, h)
            else do {
              m \<leftarrow> copy_bytes decoded 0 0 (unat required) (h mem);
              strd \<leftarrow> int_mul w 3;
              Some (IMG_SUCCESS, \<lparr>data = mem, width = w, height = ht, channels = 3, stride = strd\<rparr>,
                pool, h(mem := m)) } })"

section \<open>Streams\<close>

record img_stream =
  sdata :: "ptr \<times> bytes"
  ssize :: u64
  spos :: u64

definition img_vfs_open_mem :: "img_stream option \<Rightarrow> (ptr \<times> bytes) option \<Rightarrow> u64 \<Rightarrow> img_result \<times> img_stream option" where
  "img_vfs_open_mem stream d n =
     (case (stream, d) of
        (Some _, Some d) \<Rightarrow>
          if n = 0 then (IMG_ERR_FORMAT, stream)
          else (IMG_SUCCESS, Some \<lparr>sdata = d, ssize = n, spos = 0\<rparr>)
      | _ \<Rightarrow> (IMG_ERR_FORMAT, stream))"

text \<open>The destination is its bytes; the last component is \<open>*read_bytes\<close>.\<close>

definition img_vfs_read :: "img_stream \<Rightarrow> bytes \<Rightarrow> u64 \<Rightarrow> (img_result \<times> img_stream \<times> bytes \<times> u64) option" where
  "img_vfs_read stream dst n =
     (let available = ssize stream - spos stream; to_copy = (if n < available then n else available) in
      do {
        (stream, dst) \<leftarrow> (if to_copy > 0 then do {
            dst \<leftarrow> copy_bytes (snd (sdata stream)) (unat (spos stream)) 0 (unat to_copy) dst;
            Some (stream\<lparr>spos := spos stream + to_copy\<rparr>, dst) }
          else Some (stream, dst));
        Some (if to_copy = n then IMG_SUCCESS else IMG_ERR_FORMAT, stream, dst, to_copy) })"

text \<open>\<open>http_stream.c\<close>: the fetch is a stub that fails and receives nothing.\<close>

definition img_http_fetch_range :: "int \<times> u64" where
  "img_http_fetch_range = (- 1, 0)"

definition img_http_fetch_full :: "int \<times> bytes option \<times> u64" where
  "img_http_fetch_full = (- 1, None, 0)"

definition img_vfs_http_read :: "u64 \<Rightarrow> u64 \<Rightarrow> img_result \<times> u64 \<times> u64" where
  "img_vfs_http_read pos n =
     (let (ret, received) = img_http_fetch_range in
      if ret \<noteq> 0 then (IMG_ERR_IO, pos, received) else (IMG_SUCCESS, pos + received, received))"

section \<open>Streaming decoder\<close>

definition HEADER_SIZE :: u64 where "HEADER_SIZE = 1024"

text \<open>Two blocks given back before an error return.\<close>

definition free2 :: "ptr \<Rightarrow> ptr \<Rightarrow> img_slab_pool option \<Rightarrow> heap \<Rightarrow> (img_slab_pool option \<times> heap) option" where
  "free2 tmp mem pool h = do { (pool, h) \<leftarrow> img_slab_free pool tmp h; img_slab_free pool mem h }"

definition img_decode_stream ::
  "turbojpeg \<Rightarrow> bool \<Rightarrow> img_stream option \<Rightarrow> img_buffer option \<Rightarrow> img_slab_pool option \<Rightarrow> heap \<Rightarrow>
   (int \<times> img_stream option \<times> img_buffer option \<times> img_slab_pool option \<times> heap) option" where
  "img_decode_stream tj ctx_given stream out pool h =
     (case (stream, out) of
        (Some st, Some _) \<Rightarrow>
          if \<not> ctx_given then Some (- 1, stream, out, pool, h)
          else do {
            (r, st, header, got) \<leftarrow> img_vfs_read st (replicate 1024 0) HEADER_SIZE;
            if r \<noteq> IMG_SUCCESS \<or> \<not> tjInitDecompress tj then Some (- 1, Some st, out, pool, h)
            else (case tjDecompressHeader3 tj (take (unat got) header) of
                None \<Rightarrow> Some (- 1, Some st, out, pool, h)
              | Some (w, ht) \<Rightarrow>
                  if img_security_validate_request w ht (ssize st) \<noteq> IMG_SUCCESS then Some (- 1, Some st, out, pool, h)
                  else do {
                    w3 \<leftarrow> int_mul w 3;
                    let strd = scast w3;
                    let required = strd * scast ht;
                    if required > img_slab_block_size pool then Some (- 1, Some st, out, pool, h)
                    else do {
                      (mem, pool) \<leftarrow> img_slab_alloc pool h;
                      if mem = NULL then Some (- 1, Some st, out, pool, h)
                      else do {
                        (tmp, pool) \<leftarrow> img_slab_alloc pool h;
                        if tmp = NULL then do {
                          (pool, h) \<leftarrow> img_slab_free pool mem h;
                          Some (- 1, Some st, out, pool, h) }
                        else do {
                          (r, st, t, got) \<leftarrow> img_vfs_read st (h tmp) required;
                          let h = h(tmp := t);
                          if r \<noteq> IMG_SUCCESS \<or> \<not> img_bounds_check tmp got (fst (sdata st)) (ssize st) then do {
                            (pool, h) \<leftarrow> free2 tmp mem pool h;
                            Some (- 1, Some st, out, pool, h) }
                          else do {
                            (ok, m) \<leftarrow> tj_write tj (take (unat got) t) w (ucast strd) ht (h mem);
                            let h = h(mem := m);
                            if \<not> ok then do {
                              (pool, h) \<leftarrow> free2 tmp mem pool h;
                              Some (- 1, Some st, out, pool, h) }
                            else do {
                              (pool, h) \<leftarrow> img_slab_free pool tmp h;
                              Some (0, Some st, Some \<lparr>data = mem, width = w, height = ht, channels = 3, stride = w3\<rparr>,
                                pool, h) } } } } } }) }
      | _ \<Rightarrow> Some (- 1, stream, out, pool, h))"

section \<open>Taking a block\<close>

lemma length_overlay [simp]: "n \<le> length m \<Longrightarrow> length (overlay n px m) = length m"
  by (simp add: overlay_def)

lemma tj_write_length: "tj_write tj inp w p ht m = Some (ok, m') \<Longrightarrow> length m' = length m"
  by (auto simp: tj_write_def Let_def split: prod.splits if_splits)

lemma pool_kept_refl: "slab_wf h s xs \<Longrightarrow> pool_kept h s xs h s xs"
  by (simp add: pool_kept_def)

text \<open>An allocation from a well-formed pool, with what the client then writes into its block.\<close>

lemma slab_take:
  assumes wf: "slab_wf h s xs"
  shows "img_slab_alloc (Some s) h = Some (NULL, Some s) \<and> xs = [] \<or>
    (\<exists>mem s'. img_slab_alloc (Some s) h = Some (mem, Some s') \<and> mem \<noteq> NULL \<and>
       length (h mem) = unat (block_size s) \<and> mem \<in> blocks s \<and> xs = mem # tl xs \<and>
       (\<forall>m. length m = length (h mem) \<longrightarrow> pool_took mem h s xs (h(mem := m)) s' (tl xs)))"
proof (cases xs)
  case Nil
  with slab_alloc_Nil wf show ?thesis by blast
next
  case (Cons mem xs')
  obtain q where q: "img_slab_alloc (Some s) h = Some (mem, Some (s\<lparr>free_list := q\<rparr>))"
    "slab_wf h (s\<lparr>free_list := q\<rparr>) xs'" "mem \<noteq> NULL" "mem \<in> blocks s" "mem \<notin> set xs'"
    using slab_alloc_Cons wf Cons by metis
  have "pool_took mem h s xs (h(mem := m)) (s\<lparr>free_list := q\<rparr>) (tl xs)" if "length m = length (h mem)" for m
    using q Cons slab_client_write [OF q(2,5) that] by (simp add: pool_took_def)
  then show ?thesis
    using q Cons slab_wfD(6) [OF wf q(4)] by auto
qed

lemma bounds_check_self: "sz \<le> limit \<Longrightarrow> img_bounds_check p sz p limit"
  by (simp add: img_bounds_check_def Let_def)

text \<open>The sides of an accepted image, and the products the decoders form of them.\<close>

lemma validated_sides:
  assumes "img_security_validate_request w ht sz = IMG_SUCCESS"
  shows "1 \<le> unat w" "unat w \<le> 16384" "1 \<le> unat ht" "unat ht \<le> 16384"
proof -
  have "img_security_validate_request w ht sz = IMG_ERR_SECURITY" if "w = 0 \<or> ht = 0 \<or> w > 16384 \<or> ht > 16384"
    using that unfolding img_security_validate_request_def by argo
  then have "w \<noteq> 0 \<and> ht \<noteq> 0 \<and> \<not> (w > 16384 \<or> ht > 16384)"
    using assms by auto
  then show "1 \<le> unat w" "unat w \<le> 16384" "1 \<le> unat ht" "unat ht \<le> 16384"
    by (simp_all add: word_less_nat_alt not_less Suc_le_eq unat_gt_0)
qed

lemma unat_scast_small: "unat (w :: u32) < 2 ^ 31 \<Longrightarrow> unat (scast w :: u64) = unat w"
proof -
  assume "unat w < 2 ^ 31"
  then have "int (unat w) < int (2 ^ 31)" by (simp only: of_nat_less_iff)
  then have "sint w = uint w" by (intro sint_uint_small) simp
  then have "(scast w :: u64) = word_of_int (uint w)" by (metis of_int_sint)
  then show ?thesis by simp
qed

lemma decoded_sizes:
  assumes "unat w \<le> 16384" and "unat ht \<le> 16384"
  shows "safe_mul (scast (w :: u32)) 3 = Some (of_nat (3 * unat w))"
    and "safe_mul (of_nat (3 * unat w)) (scast (ht :: u32)) = Some (of_nat (3 * unat w * unat ht))"
    and "unat (of_nat (3 * unat w * unat ht) :: u64) = 3 * unat w * unat ht"
    and "(ucast (of_nat (3 * unat w) :: u64) :: u32) = of_nat (3 * unat w)"
    and "unat (of_nat (3 * unat w) :: u32) = 3 * unat w"
    and "3 * unat w * unat ht \<le> 805306368"
proof -
  have "unat w * unat ht \<le> 16384 * 16384" using assms by (intro mult_le_mono)
  then have "3 * (unat w * unat ht) \<le> 805306368" by linarith
  then show le: "3 * unat w * unat ht \<le> 805306368" by (simp only: mult.assoc)
  have s: "unat (scast w :: u64) = unat w" "unat (scast ht :: u64) = unat ht"
    using assms unat_scast_small [of w] unat_scast_small [of ht] by simp_all
  have w3: "unat (of_nat (3 * unat w) :: u64) = 3 * unat w"
    using assms by (intro unat_of_nat_small) simp
  have sc: "(scast w :: u64) = of_nat (unat w)" "(scast ht :: u64) = of_nat (unat ht)"
    using s by (metis of_nat_unat ucast_id)+
  have "(scast w :: u64) * 3 = of_nat (3 * unat w)"
    by (simp add: sc(1))
  then show "safe_mul (scast w) 3 = Some (of_nat (3 * unat w))"
    using assms s(1) by (simp add: safe_mul_exact)
  have "(of_nat (3 * unat w) :: u64) * scast ht = of_nat (3 * unat w * unat ht)"
    by (simp add: sc(2))
  moreover have "unat (of_nat (3 * unat w) :: u64) * unat (scast ht :: u64) < 2 ^ 64"
    unfolding w3 s(2) by (rule le_less_trans [OF le]) simp
  ultimately show "safe_mul (of_nat (3 * unat w)) (scast ht) = Some (of_nat (3 * unat w * unat ht))"
    by (simp only: safe_mul_exact if_True)
  show "unat (of_nat (3 * unat w * unat ht) :: u64) = 3 * unat w * unat ht"
    by (intro unat_of_nat_small le_less_trans [OF le]) simp
  show "(ucast (of_nat (3 * unat w) :: u64) :: u32) = of_nat (3 * unat w)"
    by (metis w3 of_nat_unat)
  show "unat (of_nat (3 * unat w) :: u32) = 3 * unat w"
    using assms by (intro unat_of_nat_small) simp
qed

section \<open>The decoder interface\<close>

text \<open>
  What the rest of the engine relies on of a decoder: it runs without undefined behaviour and
  either takes exactly one block and describes an image inside it whose sides are within the
  limits, or reports an error and gives back every block it took.
\<close>

locale image_decoder =
  fixes decode :: "(ptr \<times> bytes) option \<Rightarrow> img_buffer option \<Rightarrow> img_slab_pool option \<Rightarrow> heap \<Rightarrow>
      (img_result \<times> img_buffer option \<times> img_slab_pool option \<times> heap) option"
  assumes decode_spec: "slab_wf h s xs \<Longrightarrow>
    (\<exists>r s' h' xs'. decode (Some inp) (Some out) (Some s) h = Some (r, Some out, Some s', h') \<and> r \<noteq> IMG_SUCCESS \<and>
       pool_kept h s xs h' s' xs') \<or>
    (\<exists>photo s' h' xs'. decode (Some inp) (Some out) (Some s) h = Some (IMG_SUCCESS, Some photo, Some s', h') \<and>
       pool_took (data photo) h s xs h' s' xs' \<and> photo_ok h' xs' photo)"

text \<open>What remains of \<open>img_decode_to_buffer\<close> once the header is accepted and the image fits a block.\<close>

definition decode_rest ::
  "turbojpeg \<Rightarrow> bytes \<Rightarrow> u32 \<Rightarrow> u32 \<Rightarrow> img_buffer \<Rightarrow> img_slab_pool \<Rightarrow> heap \<Rightarrow>
   (img_result \<times> img_buffer option \<times> img_slab_pool option \<times> heap) option" where
  "decode_rest tj inp w ht out s h = do {
     (mem, pool) \<leftarrow> img_slab_alloc (Some s) h;
     if mem = NULL then Some (IMG_ERR_NOMEM, Some out, pool, h)
     else do {
       (ok, m) \<leftarrow> tj_write tj inp w (of_nat (3 * unat w)) ht (h mem);
       let h = h(mem := m);
       if \<not> ok then do {
         (pool, h) \<leftarrow> img_slab_free pool mem h;
         Some (IMG_ERR_FORMAT, Some out, pool, h) }
       else Some (IMG_SUCCESS,
         Some \<lparr>data = mem, width = w, height = ht, channels = 3, stride = of_nat (3 * unat w)\<rparr>, pool, h) } }"

lemma decode_early_or_rest:
  "(\<exists>r. img_decode_to_buffer tj True (Some (a, inp)) (Some out) (Some s) h = Some (r, Some out, Some s, h) \<and> r \<noteq> IMG_SUCCESS) \<or>
   (\<exists>w ht. img_decode_to_buffer tj True (Some (a, inp)) (Some out) (Some s) h = decode_rest tj inp w ht out s h \<and>
      tjDecompressHeader3 tj inp = Some (w, ht) \<and> 1 \<le> unat w \<and> unat w \<le> 16384 \<and> 1 \<le> unat ht \<and> unat ht \<le> 16384 \<and>
      3 * unat w * unat ht \<le> unat (block_size s))"
proof (cases "tjDecompressHeader3 tj inp")
  case None
  then show ?thesis by (auto simp: img_decode_to_buffer_def Let_def)
next
  case (Some wh)
  obtain w ht where wh: "wh = (w, ht)" by fastforce
  define size where "size = (of_nat (length inp) :: u64)"
  show ?thesis
  proof (cases "size = 0 \<or> \<not> tjInitDecompress tj \<or> img_security_validate_request w ht size \<noteq> IMG_SUCCESS")
    case True
    then show ?thesis
      using Some wh by (auto simp: img_decode_to_buffer_def size_def [symmetric] bounds_check_self)
  next
    case False
    then have sides: "1 \<le> unat w" "unat w \<le> 16384" "1 \<le> unat ht" "unat ht \<le> 16384"
      using validated_sides by blast+
    note sz = decoded_sizes [OF sides(2,4)]
    have nf: "size \<noteq> 0" "tjInitDecompress tj" "img_security_validate_request w ht size = IMG_SUCCESS"
      using False by blast+
    show ?thesis
    proof (cases "3 * unat w * unat ht \<le> unat (block_size s)")
      case fits: True
      then have nb: "\<not> block_size s < of_nat (3 * unat w * unat ht)" "of_nat (3 * unat w * unat ht) \<le> block_size s"
        by (simp_all only: word_less_nat_alt word_le_nat_alt sz(3) not_less)
      then have "img_decode_to_buffer tj True (Some (a, inp)) (Some out) (Some s) h = decode_rest tj inp w ht out s h"
        by (simp only: nf nb img_decode_to_buffer_def decode_rest_def size_def [symmetric] Some wh prod.case option.case
            Let_def sz(1,2,4) img_slab_block_size_def bounds_check_self order_refl simp_thms if_True if_False)
      then show ?thesis using fits sides Some wh by blast
    next
      case big: False
      then have nb: "block_size s < of_nat (3 * unat w * unat ht)"
        by (simp only: word_less_nat_alt sz(3) not_le)
      then have "img_decode_to_buffer tj True (Some (a, inp)) (Some out) (Some s) h = Some (IMG_ERR_NOMEM, Some out, Some s, h)"
        by (simp only: nf nb img_decode_to_buffer_def size_def [symmetric] Some wh prod.case option.case
            Let_def sz(1,2,4) img_slab_block_size_def bounds_check_self order_refl simp_thms if_True if_False)
      then show ?thesis by blast
    qed
  qed
qed

lemma pool_took_photo:
  assumes "pool_took mem h s xs h' s' xs'" and "length (h' mem) = unat (block_size s)"
    and "1 \<le> unat w" "unat w \<le> 16384" "1 \<le> unat ht" "unat ht \<le> 16384"
    and "3 * unat w * unat ht \<le> unat (block_size s)" and "unat strd = 3 * unat w"
  shows "photo_ok h' xs' \<lparr>data = mem, width = w, height = ht, channels = 3, stride = strd\<rparr>"
  using assms by (simp add: photo_ok_def rgb_view_def pool_took_def)

lemma decode_rest_spec:
  assumes wf: "slab_wf h s xs" and sides: "1 \<le> unat w" "unat w \<le> 16384" "1 \<le> unat ht" "unat ht \<le> 16384"
    and fits: "3 * unat w * unat ht \<le> unat (block_size s)"
  shows "(\<exists>r s' h' xs'. decode_rest tj inp w ht out s h = Some (r, Some out, Some s', h') \<and> r \<noteq> IMG_SUCCESS \<and>
       pool_kept h s xs h' s' xs') \<or>
    (\<exists>photo s' h' xs'. decode_rest tj inp w ht out s h = Some (IMG_SUCCESS, Some photo, Some s', h') \<and>
       pool_took (data photo) h s xs h' s' xs' \<and> photo_ok h' xs' photo \<and> width photo = w \<and> height photo = ht \<and>
       (\<exists>px. tjDecompress2 tj inp w (stride photo) ht = (True, px) \<and>
          h' (data photo) = overlay (3 * unat w * unat ht) px (h (data photo))))"
  using slab_take [OF wf]
proof (elim disjE conjE exE)
  assume "img_slab_alloc (Some s) h = Some (NULL, Some s)"
  then have "decode_rest tj inp w ht out s h = Some (IMG_ERR_NOMEM, Some out, Some s, h)"
    by (simp add: decode_rest_def)
  then show ?thesis using pool_kept_refl [OF wf] by blast
next
  fix mem s'
  assume al: "img_slab_alloc (Some s) h = Some (mem, Some s')" "mem \<noteq> NULL"
    and len: "length (h mem) = unat (block_size s)"
    and took: "\<forall>m. length m = length (h mem) \<longrightarrow> pool_took mem h s xs (h(mem := m)) s' (tl xs)"
  define p :: u32 where "p = of_nat (3 * unat w)"
  have p: "unat p = 3 * unat w" unfolding p_def by (rule decoded_sizes(5) [OF sides(2,4)])
  obtain ok px where d: "tjDecompress2 tj inp w p ht = (ok, px)" by fastforce
  define m where "m = overlay (3 * unat w * unat ht) px (h mem)"
  have w: "tj_write tj inp w p ht (h mem) = Some (ok, m)"
    using fits by (simp add: tj_write_def d p len m_def)
  have lm: "length m = length (h mem)" using tj_write_length [OF w] .
  note t = took [rule_format, OF lm]
  show ?thesis
  proof (cases ok)
    case True
    define photo where "photo = \<lparr>data = mem, width = w, height = ht, channels = 3, stride = p\<rparr>"
    have "decode_rest tj inp w ht out s h = Some (IMG_SUCCESS, Some photo, Some s', h(mem := m))"
      unfolding decode_rest_def p_def [symmetric] using al w True by (simp add: photo_def)
    moreover have "photo_ok (h(mem := m)) (tl xs) photo"
      unfolding photo_def using t sides fits p len lm by (intro pool_took_photo) simp_all
    ultimately show ?thesis
      using t d True by (intro disjI2 exI conjI) (assumption | simp add: photo_def m_def)+
  next
    case False
    obtain s2 h2 where "img_slab_free (Some s') mem (h(mem := m)) = Some (Some s2, h2)" "pool_kept h s xs h2 s2 (mem # tl xs)"
      using pool_took_free [OF t] by blast
    moreover from this have "decode_rest tj inp w ht out s h = Some (IMG_ERR_FORMAT, Some out, Some s2, h2)"
      unfolding decode_rest_def p_def [symmetric] using al w False by simp
    ultimately show ?thesis by blast
  qed
qed

lemma decode_to_buffer_spec:
  assumes "slab_wf h s xs"
  shows "(\<exists>r s' h' xs'. img_decode_to_buffer tj True (Some (a, inp)) (Some out) (Some s) h = Some (r, Some out, Some s', h') \<and>
       r \<noteq> IMG_SUCCESS \<and> pool_kept h s xs h' s' xs') \<or>
    (\<exists>photo s' h' xs'. img_decode_to_buffer tj True (Some (a, inp)) (Some out) (Some s) h = Some (IMG_SUCCESS, Some photo, Some s', h') \<and>
       pool_took (data photo) h s xs h' s' xs' \<and> photo_ok h' xs' photo \<and>
       tjDecompressHeader3 tj inp = Some (width photo, height photo) \<and>
       (\<exists>px. tjDecompress2 tj inp (width photo) (stride photo) (height photo) = (True, px) \<and>
          h' (data photo) = overlay (3 * W photo * H photo) px (h (data photo))))"
  using decode_early_or_rest [of tj a inp out s h]
proof (elim disjE exE conjE)
  fix r assume "img_decode_to_buffer tj True (Some (a, inp)) (Some out) (Some s) h = Some (r, Some out, Some s, h)" "r \<noteq> IMG_SUCCESS"
  then show ?thesis using pool_kept_refl [OF assms] by blast
next
  fix w ht
  assume eq: "img_decode_to_buffer tj True (Some (a, inp)) (Some out) (Some s) h = decode_rest tj inp w ht out s h"
    and hd: "tjDecompressHeader3 tj inp = Some (w, ht)"
    and c: "1 \<le> unat w" "unat w \<le> 16384" "1 \<le> unat ht" "unat ht \<le> 16384" "3 * unat w * unat ht \<le> unat (block_size s)"
  show ?thesis
    unfolding eq using decode_rest_spec [OF assms c, of tj inp out] hd by (elim disjE; metis)
qed

interpretation jpeg: image_decoder "img_decode_to_buffer tj True" for tj
proof (unfold_locales, goal_cases)
  case (1 h s xs inp out)
  then show ?case using decode_to_buffer_spec [OF 1, of tj "fst inp" "snd inp" out] by (simp, blast)
qed

section \<open>The stb decoder\<close>

text \<open>
  What stb promises of a decoded image: both sides are positive, the byte count fits an \<open>int\<close>
  and that many bytes are there.
\<close>

definition stb_ok :: "stb_load \<Rightarrow> bool" where
  "stb_ok stb \<longleftrightarrow> (\<forall>inp w ht px. stb inp = Some (w, ht, px) \<longrightarrow>
     1 \<le> unat w \<and> 1 \<le> unat ht \<and> length px = 3 * unat w * unat ht \<and> 3 * unat w * unat ht < 2 ^ 31)"

lemma int_mul_3:
  assumes "3 * unat w < 2 ^ 31"
  shows "int_mul w 3 = Some (of_nat (3 * unat w))"
proof -
  have "int (3 * unat w) < int (2 ^ 31)" using assms by (simp only: of_nat_less_iff)
  then have i: "3 * uint w < 2 ^ 31" by simp
  then have "sint w = uint w" using uint_ge_0 [of w] by (intro sint_uint_small) simp
  moreover have "sint (3 :: u32) = 3" by (simp add: sint_uint_small)
  moreover have "- (2 ^ 31) \<le> uint w * 3" by (rule order_trans [of _ 0]) simp_all
  ultimately show ?thesis using i by (simp add: int_mul_def)
qed

lemma side_products:
  assumes "1 \<le> unat w" "1 \<le> unat (ht :: u32)" "3 * unat w * unat ht < 2 ^ 31"
  shows "(scast w :: u64) * scast ht * 3 = of_nat (3 * unat w * unat ht)"
    and "unat (of_nat (3 * unat w * unat ht) :: u64) = 3 * unat w * unat ht"
    and "int_mul w 3 = Some (of_nat (3 * unat w))" and "unat (of_nat (3 * unat w) :: u32) = 3 * unat w"
    and "(scast (of_nat (3 * unat w) :: u32) :: u64) * scast ht = of_nat (3 * unat w * unat ht)"
    and "(ucast (scast (of_nat (3 * unat w) :: u32) :: u64) :: u32) = of_nat (3 * unat w)"
proof -
  have "3 * unat w * 1 \<le> 3 * unat w * unat ht" "unat ht * 1 \<le> unat ht * (3 * unat w)"
    using assms(1,2) by (intro mult_le_mono2; simp)+
  then have "3 * unat w \<le> 3 * unat w * unat ht" "unat ht \<le> 3 * unat w * unat ht"
    by (simp_all only: mult_1_right mult.commute [of "unat ht"])
  then have le: "3 * unat w < 2 ^ 31" "unat ht < 2 ^ 31" "unat w < 2 ^ 31"
    using assms(3) by linarith+
  have n: "unat (of_nat (3 * unat w) :: u32) = 3 * unat w" using le by (intro unat_of_nat_small) simp
  have s: "unat (scast w :: u64) = unat w" "unat (scast ht :: u64) = unat ht"
    "unat (scast (of_nat (3 * unat w) :: u32) :: u64) = 3 * unat w"
    using le n by (simp_all only: unat_scast_small)
  have sc: "(scast w :: u64) = of_nat (unat w)" "(scast ht :: u64) = of_nat (unat ht)"
    "(scast (of_nat (3 * unat w) :: u32) :: u64) = of_nat (3 * unat w)"
    using s by (metis of_nat_unat ucast_id)+
  show "(scast w :: u64) * scast ht * 3 = of_nat (3 * unat w * unat ht)"
    by (simp add: sc(1,2))
  show "(scast (of_nat (3 * unat w) :: u32) :: u64) * scast ht = of_nat (3 * unat w * unat ht)"
    unfolding sc(2,3) by (rule of_nat_mult [symmetric])
  show "unat (of_nat (3 * unat w * unat ht) :: u64) = 3 * unat w * unat ht"
    by (intro unat_of_nat_small less_trans [OF assms(3)]) simp
  show "int_mul w 3 = Some (of_nat (3 * unat w))" by (rule int_mul_3 [OF le(1)])
  show "unat (of_nat (3 * unat w) :: u32) = 3 * unat w" by (rule n)
  show "(ucast (scast (of_nat (3 * unat w) :: u32) :: u64) :: u32) = of_nat (3 * unat w)"
    by (metis s(3) of_nat_unat)
qed

text \<open>The stb path keeps the same promise about memory, but no limit on the sides is checked.\<close>

lemma decode_stb_spec:
  assumes "slab_wf h s xs" and "stb_ok stb"
  shows "(\<exists>r. img_decode_stb stb inp out (Some s) h = Some (r, out, Some s, h) \<and> r \<noteq> IMG_SUCCESS) \<or>
    (\<exists>photo px s' h' xs'. img_decode_stb stb inp out (Some s) h = Some (IMG_SUCCESS, photo, Some s', h') \<and>
       pool_took (data photo) h s xs h' s' xs' \<and> rgb_view photo (length (h' (data photo))) \<and>
       stb inp = Some (width photo, height photo, px) \<and> take (length px) (h' (data photo)) = px)"
proof (cases "stb inp")
  case None
  then show ?thesis by (simp add: img_decode_stb_def)
next
  case (Some res)
  obtain w ht px where res: "res = (w, ht, px)" by (cases res) auto
  have d: "1 \<le> unat w" "1 \<le> unat ht" "length px = 3 * unat w * unat ht" "3 * unat w * unat ht < 2 ^ 31"
    using assms(2) Some unfolding stb_ok_def res by blast+
  note p = side_products [OF d(1,2,4)]
  show ?thesis
  proof (cases "3 * unat w * unat ht \<le> unat (block_size s)")
    case True
    then have nb: "\<not> block_size s < of_nat (3 * unat w * unat ht)"
      by (simp only: word_less_nat_alt p(2) not_less)
    note eq = img_decode_stb_def Some res prod.case option.case Let_def p(1-3) img_slab_block_size_def nb if_False
    from slab_take [OF assms(1)] show ?thesis
    proof (elim disjE conjE exE)
      assume "img_slab_alloc (Some s) h = Some (NULL, Some s)"
      then show ?thesis by (simp only: eq) simp
    next
      fix mem s'
      assume al: "img_slab_alloc (Some s) h = Some (mem, Some s')" "mem \<noteq> NULL"
        and len: "length (h mem) = unat (block_size s)"
        and took: "\<forall>m. length m = length (h mem) \<longrightarrow> pool_took mem h s xs (h(mem := m)) s' (tl xs)"
      define m where "m = px @ drop (length px) (h mem)"
      have m: "copy_bytes px 0 0 (3 * unat w * unat ht) (h mem) = Some m" "length m = length (h mem)"
        using True len d(3) by (simp_all add: copy_bytes_def m_def)
      define photo where "photo = \<lparr>data = mem, width = w, height = ht, channels = 3, stride = of_nat (3 * unat w)\<rparr>"
      have "img_decode_stb stb inp out (Some s) h = Some (IMG_SUCCESS, photo, Some s', h(mem := m))"
        unfolding eq al(1) photo_def by (simp only: nb al(2) m(1) bind.simps prod.case if_False)
      moreover have "rgb_view photo (length m)"
        using p(4) True len m(2) by (simp only: photo_def rgb_view_def img_buffer.simps)
      moreover have "data photo = mem" "width photo = w" "height photo = ht" by (simp_all add: photo_def)
      moreover have "pool_took mem h s xs (h(mem := m)) s' (tl xs)" using took m(2) by blast
      ultimately show ?thesis
        using Some res
        by (intro disjI2 exI [of _ photo] exI [of _ px] exI [of _ s'] exI [of _ "h(mem := m)"] exI [of _ "tl xs"] conjI)
           (simp_all add: m_def)
    qed
  next
    case False
    then have nb: "block_size s < of_nat (3 * unat w * unat ht)"
      by (simp only: word_less_nat_alt p(2) not_le)
    show ?thesis
      by (simp only: img_decode_stb_def Some res prod.case option.case Let_def p(1) img_slab_block_size_def nb if_True) simp
  qed
qed

section \<open>Reading a stream\<close>

definition stream_wf :: "img_stream \<Rightarrow> bool" where
  "stream_wf st \<longleftrightarrow> unat (spos st) \<le> unat (ssize st) \<and> unat (ssize st) \<le> length (snd (sdata st))"

lemma vfs_read_spec:
  assumes "stream_wf st" and "unat n \<le> length dst"
  shows "\<exists>r st' dst' got. img_vfs_read st dst n = Some (r, st', dst', got) \<and> stream_wf st' \<and>
    sdata st' = sdata st \<and> ssize st' = ssize st \<and> length dst' = length dst \<and>
    unat got = min (unat n) (unat (ssize st) - unat (spos st)) \<and> unat (spos st') = unat (spos st) + unat got \<and>
    take (unat got) dst' = take (unat got) (drop (unat (spos st)) (snd (sdata st))) \<and>
    (r = IMG_SUCCESS \<longleftrightarrow> got = n)"
proof -
  have le: "spos st \<le> ssize st" using assms(1) by (simp add: stream_wf_def word_le_nat_alt)
  define got where "got = (if n < ssize st - spos st then n else ssize st - spos st)"
  have got: "unat got = min (unat n) (unat (ssize st) - unat (spos st))"
    by (auto simp: got_def word_less_nat_alt unat_sub [OF le])
  then have room: "unat (spos st) + unat got \<le> length (snd (sdata st))" "unat got \<le> length dst"
    using assms by (auto simp: stream_wf_def)
  have fit: "unat (spos st) + unat got \<le> unat (ssize st)"
    using got assms(1) by (auto simp: stream_wf_def)
  then have pos: "unat (spos st + got) = unat (spos st) + unat got"
    using unat_lt_u64 [of "ssize st"] by (intro unat_add_small) simp
  show ?thesis
  proof (cases "got = 0")
    case True
    then have "img_vfs_read st dst n = Some (if got = n then IMG_SUCCESS else IMG_ERR_FORMAT, st, dst, got)"
      by (simp add: img_vfs_read_def Let_def flip: got_def)
    then show ?thesis
      using True got assms(1) by simp
  next
    case False
    define dst' where "dst' = take (unat got) (drop (unat (spos st)) (snd (sdata st))) @ drop (unat got) dst"
    have "copy_bytes (snd (sdata st)) (unat (spos st)) 0 (unat got) dst = Some dst'"
      using room by (simp add: copy_bytes_def dst'_def)
    then have "img_vfs_read st dst n = Some (if got = n then IMG_SUCCESS else IMG_ERR_FORMAT, st\<lparr>spos := spos st + got\<rparr>, dst', got)"
      using False by (simp add: img_vfs_read_def Let_def word_neq_0_conv flip: got_def)
    moreover have "stream_wf (st\<lparr>spos := spos st + got\<rparr>)"
      using assms(1) fit pos by (simp add: stream_wf_def)
    moreover have "length dst' = length dst" using room by (simp add: dst'_def)
    moreover have "take (unat got) dst' = take (unat got) (drop (unat (spos st)) (snd (sdata st)))"
      using room by (simp add: dst'_def)
    ultimately show ?thesis using got pos by simp
  qed
qed

text \<open>A further block is taken and given back while one is held.\<close>

lemma pool_took_kept:
  assumes "pool_took mem h s xs h1 s1 xs1" and "pool_kept h1 s1 xs1 h2 s2 xs2"
  shows "pool_took mem h s xs h2 s2 xs2"
  using assms unfolding pool_took_def pool_kept_def by auto

lemma free2_kept:
  assumes "pool_took mem h s xs h s1 xs1" and "pool_took tmp h s1 xs1 h2 s2 xs2"
  shows "\<exists>s3 h3 xs3. free2 tmp mem (Some s2) h2 = Some (Some s3, h3) \<and> pool_kept h s xs h3 s3 xs3"
proof -
  obtain s3 h3 where f: "img_slab_free (Some s2) tmp h2 = Some (Some s3, h3)" "pool_kept h s1 xs1 h3 s3 (tmp # xs2)"
    using pool_took_free [OF assms(2)] by blast
  obtain s4 h4 where "img_slab_free (Some s3) mem h3 = Some (Some s4, h4)" "pool_kept h s xs h4 s4 (mem # tmp # xs2)"
    using pool_took_free [OF pool_took_kept [OF assms(1) f(2)]] by blast
  with f(1) show ?thesis by (auto simp: free2_def)
qed

text \<open>The bounds check of the streaming decoder fails for a block outside the stream's memory.\<close>

lemma bounds_check_outside:
  assumes "unat p < unat b \<or> unat b + unat limit \<le> unat p" and "0 < sz"
  shows "\<not> img_bounds_check p sz b limit"
proof (cases "p < b")
  case False
  then have off: "unat (p - b) = unat p - unat b" by (simp add: unat_sub not_less)
  have "unat limit \<le> unat (p - b)" using assms(1) False off by (simp add: word_less_nat_alt)
  then have "\<not> p - b > limit \<Longrightarrow> limit - (p - b) = 0"
    by (metis not_less word_le_nat_alt order_antisym diff_self)
  then show ?thesis
    using False assms(2) by (auto simp: img_bounds_check_def Let_def not_less)
qed (simp add: img_bounds_check_def)

text \<open>The streaming decoder from the two allocations on, when the blocks lie outside the stream.\<close>

lemma decode_stream_body:
  assumes wf: "slab_wf h s xs" and st: "stream_wf st" and sides: "1 \<le> unat (w :: u32)" "unat w \<le> 16384" "1 \<le> unat (ht :: u32)" "unat ht \<le> 16384"
    and fits: "3 * unat w * unat ht \<le> unat (block_size s)"
    and out: "\<forall>p \<in> blocks s. unat p < unat (fst (sdata st)) \<or> unat (fst (sdata st)) + unat (ssize st) \<le> unat p"
  defines "required \<equiv> of_nat (3 * unat w * unat ht)"
  shows "\<exists>st' s' h' xs'. (do {
      (mem, pool) \<leftarrow> img_slab_alloc (Some s) h;
      if mem = NULL then Some (- 1, Some st, Some o', pool, h)
      else do {
        (tmp, pool) \<leftarrow> img_slab_alloc pool h;
        if tmp = NULL then do { (pool, h) \<leftarrow> img_slab_free pool mem h; Some (- 1, Some st, Some o', pool, h) }
        else do {
          (r, st, t, got) \<leftarrow> img_vfs_read st (h tmp) required;
          let h = h(tmp := t);
          if r \<noteq> IMG_SUCCESS \<or> \<not> img_bounds_check tmp got (fst (sdata st)) (ssize st) then do {
            (pool, h) \<leftarrow> free2 tmp mem pool h;
            Some (- 1, Some st, Some o', pool, h) }
          else F st t got mem tmp pool } } }) = Some (- 1 :: int, Some st', Some o', Some s', h') \<and> pool_kept h s xs h' s' xs'"
  using slab_take [OF wf]
proof (elim disjE conjE exE)
  assume "img_slab_alloc (Some s) h = Some (NULL, Some s)"
  then show ?thesis using pool_kept_refl [OF wf] by auto
next
  fix mem s1
  assume al: "img_slab_alloc (Some s) h = Some (mem, Some s1)" "mem \<noteq> NULL"
    and took: "\<forall>m. length m = length (h mem) \<longrightarrow> pool_took mem h s xs (h(mem := m)) s1 (tl xs)"
  have t1: "pool_took mem h s xs h s1 (tl xs)" using took [rule_format, of "h mem"] by simp
  then have wf1: "slab_wf h s1 (tl xs)" and bs: "block_size s1 = block_size s" "blocks s1 = blocks s"
    by (simp_all add: pool_took_def)
  have req: "unat (required :: u64) = 3 * unat w * unat ht"
    unfolding required_def by (rule decoded_sizes(3) [OF sides(2,4)])
  from slab_take [OF wf1] show ?thesis
  proof (elim disjE conjE exE)
    assume "img_slab_alloc (Some s1) h = Some (NULL, Some s1)"
    moreover obtain s2 h2 where "img_slab_free (Some s1) mem h = Some (Some s2, h2)" "pool_kept h s xs h2 s2 (mem # tl xs)"
      using pool_took_free [OF t1] by blast
    ultimately show ?thesis using al by auto
  next
    fix tmp s2
    assume al2: "img_slab_alloc (Some s1) h = Some (tmp, Some s2)" "tmp \<noteq> NULL"
      and len: "length (h tmp) = unat (block_size s1)" and tb: "tmp \<in> blocks s1"
      and took2: "\<forall>m. length m = length (h tmp) \<longrightarrow> pool_took tmp h s1 (tl xs) (h(tmp := m)) s2 (tl (tl xs))"
    obtain r st' t got where rd: "img_vfs_read st (h tmp) required = Some (r, st', t, got)" "sdata st' = sdata st"
      "ssize st' = ssize st" "length t = length (h tmp)" "r = IMG_SUCCESS \<longleftrightarrow> got = required"
      using vfs_read_spec [OF st, of required "h tmp"] fits req len bs by auto
    have "0 < required" using req sides by (simp add: word_less_nat_alt)
    then have bad: "r \<noteq> IMG_SUCCESS \<or> \<not> img_bounds_check tmp got (fst (sdata st')) (ssize st')"
      using bounds_check_outside [OF out [rule_format], of tmp required] rd tb bs by auto
    obtain s3 h3 xs3 where "free2 tmp mem (Some s2) (h(tmp := t)) = Some (Some s3, h3)" "pool_kept h s xs h3 s3 xs3"
      using free2_kept [OF t1] took2 rd(4) by blast
    then show ?thesis using al al2 rd(1) bad by auto
  qed
qed

section \<open>Properties\<close>

text \<open>
  C6. The JPEG decoder on untrusted input: it never runs into undefined behaviour, whatever the
  header says. On success it has taken exactly one block; the image lies inside it, its sides
  are those of the header and between 1 and 16384, its rows are packed RGB, and the block holds
  what libjpeg-turbo wrote. On every error it has given back the block and left the caller's
  descriptor alone.
\<close>

theorem decode_to_buffer_correct:
  assumes "slab_wf h s xs"
  shows "\<exists>r photo s' h' xs'. img_decode_to_buffer tj True (Some (a, inp)) (Some out) (Some s) h = Some (r, Some photo, Some s', h') \<and>
    (if r = IMG_SUCCESS
     then pool_took (data photo) h s xs h' s' xs' \<and> photo_ok h' xs' photo \<and>
       tjDecompressHeader3 tj inp = Some (width photo, height photo) \<and>
       (\<exists>px. tjDecompress2 tj inp (width photo) (stride photo) (height photo) = (True, px) \<and>
          h' (data photo) = overlay (3 * W photo * H photo) px (h (data photo)))
     else photo = out \<and> pool_kept h s xs h' s' xs')"
  using decode_to_buffer_spec [OF assms, of tj a inp out] by (elim disjE; force)

text \<open>A codec that decodes every input of at least one byte as an image of 2 by 1 pixels.\<close>

definition demo_tj :: turbojpeg where
  "demo_tj = \<lparr>tjInitDecompress = True, tjInitCompress = True, tjDecompressHeader3 = (\<lambda>_. Some (2, 1)),
     tjDecompress2 = (\<lambda>inp _ _ _. (True, [1, 2, 3, 4, 5, 6])), tjCompress2 = (\<lambda>px _ _ _ q. Some (of_nat q # px))\<rparr>"

theorem decode_to_buffer_correct_witness:
  "\<exists>r photo s' h' xs'. img_decode_to_buffer demo_tj True (Some (64, [9])) (Some empty_buffer) (Some demo_pool) demo_heap =
      Some (r, Some photo, Some s', h') \<and>
    (if r = IMG_SUCCESS
     then pool_took (data photo) demo_heap demo_pool demo_free h' s' xs' \<and> photo_ok h' xs' photo \<and>
       tjDecompressHeader3 demo_tj [9] = Some (width photo, height photo) \<and>
       (\<exists>px. tjDecompress2 demo_tj [9] (width photo) (stride photo) (height photo) = (True, px) \<and>
          h' (data photo) = overlay (3 * W photo * H photo) px (demo_heap (data photo)))
     else photo = empty_buffer \<and> pool_kept demo_heap demo_pool demo_free h' s' xs')"
  by (rule decode_to_buffer_correct [OF demo_pool_wf(1)])

text \<open>
  C28. The streaming decoder can never succeed: the bounds check compares the temporary block
  with the memory of the stream, and a slab block does not lie inside it. For every stream it
  returns -1, gives back all blocks and leaves the output descriptor alone.
\<close>

theorem decode_stream_rejects:
  assumes "slab_wf h s xs" and "stream_wf st"
    and "\<forall>p \<in> blocks s. unat p < unat (fst (sdata st)) \<or> unat (fst (sdata st)) + unat (ssize st) \<le> unat p"
  shows "\<exists>st' s' h' xs'. img_decode_stream tj True (Some st) (Some out) (Some s) h = Some (- 1, Some st', Some out, Some s', h') \<and>
    pool_kept h s xs h' s' xs'"
proof -
  obtain r st1 header got where rd: "img_vfs_read st (replicate 1024 0) HEADER_SIZE = Some (r, st1, header, got)"
    "stream_wf st1" "sdata st1 = sdata st" "ssize st1 = ssize st"
    using vfs_read_spec [OF assms(2), of HEADER_SIZE "replicate 1024 0"] by (auto simp: HEADER_SIZE_def)
  note kept = pool_kept_refl [OF assms(1)]
  show ?thesis
  proof (cases "r \<noteq> IMG_SUCCESS \<or> \<not> tjInitDecompress tj \<or> tjDecompressHeader3 tj (take (unat got) header) = None")
    case True
    then show ?thesis using rd(1) kept by (auto simp: img_decode_stream_def)
  next
    case False
    then obtain w ht where hd: "tjDecompressHeader3 tj (take (unat got) header) = Some (w, ht)" "r = IMG_SUCCESS" "tjInitDecompress tj"
      by auto
    show ?thesis
    proof (cases "img_security_validate_request w ht (ssize st) = IMG_SUCCESS")
      case ok: True
      note sides = validated_sides [OF ok]
      have "3 * unat w * unat ht < 2 ^ 31" by (rule le_less_trans [OF decoded_sizes(6) [OF sides(2,4)]]) simp
      note p = side_products [OF sides(1,3) this]
      note eq = img_decode_stream_def prod.case option.case bind.simps Let_def rd(1,4) hd ok p(3,5,6) img_slab_block_size_def
        simp_thms if_True if_False
      show ?thesis
      proof (cases "3 * unat w * unat ht \<le> unat (block_size s)")
        case fits: True
        then have nb: "\<not> block_size s < of_nat (3 * unat w * unat ht)"
          by (simp only: word_less_nat_alt p(2) not_less)
        have out': "\<forall>p \<in> blocks s. unat p < unat (fst (sdata st1)) \<or> unat (fst (sdata st1)) + unat (ssize st1) \<le> unat p"
          using assms(3) rd(3,4) by simp
        show ?thesis
          by (simp only: eq nb) (rule decode_stream_body [OF assms(1) rd(2) sides fits out', unfolded Let_def])
      next
        case False
        then have nb: "block_size s < of_nat (3 * unat w * unat ht)"
          by (simp only: word_less_nat_alt p(2) not_le)
        show ?thesis using kept by (simp only: eq nb) blast
      qed
    next
      case False
      then show ?thesis using rd hd kept by (auto simp: img_decode_stream_def)
    qed
  qed
qed

definition demo_stream :: img_stream where
  "demo_stream = \<lparr>sdata = (4096, replicate 2000 7), ssize = 2000, spos = 0\<rparr>"

theorem decode_stream_rejects_witness:
  "\<exists>st' s' h' xs'. img_decode_stream demo_tj True (Some demo_stream) (Some empty_buffer) (Some demo_pool) demo_heap =
      Some (- 1, Some st', Some empty_buffer, Some s', h') \<and> pool_kept demo_heap demo_pool demo_free h' s' xs'"
proof (rule decode_stream_rejects [OF demo_pool_wf(1)])
  show "stream_wf demo_stream" by (simp add: stream_wf_def demo_stream_def)
  show "\<forall>p \<in> blocks demo_pool. unat p < unat (fst (sdata demo_stream)) \<or>
      unat (fst (sdata demo_stream)) + unat (ssize demo_stream) \<le> unat p"
    by (simp add: demo_pool_wf(5) demo_free_def demo_stream_def upt_rec)
qed

end
