(* ===== verification/Encoder.thy ===== *)
theory Encoder
  imports Decoder
begin

text \<open>
  Encoding: \<open>io/encoder/encoder_entry.c\<close>, \<open>io/encoder/jpeg_encoder.c\<close> and the PDF 1.4 writer
  of \<open>io/encoder/pdf_encoder.c\<close>, together with a reader for the files it writes.
\<close>

section \<open>Formatted output\<close>

definition str :: "string \<Rightarrow> bytes" where
  "str cs = map of_char cs"

abbreviation nl :: bytes where "nl \<equiv> [10]"

text \<open>\<open>%u\<close>, \<open>%d\<close> and \<open>%ld\<close> of a number that is not negative, and \<open>%0kld\<close>.\<close>

fun digits :: "nat \<Rightarrow> bytes" where
  "digits n = (if n < 10 then [48 + of_nat n] else digits (n div 10) @ [48 + of_nat (n mod 10)])"

declare digits.simps [simp del]

definition pad0 :: "nat \<Rightarrow> nat \<Rightarrow> bytes" where
  "pad0 k n = replicate (k - length (digits n)) 48 @ digits n"

text \<open>\<open>%.2f\<close> of a value that is not negative: rounded to the nearest hundredth, ties to even.\<close>

definition fmt2 :: "f32 \<Rightarrow> bytes option" where
  "fmt2 x = (case x of
      Fin q \<Rightarrow> let r = nat (round_even (q * 100)) in
        Some (digits (r div 100) @ str ''.'' @ pad0 2 (r mod 100))
    | PInf \<Rightarrow> Some (str ''inf'')
    | _ \<Rightarrow> None)"

section \<open>JPEG\<close>

text \<open>The error result -1 leaves \<open>*out_data\<close> and \<open>*out_size\<close> alone: no output here.\<close>

definition img_encode_from_buffer ::
  "turbojpeg \<Rightarrow> bool \<Rightarrow> img_buffer option \<Rightarrow> bool \<Rightarrow> heap \<Rightarrow> int \<times> bytes option" where
  "img_encode_from_buffer tj ctx_given bo out_given h =
     (case bo of
        None \<Rightarrow> (- 1, None)
      | Some b \<Rightarrow>
          if \<not> ctx_given \<or> \<not> out_given then (- 1, None)
          else if \<not> tjInitCompress tj then (- 1, None)
          else (case tjCompress2 tj (h (data b)) (width b) (stride b) (height b) 85 of
              None \<Rightarrow> (- 1, None)
            | Some jpeg \<Rightarrow> (0, Some jpeg)))"

definition img_encode_jpeg :: "turbojpeg \<Rightarrow> img_buffer \<Rightarrow> heap \<Rightarrow> img_result \<times> bytes option" where
  "img_encode_jpeg tj b h =
     (if \<not> tjInitCompress tj then (IMG_ERR_IO, None)
      else (case tjCompress2 tj (h (data b)) (width b) (stride b) (height b) 85 of
          None \<Rightarrow> (IMG_ERR_IO, None)
        | Some jpeg \<Rightarrow> (IMG_SUCCESS, Some jpeg)))"

section \<open>PDF\<close>

text \<open>
  The state of the writer is the table of object offsets and the file so far. \<open>begin_obj\<close> is
  \<open>offsets[obj] = ftell(f)\<close> followed by the \<open>obj++\<close> in the arguments of \<open>fprintf\<close>: it writes
  \<open>"%d 0 obj\n"\<close> and the rest of the object.
\<close>

definition begin_obj :: "bytes \<Rightarrow> nat list \<times> bytes \<Rightarrow> nat list \<times> bytes" where
  "begin_obj body st =
     (case st of (offsets, f) \<Rightarrow> (offsets @ [length f], f @ digits (length offsets + 1) @ str '' 0 obj'' @ nl @ body))"

definition obj_catalog :: bytes where
  "obj_catalog = str ''<< /Type /Catalog /Pages 2 0 R >>'' @ nl @ str ''endobj'' @ nl"

definition obj_pages :: bytes where
  "obj_pages = str ''<< /Type /Pages /Kids [3 0 R] /Count 1 >>'' @ nl @ str ''endobj'' @ nl"

definition obj_page :: "bytes \<Rightarrow> bytes \<Rightarrow> bytes" where
  "obj_page pt_w pt_h =
     str ''<< /Type /Page /Parent 2 0 R'' @ nl @
     str ''   /MediaBox [0 0 '' @ pt_w @ str '' '' @ pt_h @ str '']'' @ nl @
     str ''   /Contents 4 0 R'' @ nl @
     str ''   /Resources << /XObject << /Im0 5 0 R >> >> >>'' @ nl @
     str ''endobj'' @ nl"

text \<open>\<open>snprintf\<close> into 256 bytes: the text is cut after 255 bytes, the length is not.\<close>

definition content_text :: "bytes \<Rightarrow> bytes \<Rightarrow> bytes" where
  "content_text pt_w pt_h =
     str ''q'' @ nl @ pt_w @ str '' 0 0 '' @ pt_h @ str '' 0 0 cm'' @ nl @ str ''/Im0 Do'' @ nl @ str ''Q'' @ nl"

definition obj_content :: "bytes \<Rightarrow> bytes" where
  "obj_content content =
     str ''<< /Length '' @ digits (length content) @ str '' >>'' @ nl @ str ''stream'' @ nl @
     take 255 content @ str ''endstream'' @ nl @ str ''endobj'' @ nl"

definition obj_image_head :: "u32 \<Rightarrow> u32 \<Rightarrow> nat \<Rightarrow> bytes" where
  "obj_image_head w ht n =
     str ''<< /Type /XObject /Subtype /Image'' @ nl @
     str ''   /Width '' @ digits (unat w) @ str '' /Height '' @ digits (unat ht) @ nl @
     str ''   /ColorSpace /DeviceRGB'' @ nl @
     str ''   /BitsPerComponent 8'' @ nl @
     str ''   /Filter /DCTDecode'' @ nl @
     str ''   /Length '' @ digits n @ str '' >>'' @ nl @
     str ''stream'' @ nl"

definition obj_image :: "u32 \<Rightarrow> u32 \<Rightarrow> bytes \<Rightarrow> bytes" where
  "obj_image w ht jpeg = obj_image_head w ht (length jpeg) @ jpeg @ nl @ str ''endstream'' @ nl @ str ''endobj'' @ nl"

definition xref_line :: "nat \<Rightarrow> bytes" where
  "xref_line off = pad0 10 off @ str '' 00000 n '' @ nl"

text \<open>The cross-reference table and the trailer; \<open>obj\<close> is one more than the number of objects.\<close>

definition pdf_finish :: "nat list \<times> bytes \<Rightarrow> bytes" where
  "pdf_finish st =
     (case st of (offsets, f) \<Rightarrow>
        f @ str ''xref'' @ nl @ str ''0 '' @ digits (length offsets + 1) @ nl @ str ''0000000000 65535 f '' @ nl @
        concat (map xref_line offsets) @
        str ''trailer'' @ nl @ str ''<< /Size '' @ digits (length offsets + 1) @ str '' /Root 1 0 R >>'' @ nl @
        str ''startxref'' @ nl @ digits (length f) @ nl @ str ''%%EOF'' @ nl)"

definition pdf_head :: bytes where
  "pdf_head = str ''%PDF-1.4'' @ nl @ str ''%'' @ [0xe2, 0xe3, 0xcf, 0xd3] @ nl"

definition pdf_file :: "u32 \<Rightarrow> u32 \<Rightarrow> bytes \<Rightarrow> bytes \<Rightarrow> bytes \<Rightarrow> bytes" where
  "pdf_file w ht pt_w pt_h jpeg =
     (let st = ([], pdf_head);
          st = begin_obj obj_catalog st;
          st = begin_obj obj_pages st;
          st = begin_obj (obj_page pt_w pt_h) st;
          st = begin_obj (obj_content (content_text pt_w pt_h)) st;
          st = begin_obj (obj_image w ht jpeg) st
      in pdf_finish st)"

text \<open>The file is the second component of the result; \<open>fopen_ok\<close> says whether it could be opened.\<close>

definition img_encode_pdf ::
  "turbojpeg \<Rightarrow> bool \<Rightarrow> img_buffer option \<Rightarrow> bool \<Rightarrow> u32 \<Rightarrow> heap \<Rightarrow> (img_result \<times> bytes option) option" where
  "img_encode_pdf tj fopen_ok bo path_given d h =
     (case bo of
        None \<Rightarrow> Some (IMG_ERR_SECURITY, None)
      | Some b \<Rightarrow>
          if \<not> path_given \<or> data b = NULL then Some (IMG_ERR_SECURITY, None)
          else if \<not> tjInitCompress tj then Some (IMG_ERR_NOMEM, None)
          else (case tjCompress2 tj (h (data b)) (width b) (stride b) (height b) 92 of
              None \<Rightarrow> Some (IMG_ERR_IO, None)
            | Some jpeg \<Rightarrow>
                if \<not> fopen_ok then Some (IMG_ERR_IO, None)
                else do {
                  pt_w \<leftarrow> fmt2 (fdiv (fmul (f_of_u32 (width b)) (Fin 72)) (f_of_u32 d));
                  pt_h \<leftarrow> fmt2 (fdiv (fmul (f_of_u32 (height b)) (Fin 72)) (f_of_u32 d));
                  Some (IMG_SUCCESS, Some (pdf_file (width b) (height b) pt_w pt_h jpeg)) }))"

section \<open>Reading the file\<close>

text \<open>
  A reader in the way of the PDF specification: from the end of the file to the
  cross-reference table, from there to an object. It is the reference the writer is checked
  against, and knows how many lines the head of an image object has.
\<close>

definition is_digit :: "u8 \<Rightarrow> bool" where
  "is_digit b \<longleftrightarrow> 48 \<le> b \<and> b \<le> 57"

definition read_dec :: "bytes \<Rightarrow> nat" where
  "read_dec bs = foldl (\<lambda>a b. 10 * a + unat (b - 48)) 0 bs"

definition drop_line :: "bytes \<Rightarrow> bytes" where
  "drop_line bs = tl (dropWhile (\<lambda>b. b \<noteq> 10) bs)"

definition startxref :: "bytes \<Rightarrow> nat option" where
  "startxref f =
     (let r = rev f in
      if take 7 r = rev (nl @ str ''%%EOF'' @ nl) then Some (read_dec (rev (takeWhile is_digit (drop 7 r)))) else None)"

definition xref_entry :: "bytes \<Rightarrow> nat \<Rightarrow> nat \<Rightarrow> nat option" where
  "xref_entry f x i =
     (let t = drop x f; e = take 20 (drop (20 * i) (drop_line (drop_line t))) in
      if take 5 t = str ''xref'' @ nl \<and> drop 10 e = str '' 00000 n '' @ nl then Some (read_dec (take 10 e)) else None)"

definition object_at :: "bytes \<Rightarrow> nat \<Rightarrow> bytes option" where
  "object_at f i = do {
     x \<leftarrow> startxref f;
     off \<leftarrow> xref_entry f x i;
     let hd = digits i @ str '' 0 obj'' @ nl;
     if take (length hd) (drop off f) = hd then Some (drop (length hd) (drop off f)) else None }"

definition pdf_image :: "bytes \<Rightarrow> bytes option" where
  "pdf_image f = do {
     b \<leftarrow> object_at f 5;
     let l = (drop_line ^^ 5) b;
     let n = read_dec (takeWhile is_digit (drop 11 l));
     let s = drop_line (drop_line l);
     if take 11 l = str ''   /Length '' \<and> take 18 (drop n s) = nl @ str ''endstream'' @ nl @ str ''endobj'' @ nl
     then Some (take n s) else None }"

section \<open>Numbers\<close>

lemma unat_digit: "d < 10 \<Longrightarrow> unat (48 + of_nat d :: u8) = 48 + d"
  using unat_add_small [of "48 :: u8" "of_nat d"] by (simp add: unat_of_nat_small)

lemma digit_val: "d < 10 \<Longrightarrow> unat ((48 + of_nat d :: u8) - 48) = d"
  by (simp add: unat_of_nat_small)

lemma is_digit_char: "d < 10 \<Longrightarrow> is_digit (48 + of_nat d)"
  by (simp add: is_digit_def word_le_nat_alt unat_digit)

lemma read_dec_append: "read_dec (xs @ [b]) = 10 * read_dec xs + unat (b - 48)"
  by (simp add: read_dec_def)

lemma read_dec_digits [simp]: "read_dec (digits n) = n"
proof (induction n rule: digits.induct)
  case (1 n)
  show ?case
  proof (cases "n < 10")
    case True
    then show ?thesis by (simp add: digits.simps [of n] read_dec_def unat_of_nat_small)
  next
    case False
    then have "digits n = digits (n div 10) @ [48 + of_nat (n mod 10)]" by (subst digits.simps) simp
    moreover have "read_dec (digits (n div 10)) = n div 10" using 1 False by blast
    moreover have "unat ((48 + of_nat (n mod 10) :: u8) - 48) = n mod 10" by (rule digit_val) simp
    ultimately have "read_dec (digits n) = 10 * (n div 10) + n mod 10" by (simp only: read_dec_append)
    then show ?thesis by (simp only: mult_div_mod_eq)
  qed
qed

lemma digits_all: "\<forall>b \<in> set (digits n). is_digit b"
proof (induction n rule: digits.induct)
  case (1 n)
  then show ?case by (subst digits.simps) (auto simp: is_digit_char)
qed

lemma digits_no_nl: "10 \<notin> set (digits n)"
  using digits_all [of n] by (auto simp: is_digit_def)

lemma length_digits: "n < 10 ^ Suc k \<Longrightarrow> length (digits n) \<le> Suc k"
proof (induction k arbitrary: n)
  case 0
  then show ?case by (simp add: digits.simps [of n])
next
  case (Suc k)
  show ?case
  proof (cases "n < 10")
    case True
    then show ?thesis by (simp add: digits.simps [of n])
  next
    case False
    have "n div 10 < 10 ^ Suc k" using Suc.prems by (simp add: less_mult_imp_div_less mult.commute)
    from Suc.IH [OF this] False show ?thesis by (simp add: digits.simps [of n])
  qed
qed

lemma read_dec_zeros: "read_dec (replicate k 48 @ bs) = read_dec bs"
proof -
  have "foldl (\<lambda>a b. 10 * a + unat (b - 48)) 0 (replicate k (48 :: u8)) = 0"
    by (induction k) simp_all
  then show ?thesis by (simp add: read_dec_def)
qed

lemma pad0_10:
  assumes "n < 10 ^ 10"
  shows "length (pad0 10 n) = 10" and "read_dec (pad0 10 n) = n"
  using length_digits [of n 9] assms by (simp_all add: pad0_def read_dec_zeros)

lemma takeWhile_prefix: "\<forall>b \<in> set xs. P b \<Longrightarrow> \<not> P c \<Longrightarrow> takeWhile P (xs @ c # ys) = xs"
  by (induction xs) simp_all

lemmas takeWhile_digits = takeWhile_prefix [OF digits_all]

lemma rev_takeWhile_digits: "\<not> is_digit c \<Longrightarrow> takeWhile is_digit (rev (digits n) @ c # rest) = rev (digits n)"
  using digits_all [of n] by (intro takeWhile_prefix) simp_all

section \<open>Lines\<close>

lemma drop_line_app [simp]: "10 \<notin> set l \<Longrightarrow> drop_line (l @ 10 # rest) = rest"
  by (induction l) (simp_all add: drop_line_def)

lemma str_append [simp]: "str [] = []" "str (c # cs) = of_char c # str cs"
  by (simp_all add: str_def)

section \<open>The reader on a written file\<close>

text \<open>The parts of the file from the cross-reference table on.\<close>

lemma startxref_finish: "startxref (pdf_finish (offs, f)) = Some (length f)"
proof -
  obtain g where g: "pdf_finish (offs, f) = g @ 10 # digits (length f) @ nl @ str ''%%EOF'' @ nl"
    by (simp add: pdf_finish_def)
  have "\<not> is_digit 10" by (simp add: is_digit_def)
  then have "startxref (g @ 10 # digits (length f) @ nl @ str ''%%EOF'' @ nl) = Some (length f)"
    by (simp add: startxref_def Let_def rev_takeWhile_digits)
  with g show ?thesis by simp
qed

lemma xref_lines_length: "\<forall>off \<in> set offs. off < 10 ^ 10 \<Longrightarrow> length (concat (map xref_line offs)) = 20 * length offs"
  by (induction offs) (simp_all add: xref_line_def pad0_10)

lemma xref_entry_finish:
  assumes small: "\<forall>off \<in> set offs. off < 10 ^ 10" and i: "1 \<le> i" "i \<le> length offs"
  shows "xref_entry (pdf_finish (offs, f)) (length f) i = Some (offs ! (i - 1))"
proof -
  define off where "off = offs ! (i - 1)"
  obtain as bs where offs: "offs = as @ off # bs" and as: "length as = i - 1"
    using id_take_nth_drop [of "i - 1" offs] i by (fastforce simp: off_def)
  define rest where "rest = str ''trailer'' @ nl @ str ''<< /Size '' @ digits (length offs + 1) @ str '' /Root 1 0 R >>'' @ nl @
    str ''startxref'' @ nl @ digits (length f) @ nl @ str ''%%EOF'' @ nl"
  define first where "first = str ''0000000000 65535 f '' @ nl"
  define t where "t = str ''xref'' @ nl @ (str ''0 '' @ digits (length offs + 1)) @ 10 # first @ concat (map xref_line offs) @ rest"
  have t: "drop (length f) (pdf_finish (offs, f)) = t"
    by (simp add: pdf_finish_def t_def rest_def first_def)
  have "drop_line (drop_line t) = first @ concat (map xref_line offs) @ rest"
    unfolding t_def using digits_no_nl [of "length offs + 1"] drop_line_app [of "str ''xref''"]
      drop_line_app [of "str ''0 '' @ digits (length offs + 1)"]
    by (simp del: drop_line_app)
  moreover have "length (concat (map xref_line as)) = 20 * (i - 1)"
    using xref_lines_length [of as] small as by (simp add: offs)
  then have len: "length (first @ concat (map xref_line as)) = 20 * i"
    using i by (simp add: first_def)
  moreover have "first @ concat (map xref_line offs) @ rest =
      (first @ concat (map xref_line as)) @ xref_line off @ concat (map xref_line bs) @ rest"
    by (simp add: offs)
  ultimately have "drop (20 * i) (drop_line (drop_line t)) = xref_line off @ concat (map xref_line bs) @ rest"
    by (metis append_eq_conv_conj)
  moreover have "off < 10 ^ 10" using small by (simp add: offs)
  note p = pad0_10 [OF this]
  moreover have "take 5 t = str ''xref'' @ nl" by (simp add: t_def)
  ultimately have "xref_entry (pdf_finish (offs, f)) (length f) i = Some off"
    by (simp add: xref_entry_def Let_def t xref_line_def)
  then show ?thesis by (simp only: off_def)
qed

text \<open>Every object written is found again at its recorded offset.\<close>

definition has_objects :: "bytes list \<Rightarrow> nat list \<times> bytes \<Rightarrow> bool" where
  "has_objects bs st \<longleftrightarrow> length (fst st) = length bs \<and>
     (\<forall>i < length bs. fst st ! i \<le> length (snd st) \<and>
        (\<exists>t. drop (fst st ! i) (snd st) = digits (i + 1) @ str '' 0 obj'' @ nl @ bs ! i @ t))"

lemma begin_obj_has:
  assumes "has_objects bs st"
  shows "has_objects (bs @ [b]) (begin_obj b st)"
proof -
  obtain offs f where st: "st = (offs, f)" by fastforce
  define f' where "f' = f @ digits (length offs + 1) @ str '' 0 obj'' @ nl @ b"
  have n: "length offs = length bs" using assms by (simp add: has_objects_def st)
  have "(offs @ [length f]) ! i \<le> length f' \<and>
      (\<exists>t. drop ((offs @ [length f]) ! i) f' = digits (i + 1) @ str '' 0 obj'' @ nl @ (bs @ [b]) ! i @ t)"
    if i: "i < Suc (length bs)" for i
  proof (cases "i < length bs")
    case True
    then obtain t where "offs ! i \<le> length f" "drop (offs ! i) f = digits (i + 1) @ str '' 0 obj'' @ nl @ bs ! i @ t"
      using assms by (auto simp: has_objects_def st)
    then show ?thesis using True n by (simp add: nth_append f'_def)
  next
    case False
    then have "i = length bs" using i by simp
    then show ?thesis using n by (simp add: f'_def nth_append)
  qed
  then show ?thesis by (simp add: begin_obj_def st has_objects_def n f'_def)
qed

lemma has_objects_fold: "has_objects bs (fold begin_obj bs ([], head))"
proof (induction bs rule: rev_induct)
  case (snoc b bs)
  then show ?case using begin_obj_has by simp
qed (simp add: has_objects_def)

lemma object_at_finish:
  assumes "has_objects bs st" and "length (snd st) < 10 ^ 10" and "i < length bs"
  shows "\<exists>t. object_at (pdf_finish st) (i + 1) = Some (bs ! i @ t)"
proof -
  obtain offs f where st: "st = (offs, f)" by fastforce
  have ob: "length offs = length bs" "\<And>j. j < length bs \<Longrightarrow> offs ! j \<le> length f"
    using assms(1) by (auto simp: has_objects_def st)
  then have small: "\<forall>off \<in> set offs. off < 10 ^ 10"
    using assms(2) by (fastforce simp: st in_set_conv_nth)
  obtain t where t: "drop (offs ! i) f = digits (i + 1) @ str '' 0 obj'' @ nl @ bs ! i @ t"
    using assms(1,3) by (auto simp: has_objects_def st)
  obtain u where u: "pdf_finish st = f @ u" by (simp add: pdf_finish_def st)
  have "drop (offs ! i) (pdf_finish st) = (digits (i + 1) @ str '' 0 obj'' @ nl) @ bs ! i @ t @ u"
    unfolding u using ob(2) [OF assms(3)] t by simp
  moreover have "xref_entry (pdf_finish st) (length f) (i + 1) = Some (offs ! i)"
    using xref_entry_finish [OF small, of "i + 1" f] ob(1) assms(3) by (simp add: st)
  moreover have "startxref (pdf_finish st) = Some (length f)" by (simp add: st startxref_finish)
  ultimately have "object_at (pdf_finish st) (i + 1) = Some (bs ! i @ t @ u)"
    by (simp add: object_at_def Let_def)
  then show ?thesis by blast
qed

definition pdf_bodies :: "u32 \<Rightarrow> u32 \<Rightarrow> bytes \<Rightarrow> bytes \<Rightarrow> bytes \<Rightarrow> bytes list" where
  "pdf_bodies w ht pt_w pt_h jpeg =
     [obj_catalog, obj_pages, obj_page pt_w pt_h, obj_content (content_text pt_w pt_h), obj_image w ht jpeg]"

lemma pdf_file_fold: "pdf_file w ht pt_w pt_h jpeg = pdf_finish (fold begin_obj (pdf_bodies w ht pt_w pt_h jpeg) ([], pdf_head))"
  by (simp add: pdf_file_def pdf_bodies_def Let_def)

lemma pdf_objects:
  assumes "length (pdf_file w ht pt_w pt_h jpeg) < 10 ^ 10" and "i < 5"
  shows "\<exists>t. object_at (pdf_file w ht pt_w pt_h jpeg) (i + 1) = Some (pdf_bodies w ht pt_w pt_h jpeg ! i @ t)"
proof -
  define st where "st = fold begin_obj (pdf_bodies w ht pt_w pt_h jpeg) ([], pdf_head)"
  have "length (snd st) \<le> length (pdf_finish st)" by (simp add: pdf_finish_def split: prod.splits)
  then have "length (snd st) < 10 ^ 10" using assms(1) by (simp add: pdf_file_fold st_def)
  then show ?thesis
    using object_at_finish [of _ st i, OF has_objects_fold [of "pdf_bodies w ht pt_w pt_h jpeg" pdf_head, folded st_def]] assms(2)
    by (simp add: pdf_file_fold pdf_bodies_def st_def)
qed

text \<open>The stream of an image object.\<close>

lemma image_lines:
  "(drop_line ^^ 5) (obj_image w ht jpeg @ t) =
     str ''   /Length '' @ digits (length jpeg) @ str '' >>'' @ nl @ str ''stream'' @ nl @ jpeg @ nl @ str ''endstream'' @ nl @ str ''endobj'' @ nl @ t"
proof -
  define l1 where "l1 = str ''<< /Type /XObject /Subtype /Image''"
  define l2 where "l2 = str ''   /Width '' @ digits (unat w) @ str '' /Height '' @ digits (unat ht)"
  define l3 where "l3 = str ''   /ColorSpace /DeviceRGB''"
  define l4 where "l4 = str ''   /BitsPerComponent 8''"
  define l5 where "l5 = str ''   /Filter /DCTDecode''"
  define l6 where "l6 = str ''   /Length '' @ digits (length jpeg) @ str '' >>'' @ nl @ str ''stream'' @ nl @ jpeg @ nl @ str ''endstream'' @ nl @ str ''endobj'' @ nl @ t"
  have "obj_image w ht jpeg @ t = l1 @ 10 # l2 @ 10 # l3 @ 10 # l4 @ 10 # l5 @ 10 # l6"
    by (simp add: obj_image_def obj_image_head_def l1_def l2_def l3_def l4_def l5_def l6_def)
  moreover have "10 \<notin> set l1" "10 \<notin> set l2" "10 \<notin> set l3" "10 \<notin> set l4" "10 \<notin> set l5"
    by (simp_all add: l1_def l2_def l3_def l4_def l5_def digits_no_nl)
  ultimately have "(drop_line ^^ 5) (obj_image w ht jpeg @ t) = l6" by (simp add: numeral_eq_Suc)
  then show ?thesis by (simp only: l6_def)
qed

lemma pdf_image_read:
  assumes "object_at f 5 = Some (obj_image w ht jpeg @ t)"
  shows "pdf_image f = Some jpeg"
proof -
  define n where "n = length jpeg"
  define l where "l = (drop_line ^^ 5) (obj_image w ht jpeg @ t)"
  define tail where "tail = nl @ str ''endstream'' @ nl @ str ''endobj'' @ nl @ t"
  have l: "l = str ''   /Length '' @ digits n @ str '' >>'' @ nl @ str ''stream'' @ nl @ jpeg @ tail"
    by (simp only: l_def image_lines n_def tail_def append_assoc)
  have "\<not> is_digit 32" by (simp add: is_digit_def)
  then have num: "takeWhile is_digit (drop 11 l) = digits n"
    by (simp add: l takeWhile_digits)
  have "drop_line l = str ''stream'' @ 10 # jpeg @ tail"
    using drop_line_app [of "str ''   /Length '' @ digits n @ str '' >>''" "str ''stream'' @ 10 # jpeg @ tail"] digits_no_nl [of n]
    by (simp add: l del: drop_line_app)
  then have "drop_line (drop_line l) = jpeg @ tail"
    using drop_line_app [of "str ''stream''" "jpeg @ tail"] by (simp del: drop_line_app)
  then show ?thesis
    using num by (simp add: pdf_image_def assms Let_def l_def [symmetric] n_def [symmetric])
       (simp add: l tail_def n_def)
qed

section \<open>Properties\<close>

definition demo_photo :: img_buffer where
  "demo_photo = \<lparr>data = 64, width = 2, height = 1, channels = 3, stride = 6\<rparr>"

text \<open>
  C8. A PDF written by \<open>img_encode_pdf\<close> can be read back: following \<open>startxref\<close>, the
  cross-reference table and the offset of each object leads to exactly the object written
  under that number, and reading object 5 by its declared length returns the JPEG image bit for
  bit. The file must be shorter than \<open>10\<^sup>1\<^sup>0\<close> bytes, the limit of a ten-digit offset.
\<close>

theorem encode_pdf_roundtrip:
  assumes "img_encode_pdf tj True (Some b) True d h = Some (IMG_SUCCESS, Some f)" and "length f < 10 ^ 10"
  shows "\<exists>pt_w pt_h. pdf_image f = tjCompress2 tj (h (data b)) (width b) (stride b) (height b) 92 \<and>
    (\<forall>i < 5. \<exists>t. object_at f (i + 1) =
       Some (pdf_bodies (width b) (height b) pt_w pt_h (the (pdf_image f)) ! i @ t))"
proof -
  obtain jpeg pt_w pt_h where j: "tjCompress2 tj (h (data b)) (width b) (stride b) (height b) 92 = Some jpeg"
    and f: "f = pdf_file (width b) (height b) pt_w pt_h jpeg"
    using assms(1) by (auto simp: img_encode_pdf_def split: if_splits option.splits bind_splits)
  note ob = pdf_objects [of "width b" "height b" pt_w pt_h jpeg, folded f, OF assms(2)]
  have "\<exists>t. object_at f 5 = Some (obj_image (width b) (height b) jpeg @ t)"
    using ob [of 4] by (simp add: pdf_bodies_def)
  then have "pdf_image f = Some jpeg" using pdf_image_read by blast
  with j ob show ?thesis by (metis option.sel)
qed

definition demo_pdf :: "(img_result \<times> bytes option) option" where
  "demo_pdf = img_encode_pdf demo_tj True (Some demo_photo) True 72 (\<lambda>_. [1, 2, 3, 4, 5, 6])"

lemma demo_pdf_ok: "\<exists>f. demo_pdf = Some (IMG_SUCCESS, Some f) \<and> length f < 10 ^ 10"
proof -
  have "fdiv (fmul (f_of_u32 2) (Fin 72)) (f_of_u32 72) = Fin 2"
    "fdiv (fmul (f_of_u32 1) (Fin 72)) (f_of_u32 72) = Fin 1"
    by code_simp+
  moreover have "fmt2 (Fin 2) = Some (str ''2.00'')" "fmt2 (Fin 1) = Some (str ''1.00'')"
    by (simp_all add: fmt2_def Let_def round_even_def digits.simps pad0_def)
  ultimately have "fmt2 (fdiv (fmul (f_of_u32 2) (Fin 72)) (f_of_u32 72)) = Some (str ''2.00'')"
    "fmt2 (fdiv (fmul (f_of_u32 1) (Fin 72)) (f_of_u32 72)) = Some (str ''1.00'')"
    by (simp_all only:)
  then have "demo_pdf = Some (IMG_SUCCESS, Some (pdf_file 2 1 (str ''2.00'') (str ''1.00'') [92, 1, 2, 3, 4, 5, 6]))"
    by (simp add: demo_pdf_def img_encode_pdf_def demo_tj_def demo_photo_def del: str_append)
  moreover have "length (pdf_file 2 1 (str ''2.00'') (str ''1.00'') [92, 1, 2, 3, 4, 5, 6]) < 10 ^ 10"
    by (simp add: pdf_file_def Let_def begin_obj_def pdf_finish_def pdf_head_def obj_catalog_def obj_pages_def obj_page_def
        obj_content_def content_text_def obj_image_def obj_image_head_def xref_line_def pad0_def digits.simps)
  ultimately show ?thesis by blast
qed

theorem encode_pdf_roundtrip_witness:
  "\<exists>f. demo_pdf = Some (IMG_SUCCESS, Some f) \<and> pdf_image f = Some [92, 1, 2, 3, 4, 5, 6]"
proof -
  obtain f where f: "img_encode_pdf demo_tj True (Some demo_photo) True 72 (\<lambda>_. [1, 2, 3, 4, 5, 6]) = Some (IMG_SUCCESS, Some f)"
    "length f < 10 ^ 10" "demo_pdf = Some (IMG_SUCCESS, Some f)"
    using demo_pdf_ok demo_pdf_def by metis
  show ?thesis
    using encode_pdf_roundtrip [OF f(1,2)] f(3) by (auto simp: demo_tj_def)
qed

end
