(* ===== verification/Queue_SPSC.thy ===== *)
theory Queue_SPSC
  imports Core_Types
begin

text \<open>
  The single-producer single-consumer ring of \<open>runtime/queue_spsc.c\<close>, the contract of a
  bounded FIFO queue that it shares with the multi-producer queue, and the interleavings of a
  producer and a consumer on it.
\<close>

section \<open>The bounded queue contract\<close>

text \<open>
  \<open>inv n q\<close> is the representation invariant with at least \<open>n\<close> more operations possible before
  a counter of the implementation reaches its limit.
\<close>

datatype queue_op = Push ptr | Pop

datatype queue_out = Pushed bool | Popped ptr

locale bounded_fifo =
  fixes inv :: "nat \<Rightarrow> 'q \<Rightarrow> bool"
    and contents :: "'q \<Rightarrow> ptr list"
    and room :: "'q \<Rightarrow> nat"
    and push :: "'q \<Rightarrow> ptr \<Rightarrow> (bool \<times> 'q) option"
    and pop :: "'q \<Rightarrow> (ptr \<times> 'q) option"
  assumes push_ok: "inv (Suc n) q \<Longrightarrow> \<exists>q'. push q x = Some (length (contents q) < room q, q') \<and> inv n q' \<and>
      room q' = room q \<and> contents q' = (if length (contents q) < room q then contents q @ [x] else contents q)"
    and pop_ok: "inv (Suc n) q \<Longrightarrow> \<exists>q'. pop q = Some (case contents q of [] \<Rightarrow> NULL | x # _ \<Rightarrow> x, q') \<and> inv n q' \<and>
      room q' = room q \<and> contents q' = tl (contents q)"

text \<open>The specification: a list and a capacity.\<close>

fun fifo_spec :: "nat \<Rightarrow> ptr list \<Rightarrow> queue_op list \<Rightarrow> queue_out list \<times> ptr list" where
  "fifo_spec cap xs [] = ([], xs)"
| "fifo_spec cap xs (Push x # ops) =
     (let (out, ys) = fifo_spec cap (if length xs < cap then xs @ [x] else xs) ops
      in (Pushed (length xs < cap) # out, ys))"
| "fifo_spec cap xs (Pop # ops) =
     (let (out, ys) = fifo_spec cap (tl xs) ops
      in (Popped (case xs of [] \<Rightarrow> NULL | x # _ \<Rightarrow> x) # out, ys))"

fun fifo_run ::
  "('q \<Rightarrow> ptr \<Rightarrow> (bool \<times> 'q) option) \<Rightarrow> ('q \<Rightarrow> (ptr \<times> 'q) option) \<Rightarrow> 'q \<Rightarrow> queue_op list \<Rightarrow>
   (queue_out list \<times> 'q) option" where
  "fifo_run push pop q [] = Some ([], q)"
| "fifo_run push pop q (Push x # ops) = do {
     (r, q) \<leftarrow> push q x; (out, q) \<leftarrow> fifo_run push pop q ops; Some (Pushed r # out, q) }"
| "fifo_run push pop q (Pop # ops) = do {
     (r, q) \<leftarrow> pop q; (out, q) \<leftarrow> fifo_run push pop q ops; Some (Popped r # out, q) }"

context bounded_fifo
begin

lemma run_refines:
  assumes "inv (length ops) q"
  shows "\<exists>q'. fifo_run push pop q ops = Some (fst (fifo_spec (room q) (contents q) ops), q') \<and>
    contents q' = snd (fifo_spec (room q) (contents q) ops) \<and> inv 0 q'"
  using assms
proof (induction ops arbitrary: q)
  case Nil
  then show ?case by simp
next
  case (Cons op ops)
  show ?case
  proof (cases op)
    case (Push x)
    obtain q1 where q1: "push q x = Some (length (contents q) < room q, q1)" "inv (length ops) q1" "room q1 = room q"
      "contents q1 = (if length (contents q) < room q then contents q @ [x] else contents q)"
      using push_ok [of "length ops" q x] Cons.prems by auto
    then show ?thesis
      using Cons.IH [OF q1(2)] Push by (auto simp: Let_def split: prod.splits)
  next
    case Pop
    obtain q1 where q1: "pop q = Some (case contents q of [] \<Rightarrow> NULL | x # _ \<Rightarrow> x, q1)" "inv (length ops) q1"
      "room q1 = room q" "contents q1 = tl (contents q)"
      using pop_ok [of "length ops" q] Cons.prems by auto
    then show ?thesis
      using Cons.IH [OF q1(2)] Pop by (auto simp: Let_def split: prod.splits)
  qed
qed

end

section \<open>The ring\<close>

text \<open>\<open>buffer = None\<close> is a null pointer: \<open>img_queue_create\<close> does not test the result of \<open>calloc\<close>.\<close>

record img_queue =
  buffer :: "ptr list option"
  capacity :: u32
  mask_of :: u32
  head :: u32
  tail :: u32

definition img_queue_create :: "bool \<Rightarrow> bool \<Rightarrow> u32 \<Rightarrow> img_queue option option" where
  "img_queue_create malloc_ok calloc_ok lg =
     (if \<not> malloc_ok then Some None
      else if unat lg \<ge> 31 then None
      else let c = push_bit (unat lg) 1 in
        Some (Some \<lparr>buffer = (if calloc_ok then Some (replicate (unat c) NULL) else None),
          capacity = c, mask_of = c - 1, head = 0, tail = 0\<rparr>))"

definition buf_store :: "img_queue \<Rightarrow> u32 \<Rightarrow> ptr \<Rightarrow> img_queue option" where
  "buf_store q i x =
     (case buffer q of
        Some xs \<Rightarrow> if unat i < length xs then Some (q\<lparr>buffer := Some (xs[unat i := x])\<rparr>) else None
      | None \<Rightarrow> None)"

definition buf_load :: "img_queue \<Rightarrow> u32 \<Rightarrow> ptr option" where
  "buf_load q i =
     (case buffer q of
        Some xs \<Rightarrow> if unat i < length xs then Some (xs ! unat i) else None
      | None \<Rightarrow> None)"

definition img_queue_push :: "img_queue \<Rightarrow> ptr \<Rightarrow> (bool \<times> img_queue) option" where
  "img_queue_push q x =
     (let t = tail q; nxt = (t + 1) AND mask_of q in
      if nxt = head q then Some (False, q)
      else do { q \<leftarrow> buf_store q t x; Some (True, q\<lparr>tail := nxt\<rparr>) })"

definition img_queue_pop :: "img_queue \<Rightarrow> (ptr \<times> img_queue) option" where
  "img_queue_pop q =
     (let h = head q in
      if h = tail q then Some (NULL, q)
      else do { x \<leftarrow> buf_load q h; Some (x, q\<lparr>head := (h + 1) AND mask_of q\<rparr>) })"

text \<open>
  \<open>img_backpressure_check_spsc\<close>: \<open>q->capacity * 0.9\<close> is a \<open>double\<close>, truncated by the cast;
  for capacities below \<open>2\<^sup>3\<^sup>1\<close> that is \<open>9 * capacity div 10\<close>. \<open>None\<close> is a null queue.
\<close>

definition img_backpressure_check_spsc :: "img_queue option \<Rightarrow> bool" where
  "img_backpressure_check_spsc qo =
     (case qo of
        None \<Rightarrow> True
      | Some q \<Rightarrow> let usage = (tail q - head q) AND mask_of q in
          unat usage > 9 * unat (capacity q) div 10)"

section \<open>Refinement\<close>

text \<open>A ring of \<open>2\<^sup>k\<close> slots; one slot always stays free.\<close>

definition q_size :: "img_queue \<Rightarrow> nat" where "q_size q = unat (capacity q)"

definition q_used :: "img_queue \<Rightarrow> nat" where
  "q_used q = (unat (tail q) + q_size q - unat (head q)) mod q_size q"

definition q_contents :: "img_queue \<Rightarrow> ptr list" where
  "q_contents q = map (\<lambda>i. the (buffer q) ! ((unat (head q) + i) mod q_size q)) [0..<q_used q]"

definition q_wf :: "img_queue \<Rightarrow> bool" where
  "q_wf q \<longleftrightarrow> (\<exists>k < 31. q_size q = 2 ^ k \<and> mask_of q = mask k) \<and>
     (\<exists>xs. buffer q = Some xs \<and> length xs = q_size q) \<and> unat (head q) < q_size q \<and> unat (tail q) < q_size q"

lemma next_index:
  fixes i :: u32
  assumes "k < 31" and "unat i < 2 ^ k"
  shows "unat ((i + 1) AND mask k) = (unat i + 1) mod 2 ^ k"
proof -
  have "(2 :: nat) ^ k \<le> 2 ^ 30" using assms(1) by (intro power_increasing) simp_all
  then have "unat i + 1 < 2 ^ 32" using assms(2) by simp
  then have "unat (i + 1) = unat i + 1" using unat_add_small [of i 1] by simp
  then show ?thesis by (simp add: unat_and_mask)
qed

lemma q_wfE:
  assumes "q_wf q"
  obtains xs where "buffer q = Some xs" and "length xs = q_size q"
    and "unat (head q) < q_size q" and "unat (tail q) < q_size q" and "0 < q_size q"
    and "\<And>i. unat i < q_size q \<Longrightarrow> unat ((i + 1) AND mask_of q) = (unat i + 1) mod q_size q"
proof -
  obtain k xs where k: "k < 31" "q_size q = 2 ^ k" "mask_of q = mask k" and xs: "buffer q = Some xs" "length xs = q_size q"
    and ht: "unat (head q) < q_size q" "unat (tail q) < q_size q"
    using assms by (auto simp: q_wf_def)
  show thesis
    using that [OF xs ht] k next_index [OF k(1)] by simp
qed

text \<open>Arithmetic on a ring of \<open>n\<close> positions.\<close>

lemma ring_used:
  assumes "h < n" and "t < (n :: nat)"
  shows "(t + n - h) mod n = (if h \<le> t then t - h else t + n - h)"
proof (cases "h \<le> t")
  case True
  then have "(t + n - h) mod n = (t - h + n) mod n" by simp
  also have "\<dots> = t - h" using assms by simp
  finally show ?thesis using True by simp
qed (use assms in simp)

lemma ring_next: "t < n \<Longrightarrow> Suc t mod n = (if Suc t = n then 0 else Suc t)" for n :: nat
  by simp

lemma ring_slot:
  assumes "h < n" and "i < (n :: nat)"
  shows "(h + i) mod n = (if h + i < n then h + i else h + i - n)"
  using assms by (simp add: mod_if)

lemma ring_full:
  assumes "h < n" and "t < (n :: nat)"
  shows "(t + 1) mod n = h \<longleftrightarrow> (t + n - h) mod n = n - 1"
  using assms by (auto simp: ring_used ring_next)

lemma ring_push:
  assumes "h < n" and "t < (n :: nat)" and "(t + 1) mod n \<noteq> h"
  shows "((t + 1) mod n + n - h) mod n = Suc ((t + n - h) mod n)"
  using assms by (auto simp: ring_used ring_next split: if_splits)

lemma ring_pop:
  assumes "h < n" and "t < (n :: nat)" and "h \<noteq> t"
  shows "(t + n - h) mod n = Suc ((t + n - (h + 1) mod n) mod n)"
  using assms by (auto simp: ring_used ring_next split: if_splits)

lemma ring_tail:
  assumes "h < n" and "t < (n :: nat)"
  shows "(h + (t + n - h) mod n) mod n = t" and "i < (t + n - h) mod n \<Longrightarrow> (h + i) mod n \<noteq> t"
  using assms by (auto simp: ring_used ring_slot split: if_splits)

lemma q_used_lt: "q_wf q \<Longrightarrow> q_used q < q_size q"
  by (erule q_wfE) (simp add: q_used_def)

text \<open>Writing the slot at the tail and publishing it appends to the contents.\<close>

lemma contents_write_tail:
  assumes "q_wf q" and "buffer q = Some xs"
  shows "q_contents (q\<lparr>buffer := Some (xs[unat (tail q) := x])\<rparr>) = q_contents q"
proof -
  obtain "unat (head q) < q_size q" "unat (tail q) < q_size q"
    using assms(1) by (rule q_wfE)
  then show ?thesis
    using ring_tail(2) [of "unat (head q)" "q_size q" "unat (tail q)", THEN not_sym] assms(2)
    by (auto simp: q_contents_def q_used_def q_size_def)
qed

lemma contents_publish:
  assumes "q_wf q" and xs: "buffer q = Some xs" and full: "(unat (tail q) + 1) mod q_size q \<noteq> unat (head q)"
  shows "q_contents (q\<lparr>tail := (tail q + 1) AND mask_of q\<rparr>) = q_contents q @ [xs ! unat (tail q)]"
proof -
  obtain lt: "unat (head q) < q_size q" "unat (tail q) < q_size q"
    and nxt: "unat ((tail q + 1) AND mask_of q) = (unat (tail q) + 1) mod q_size q"
    using assms(1) by (rule q_wfE) blast
  have "q_used (q\<lparr>tail := (tail q + 1) AND mask_of q\<rparr>) = Suc (q_used q)"
    using ring_push [OF lt full] nxt by (simp add: q_used_def q_size_def)
  then show ?thesis
    using ring_tail(1) [OF lt] xs by (simp add: q_contents_def q_used_def q_size_def)
qed

lemma contents_pop:
  assumes "q_wf q" and xs: "buffer q = Some xs" and ne: "head q \<noteq> tail q"
  shows "q_contents q = xs ! unat (head q) # q_contents (q\<lparr>head := (head q + 1) AND mask_of q\<rparr>)"
proof -
  obtain lt: "unat (head q) < q_size q" "unat (tail q) < q_size q"
    and nxt: "unat ((head q + 1) AND mask_of q) = (unat (head q) + 1) mod q_size q"
    using assms(1) by (rule q_wfE) blast
  define m where "m = q_used (q\<lparr>head := (head q + 1) AND mask_of q\<rparr>)"
  have m: "q_used q = Suc m"
    using ring_pop [OF lt] ne nxt by (simp add: q_used_def q_size_def m_def word_unat_eq_iff)
  have "(unat (head q) + Suc i) mod q_size q = ((unat (head q) + 1) mod q_size q + i) mod q_size q" for i
    by (metis Suc_eq_plus1 add.assoc add.commute mod_add_left_eq)
  then show ?thesis
    using nxt xs lt(1) unfolding q_contents_def m m_def [symmetric]
    by (simp add: q_size_def upt_conv_Cons map_Suc_upt [symmetric] del: upt_Suc)
qed

lemma q_wf_update:
  assumes "q_wf q"
  shows "q_wf (q\<lparr>tail := (tail q + 1) AND mask_of q\<rparr>)" and "q_wf (q\<lparr>head := (head q + 1) AND mask_of q\<rparr>)"
    and "length ys = q_size q \<Longrightarrow> q_wf (q\<lparr>buffer := Some ys\<rparr>)"
proof -
  obtain lt: "unat (head q) < q_size q" "unat (tail q) < q_size q" "0 < q_size q"
    and nxt: "unat ((tail q + 1) AND mask_of q) = (unat (tail q) + 1) mod q_size q"
      "unat ((head q + 1) AND mask_of q) = (unat (head q) + 1) mod q_size q"
    using assms by (rule q_wfE) blast
  then show "q_wf (q\<lparr>tail := (tail q + 1) AND mask_of q\<rparr>)" "q_wf (q\<lparr>head := (head q + 1) AND mask_of q\<rparr>)"
    using assms by (auto simp: q_wf_def q_size_def)
  show "length ys = q_size q \<Longrightarrow> q_wf (q\<lparr>buffer := Some ys\<rparr>)"
    using assms by (auto simp: q_wf_def q_size_def)
qed

lemma push_spec:
  assumes wf: "q_wf q"
  shows "\<exists>q'. img_queue_push q x = Some (length (q_contents q) < q_size q - 1, q') \<and> q_wf q' \<and>
    q_size q' - 1 = q_size q - 1 \<and>
    q_contents q' = (if length (q_contents q) < q_size q - 1 then q_contents q @ [x] else q_contents q)"
proof -
  obtain xs where xs: "buffer q = Some xs" "length xs = q_size q"
    and lt: "unat (head q) < q_size q" "unat (tail q) < q_size q"
    and nxt: "unat ((tail q + 1) AND mask_of q) = (unat (tail q) + 1) mod q_size q"
    using wf by (rule q_wfE) blast
  have full: "(tail q + 1) AND mask_of q = head q \<longleftrightarrow> \<not> length (q_contents q) < q_size q - 1"
    using ring_full [OF lt] q_used_lt [OF wf] nxt by (auto simp: word_unat_eq_iff q_contents_def q_used_def)
  show ?thesis
  proof (cases "(tail q + 1) AND mask_of q = head q")
    case True
    then show ?thesis using full wf by (simp add: img_queue_push_def)
  next
    case False
    define q1 where "q1 = q\<lparr>buffer := Some (xs[unat (tail q) := x])\<rparr>"
    have w1: "q_wf q1" unfolding q1_def using xs by (intro q_wf_update(3) wf) simp
    have "q_contents (q1\<lparr>tail := (tail q1 + 1) AND mask_of q1\<rparr>) = q_contents q1 @ [xs[unat (tail q) := x] ! unat (tail q1)]"
      using False nxt by (intro contents_publish w1) (auto simp: q1_def q_size_def word_unat_eq_iff)
    then have "q_contents (q1\<lparr>tail := (tail q + 1) AND mask_of q\<rparr>) = q_contents q @ [x]"
      using contents_write_tail [OF wf xs(1)] xs lt by (simp add: q1_def)
    moreover have "img_queue_push q x = Some (True, q1\<lparr>tail := (tail q + 1) AND mask_of q\<rparr>)"
      using False xs lt by (simp add: img_queue_push_def buf_store_def q1_def Let_def)
    moreover have "q_wf (q1\<lparr>tail := (tail q + 1) AND mask_of q\<rparr>)"
      using q_wf_update(1) [OF w1] by (simp add: q1_def)
    ultimately show ?thesis
      using False full by (simp add: q1_def q_size_def)
  qed
qed

lemma pop_spec:
  assumes wf: "q_wf q"
  shows "\<exists>q'. img_queue_pop q = Some (case q_contents q of [] \<Rightarrow> NULL | x # _ \<Rightarrow> x, q') \<and> q_wf q' \<and>
    q_size q' - 1 = q_size q - 1 \<and> q_contents q' = tl (q_contents q)"
proof -
  obtain xs where xs: "buffer q = Some xs" "length xs = q_size q" and lt: "unat (head q) < q_size q" "unat (tail q) < q_size q"
    using wf by (rule q_wfE) blast
  show ?thesis
  proof (cases "head q = tail q")
    case True
    then have "q_contents q = []" using lt by (simp add: q_contents_def q_used_def)
    then show ?thesis using True wf by (simp add: img_queue_pop_def)
  next
    case False
    then show ?thesis
      using contents_pop [OF wf xs(1) False] xs lt q_wf_update(2) [OF wf]
      by (simp add: img_queue_pop_def buf_load_def Let_def q_size_def)
  qed
qed

interpretation spsc: bounded_fifo "\<lambda>_. q_wf" q_contents "\<lambda>q. q_size q - 1" img_queue_push img_queue_pop
  using push_spec pop_spec by unfold_locales

lemma create_wf:
  assumes "unat lg < 31"
  obtains q where "img_queue_create True True lg = Some (Some q)" and "q_wf q" and "q_contents q = []"
    and "q_size q = 2 ^ unat lg"
proof -
  define c :: u32 where "c = push_bit (unat lg) 1"
  have "(2 :: nat) ^ unat lg < 2 ^ 32" using assms by (intro power_strict_increasing) simp_all
  then have c: "unat c = 2 ^ unat lg"
    using unat_of_nat_small [of "2 ^ unat lg", where 'a = 32] by (simp add: c_def)
  have "c - 1 = mask (unat lg)" by (simp add: c_def mask_eq_exp_minus_1 push_bit_eq_mult)
  moreover have "img_queue_create True True lg =
      Some (Some \<lparr>buffer = Some (replicate (unat c) NULL), capacity = c, mask_of = c - 1, head = 0, tail = 0\<rparr>)"
    using assms by (simp add: img_queue_create_def c_def Let_def)
  ultimately show thesis
    using assms c by (intro that) (auto simp: q_wf_def q_size_def q_contents_def q_used_def)
qed

section \<open>A producer and a consumer interleaved\<close>

text \<open>
  The steps of \<open>img_queue_push\<close> and \<open>img_queue_pop\<close> at the granularity of their accesses to
  shared memory: the acquire load of the other side's index with the test, the access to the
  slot, the release store of the own index. \<open>accepted\<close> and \<open>taken\<close> record the values of the
  completed calls in order.
\<close>

datatype prod_pc = PIdle | PReady u32 ptr | PStored u32 ptr

datatype cons_pc = CIdle | CReady u32 | CLoaded u32 ptr

record spsc_sys =
  ring :: img_queue
  ppc :: prod_pc
  cpc :: cons_pc
  accepted :: "ptr list"
  taken :: "ptr list"

inductive spsc_step :: "spsc_sys \<Rightarrow> spsc_sys \<Rightarrow> bool" where
  push_check: "ppc s = PIdle \<Longrightarrow> nxt = (tail (ring s) + 1) AND mask_of (ring s) \<Longrightarrow> nxt \<noteq> head (ring s) \<Longrightarrow>
    spsc_step s (s\<lparr>ppc := PReady nxt x\<rparr>)"
| push_full: "ppc s = PIdle \<Longrightarrow> (tail (ring s) + 1) AND mask_of (ring s) = head (ring s) \<Longrightarrow> spsc_step s s"
| push_store: "ppc s = PReady nxt x \<Longrightarrow> buf_store (ring s) (tail (ring s)) x = Some q \<Longrightarrow>
    spsc_step s (s\<lparr>ring := q, ppc := PStored nxt x\<rparr>)"
| push_publish: "ppc s = PStored nxt x \<Longrightarrow>
    spsc_step s (s\<lparr>ring := (ring s)\<lparr>tail := nxt\<rparr>, ppc := PIdle, accepted := accepted s @ [x]\<rparr>)"
| pop_check: "cpc s = CIdle \<Longrightarrow> head (ring s) \<noteq> tail (ring s) \<Longrightarrow> spsc_step s (s\<lparr>cpc := CReady (head (ring s))\<rparr>)"
| pop_empty: "cpc s = CIdle \<Longrightarrow> head (ring s) = tail (ring s) \<Longrightarrow> spsc_step s s"
| pop_load: "cpc s = CReady h \<Longrightarrow> buf_load (ring s) h = Some v \<Longrightarrow> spsc_step s (s\<lparr>cpc := CLoaded h v\<rparr>)"
| pop_advance: "cpc s = CLoaded h v \<Longrightarrow>
    spsc_step s (s\<lparr>ring := (ring s)\<lparr>head := (h + 1) AND mask_of (ring s)\<rparr>, cpc := CIdle, taken := taken s @ [v]\<rparr>)"

inductive_cases spsc_stepE: "spsc_step s s'"

inductive spsc_reachable :: "img_queue \<Rightarrow> spsc_sys \<Rightarrow> bool" for q where
  start: "spsc_reachable q \<lparr>ring = q, ppc = PIdle, cpc = CIdle, accepted = [], taken = []\<rparr>"
| step: "spsc_reachable q s \<Longrightarrow> spsc_step s s' \<Longrightarrow> spsc_reachable q s'"

definition prod_inv :: "img_queue \<Rightarrow> prod_pc \<Rightarrow> bool" where
  "prod_inv q p = (case p of
      PIdle \<Rightarrow> True
    | PReady nxt x \<Rightarrow> nxt = (tail q + 1) AND mask_of q \<and> nxt \<noteq> head q
    | PStored nxt x \<Rightarrow> nxt = (tail q + 1) AND mask_of q \<and> nxt \<noteq> head q \<and> the (buffer q) ! unat (tail q) = x)"

definition cons_inv :: "img_queue \<Rightarrow> cons_pc \<Rightarrow> bool" where
  "cons_inv q c = (case c of
      CIdle \<Rightarrow> True
    | CReady h \<Rightarrow> h = head q \<and> head q \<noteq> tail q
    | CLoaded h v \<Rightarrow> h = head q \<and> head q \<noteq> tail q \<and> the (buffer q) ! unat (head q) = v)"

definition spsc_inv :: "spsc_sys \<Rightarrow> bool" where
  "spsc_inv s \<longleftrightarrow> q_wf (ring s) \<and> accepted s = taken s @ q_contents (ring s) \<and>
     prod_inv (ring s) (ppc s) \<and> cons_inv (ring s) (cpc s)"

lemma next_inj:
  assumes "q_wf q" and "unat a < q_size q" "unat b < q_size q" and "(a + 1) AND mask_of q = (b + 1) AND mask_of q"
  shows "a = b"
proof -
  obtain "unat ((a + 1) AND mask_of q) = (unat a + 1) mod q_size q" "unat ((b + 1) AND mask_of q) = (unat b + 1) mod q_size q"
    using assms(1) by (rule q_wfE) (use assms(2,3) in blast)
  then have "Suc (unat a) mod q_size q = Suc (unat b) mod q_size q" using assms(4) by simp
  then have "unat a = unat b" using assms(2,3) by (auto simp: ring_next split: if_splits)
  then show ?thesis by (simp only: word_unat_eq_iff)
qed

lemma spsc_inv_store:
  assumes inv: "spsc_inv s" and pc: "ppc s = PReady nxt x" and st: "buf_store (ring s) (tail (ring s)) x = Some q"
  shows "spsc_inv (s\<lparr>ring := q, ppc := PStored nxt x\<rparr>)"
proof -
  have wf: "q_wf (ring s)" using inv by (simp add: spsc_inv_def)
  obtain xs where xs: "buffer (ring s) = Some xs" "length xs = q_size (ring s)" "unat (tail (ring s)) < q_size (ring s)"
    using wf by (rule q_wfE)
  have q: "q = (ring s)\<lparr>buffer := Some (xs[unat (tail (ring s)) := x])\<rparr>"
    using st xs by (simp add: buf_store_def)
  have "unat (tail (ring s)) \<noteq> unat (head (ring s))" if "head (ring s) \<noteq> tail (ring s)"
    using that by (metis word_unat_eq_iff)
  then have "cons_inv q (cpc s)"
    using inv xs by (auto simp: spsc_inv_def cons_inv_def q split: cons_pc.splits)
  moreover have "q_wf q" unfolding q using xs by (intro q_wf_update(3) wf) simp
  moreover have "q_contents q = q_contents (ring s)" unfolding q by (rule contents_write_tail [OF wf xs(1)])
  ultimately show ?thesis
    using inv pc xs by (auto simp: spsc_inv_def prod_inv_def q)
qed

lemma spsc_inv_publish:
  assumes inv: "spsc_inv s" and pc: "ppc s = PStored nxt x"
  shows "spsc_inv (s\<lparr>ring := (ring s)\<lparr>tail := nxt\<rparr>, ppc := PIdle, accepted := accepted s @ [x]\<rparr>)"
proof -
  have wf: "q_wf (ring s)" using inv by (simp add: spsc_inv_def)
  have nxt: "nxt = (tail (ring s) + 1) AND mask_of (ring s)" "nxt \<noteq> head (ring s)" "the (buffer (ring s)) ! unat (tail (ring s)) = x"
    using inv pc by (auto simp: spsc_inv_def prod_inv_def)
  obtain xs where xs: "buffer (ring s) = Some xs"
    and n: "unat ((tail (ring s) + 1) AND mask_of (ring s)) = (unat (tail (ring s)) + 1) mod q_size (ring s)"
    using wf by (rule q_wfE) blast
  have "(unat (tail (ring s)) + 1) mod q_size (ring s) \<noteq> unat (head (ring s))"
    using nxt(1,2) n by (metis word_unat_eq_iff)
  from contents_publish [OF wf xs this] have "q_contents ((ring s)\<lparr>tail := nxt\<rparr>) = q_contents (ring s) @ [x]"
    using nxt xs by simp
  moreover have "cons_inv ((ring s)\<lparr>tail := nxt\<rparr>) (cpc s)"
    using inv nxt(2) by (auto simp: spsc_inv_def cons_inv_def split: cons_pc.splits)
  ultimately show ?thesis
    using inv q_wf_update(1) [OF wf] nxt(1) by (simp add: spsc_inv_def prod_inv_def)
qed

lemma spsc_inv_advance:
  assumes inv: "spsc_inv s" and pc: "cpc s = CLoaded h v"
  shows "spsc_inv (s\<lparr>ring := (ring s)\<lparr>head := (h + 1) AND mask_of (ring s)\<rparr>, cpc := CIdle, taken := taken s @ [v]\<rparr>)"
proof -
  have wf: "q_wf (ring s)" using inv by (simp add: spsc_inv_def)
  have h: "h = head (ring s)" "head (ring s) \<noteq> tail (ring s)" "the (buffer (ring s)) ! unat (head (ring s)) = v"
    using inv pc by (simp_all add: spsc_inv_def cons_inv_def)
  obtain xs where xs: "buffer (ring s) = Some xs" and lt: "unat (head (ring s)) < q_size (ring s)" "unat (tail (ring s)) < q_size (ring s)"
    using wf by (rule q_wfE)
  have "q_contents (ring s) = v # q_contents ((ring s)\<lparr>head := (h + 1) AND mask_of (ring s)\<rparr>)"
    using contents_pop [OF wf xs h(2)] h xs by simp
  moreover have "(tail (ring s) + 1) AND mask_of (ring s) \<noteq> (h + 1) AND mask_of (ring s)"
    using next_inj [OF wf lt(2,1)] h by auto
  then have "prod_inv ((ring s)\<lparr>head := (h + 1) AND mask_of (ring s)\<rparr>) (ppc s)"
    using inv by (auto simp: spsc_inv_def prod_inv_def split: prod_pc.splits)
  ultimately show ?thesis
    using inv q_wf_update(2) [OF wf] h(1) by (simp add: spsc_inv_def cons_inv_def)
qed

lemma spsc_inv_step:
  assumes "spsc_step s s'" and inv: "spsc_inv s"
  shows "spsc_inv s'"
  using assms(1)
proof cases
  case push_store
  then show ?thesis using spsc_inv_store [OF inv] by simp
next
  case push_publish
  then show ?thesis using spsc_inv_publish [OF inv] by simp
next
  case pop_advance
  then show ?thesis using spsc_inv_advance [OF inv] by simp
next
  case pop_load
  then show ?thesis
    using inv by (auto simp: spsc_inv_def cons_inv_def buf_load_def split: option.splits if_splits)
qed (use inv in \<open>simp_all add: spsc_inv_def prod_inv_def cons_inv_def\<close>)

lemma spsc_inv_reachable:
  assumes "spsc_reachable q s" and "q_wf q" and "q_contents q = []"
  shows "spsc_inv s"
  using assms(1)
proof induction
  case start
  then show ?case using assms(2,3) by (simp add: spsc_inv_def prod_inv_def cons_inv_def)
next
  case (step s s')
  then show ?case using spsc_inv_step by blast
qed

section \<open>Properties\<close>

text \<open>
  The ring of \<open>img_queue_create(power)\<close> refines a bounded list: any sequence of pushes and
  pops from one thread behaves exactly as a FIFO of capacity \<open>2\<^sup>p\<^sup>o\<^sup>w\<^sup>e\<^sup>r - 1\<close>, reports full and empty
  exactly then, and never accesses the buffer out of bounds, through all wrap-arounds of the
  indices.
\<close>

theorem spsc_refines_fifo:
  assumes "unat lg < 31"
  shows "\<exists>q q'. img_queue_create True True lg = Some (Some q) \<and>
    fifo_run img_queue_push img_queue_pop q trace = Some (fst (fifo_spec (2 ^ unat lg - 1) [] trace), q') \<and>
    q_contents q' = snd (fifo_spec (2 ^ unat lg - 1) [] trace)"
proof -
  obtain q where q: "img_queue_create True True lg = Some (Some q)" "q_wf q" "q_contents q = []" "q_size q = 2 ^ unat lg"
    using create_wf [OF assms] by metis
  show ?thesis
    using spsc.run_refines [OF q(2), of trace] q by auto
qed

theorem spsc_refines_fifo_witness:
  "\<exists>q q'. img_queue_create True True 1 = Some (Some q) \<and>
    fifo_run img_queue_push img_queue_pop q [Push 7, Push 8, Pop, Push 9, Pop, Pop] =
      Some ([Pushed True, Pushed False, Popped 7, Pushed True, Popped 9, Popped NULL], q') \<and> q_contents q' = []"
  using spsc_refines_fifo [of 1 "[Push 7, Push 8, Pop, Push 9, Pop, Pop]"] by simp

text \<open>
  C4. One producer and one consumer running concurrently, with their memory accesses
  interleaved in any way: the values taken so far are exactly the first ones accepted, in
  order, and the rest is in the ring; so no value is lost, duplicated or reordered. Every slot
  access on the way is inside the buffer.
\<close>

theorem spsc_concurrent_fifo:
  assumes "img_queue_create True True lg = Some (Some q)" and "unat lg < 31" and "spsc_reachable q s"
  shows "accepted s = taken s @ q_contents (ring s) \<and>
    (\<forall>nxt x. ppc s = PReady nxt x \<longrightarrow> (\<exists>q'. buf_store (ring s) (tail (ring s)) x = Some q')) \<and>
    (\<forall>h. cpc s = CReady h \<longrightarrow> (\<exists>v. buf_load (ring s) h = Some v))"
proof -
  obtain "q_wf q" "q_contents q = []"
    using create_wf [OF assms(2)] assms(1) by (metis option.inject)
  then have inv: "spsc_inv s" using spsc_inv_reachable [OF assms(3)] by blast
  then have "q_wf (ring s)" by (simp add: spsc_inv_def)
  then obtain xs where "buffer (ring s) = Some xs" "length xs = q_size (ring s)"
    "unat (head (ring s)) < q_size (ring s)" "unat (tail (ring s)) < q_size (ring s)"
    by (rule q_wfE)
  with inv show ?thesis
    by (auto simp: spsc_inv_def cons_inv_def buf_store_def buf_load_def)
qed

theorem spsc_concurrent_fifo_witness:
  "\<exists>q s. img_queue_create True True 1 = Some (Some q) \<and> spsc_reachable q s \<and> cpc s = CReady 0 \<and>
    taken s = [] \<and> accepted s = [7] \<and> q_contents (ring s) = [7] \<and> buf_load (ring s) 0 = Some 7"
proof -
  define q where "q = \<lparr>buffer = Some [0, 0], capacity = 2, mask_of = 1, head = 0, tail = 0\<rparr>"
  define s0 where "s0 = \<lparr>ring = q, ppc = PIdle, cpc = CIdle, accepted = [], taken = []\<rparr>"
  define s1 where "s1 = s0\<lparr>ppc := PReady 1 7\<rparr>"
  define s2 where "s2 = s1\<lparr>ring := q\<lparr>buffer := Some [7, 0]\<rparr>, ppc := PStored 1 7\<rparr>"
  define s3 where "s3 = s2\<lparr>ring := (ring s2)\<lparr>tail := 1\<rparr>, ppc := PIdle, accepted := accepted s2 @ [7]\<rparr>"
  define s4 where "s4 = s3\<lparr>cpc := CReady 0\<rparr>"
  note defs = q_def s0_def s1_def s2_def s3_def s4_def
  have cr: "img_queue_create True True 1 = Some (Some q)" by (simp add: img_queue_create_def q_def) (simp add: numeral_2_eq_2)
  have "spsc_reachable q s0" unfolding s0_def by (rule spsc_reachable.start)
  moreover have "spsc_step s0 s1" unfolding s1_def by (rule push_check) (simp_all add: defs)
  moreover have "spsc_step s1 s2" unfolding s2_def by (rule push_store) (simp_all add: defs buf_store_def)
  moreover have "spsc_step s2 s3" unfolding s3_def by (rule push_publish) (simp add: defs)
  moreover have "spsc_step s3 s4" using pop_check [of s3] by (simp add: defs)
  ultimately have r: "spsc_reachable q s4" by (blast intro: spsc_reachable.step)
  have "q_contents (ring s4) = [7]"
    using spsc_concurrent_fifo [OF cr _ r] by (simp add: defs)
  then show ?thesis
    using cr r by (intro exI [of _ q] exI [of _ s4]) (simp add: defs buf_load_def)
qed

end
