(* ===== verification/Queue_MPMC.thy ===== *)
theory Queue_MPMC
  imports Queue_SPSC
begin

text \<open>
  The bounded queue with sequence numbers of \<open>runtime/queue_mpmc.c\<close>. Its operations are loops
  around a compare-and-exchange; run by one thread the exchange succeeds, and a loop that
  would spin forever has no result.
\<close>

section \<open>Operations\<close>

text \<open>\<open>'d\<close> is what a cell holds: \<open>void *\<close> in this queue, a message in the ring of the logger.\<close>

record 'd cell_t =
  seq :: u64
  cdata :: 'd

record 'd img_mpmc_queue =
  msize :: u64
  mmask :: u64
  mcells :: "'d cell_t list"
  mhead :: u64
  mtail :: u64

partial_function (option) pow2_loop :: "u64 \<Rightarrow> u64 \<Rightarrow> u64 option" where
  "pow2_loop p x = (if p < x then pow2_loop (push_bit 1 p) x else Some p)"

definition align_pow2 :: "u64 \<Rightarrow> u64 option" where
  "align_pow2 x = pow2_loop 1 x"

text \<open>
  \<open>alloc\<close> is whether \<open>aligned_alloc\<close> succeeds; the returned pair is the result code and the
  queue, of which only \<open>size\<close> and \<open>mask\<close> are set when the allocation fails.
\<close>

definition img_mpmc_init :: "(u64 \<Rightarrow> bool) \<Rightarrow> ptr img_mpmc_queue option \<Rightarrow> u64 \<Rightarrow> (int \<times> ptr img_mpmc_queue option) option" where
  "img_mpmc_init alloc qo n =
     (case qo of
        None \<Rightarrow> Some (- 1, None)
      | Some q \<Rightarrow>
          if n = 0 then Some (- 1, qo)
          else do {
            n \<leftarrow> align_pow2 n;
            let q = q\<lparr>msize := n, mmask := n - 1\<rparr>;
            if \<not> alloc (16 * n) then Some (- 1, Some q)
            else Some (0, Some (q\<lparr>mcells := map (\<lambda>i. \<lparr>seq = of_nat i, cdata = NULL\<rparr>) [0..<unat n],
              mhead := 0, mtail := 0\<rparr>)) })"

text \<open>\<open>(intptr_t)a - (intptr_t)b\<close>; overflow of the signed subtraction is undefined.\<close>

definition idiff :: "u64 \<Rightarrow> u64 \<Rightarrow> int option" where
  "idiff a b = (let d = sint a - sint b in if - (2 ^ 63) \<le> d \<and> d < 2 ^ 63 then Some d else None)"

definition cell_index :: "'d img_mpmc_queue \<Rightarrow> u64 \<Rightarrow> nat option" where
  "cell_index q pos =
     (let i = unat (pos AND mmask q) in if i < length (mcells q) then Some i else None)"

partial_function (option) img_mpmc_push :: "ptr img_mpmc_queue \<Rightarrow> ptr \<Rightarrow> (int \<times> ptr img_mpmc_queue) option" where
  "img_mpmc_push q x =
     (let pos = mtail q in do {
        i \<leftarrow> cell_index q pos;
        diff \<leftarrow> idiff (seq (mcells q ! i)) pos;
        if diff = 0 then
          Some (0, q\<lparr>mtail := pos + 1, mcells := (mcells q)[i := \<lparr>seq = pos + 1, cdata = x\<rparr>]\<rparr>)
        else if diff < 0 then Some (- 1, q)
        else img_mpmc_push q x })"

partial_function (option) img_mpmc_pop :: "ptr img_mpmc_queue \<Rightarrow> (ptr \<times> ptr img_mpmc_queue) option" where
  "img_mpmc_pop q =
     (let pos = mhead q in do {
        i \<leftarrow> cell_index q pos;
        diff \<leftarrow> idiff (seq (mcells q ! i)) (pos + 1);
        if diff = 0 then
          Some (cdata (mcells q ! i),
            q\<lparr>mhead := pos + 1, mcells := (mcells q)[i := (mcells q ! i)\<lparr>seq := pos + mmask q + 1\<rparr>]\<rparr>)
        else if diff < 0 then Some (NULL, q)
        else img_mpmc_pop q })"

definition img_backpressure_check_mpmc :: "ptr img_mpmc_queue option \<Rightarrow> bool" where
  "img_backpressure_check_mpmc qo =
     (case qo of None \<Rightarrow> True | Some q \<Rightarrow> mtail q - mhead q > msize q * 3 div 4)"

section \<open>Rounding up to a power of two\<close>

lemma push_bit_unat:
  fixes p :: u64
  assumes "unat p < 2 ^ 63"
  shows "unat (push_bit 1 p) = 2 * unat p"
  using assms unat_mult_small [of p 2] by (simp add: push_bit_eq_mult)

lemma pow2_loop_result:
  assumes "unat p = 2 ^ k" and "unat x \<le> 2 ^ m" and "k \<le> m" and "m \<le> 63" and "k = 0 \<or> 2 ^ k < 2 * unat x"
  shows "\<exists>r j. pow2_loop p x = Some r \<and> unat r = 2 ^ j \<and> j \<le> m \<and> unat x \<le> 2 ^ j \<and> (j = 0 \<or> 2 ^ j < 2 * unat x)"
  using assms
proof (induction "m - k" arbitrary: p k)
  case 0
  then have "\<not> p < x" by (simp add: word_less_nat_alt)
  then show ?case using 0 by (subst pow2_loop.simps) (auto simp: word_less_nat_alt)
next
  case (Suc n)
  show ?case
  proof (cases "p < x")
    case True
    have "k < 63" using Suc.hyps(2) Suc.prems(4) by simp
    then have "(2 :: nat) ^ k < 2 ^ 63" by (intro power_strict_increasing) simp_all
    then have "unat (push_bit 1 p) = 2 ^ Suc k" using push_bit_unat [of p] Suc.prems(1) by simp
    moreover have "2 ^ Suc k < 2 * unat x" using True Suc.prems(1) by (simp add: word_less_nat_alt)
    ultimately have "\<exists>r j. pow2_loop (push_bit 1 p) x = Some r \<and> unat r = 2 ^ j \<and> j \<le> m \<and> unat x \<le> 2 ^ j \<and>
        (j = 0 \<or> 2 ^ j < 2 * unat x)"
      using Suc.hyps(1) [of "Suc k" "push_bit 1 p"] Suc.hyps(2) Suc.prems by simp
    then show ?thesis using True by (subst pow2_loop.simps) simp
  next
    case False
    then show ?thesis
      using Suc.prems by (subst pow2_loop.simps) (auto simp: word_less_nat_alt not_less)
  qed
qed

text \<open>
  C22. \<open>align_pow2\<close> terminates for every size up to \<open>2\<^sup>6\<^sup>3\<close> and returns the smallest power of two
  that is not below it.
\<close>

theorem align_pow2_correct:
  assumes "0 < x" and "unat x \<le> 2 ^ 63"
  shows "\<exists>r j. align_pow2 x = Some r \<and> unat r = 2 ^ j \<and> unat x \<le> unat r \<and> (\<forall>i. unat x \<le> 2 ^ i \<longrightarrow> unat r \<le> 2 ^ i)"
proof -
  obtain r j where r: "pow2_loop 1 x = Some r" "unat r = 2 ^ j" "unat x \<le> 2 ^ j" "j = 0 \<or> 2 ^ j < 2 * unat x"
    using pow2_loop_result [of 1 0 x 63] assms(2) by auto
  have "unat r \<le> 2 ^ i" if "unat x \<le> 2 ^ i" for i
  proof (rule ccontr)
    assume "\<not> unat r \<le> 2 ^ i"
    then have "i < j" using r(2) by (metis not_less power_increasing one_le_numeral)
    then have "(2 :: nat) ^ Suc i \<le> 2 ^ j" by (intro power_increasing) simp_all
    then show False using r(4) that \<open>i < j\<close> by simp
  qed
  then show ?thesis using r by (auto simp: align_pow2_def)
qed

theorem align_pow2_correct_witness:
  "\<exists>r j. align_pow2 1000 = Some r \<and> unat r = 2 ^ j \<and> unat (1000 :: u64) \<le> unat r \<and>
    (\<forall>i. unat (1000 :: u64) \<le> 2 ^ i \<longrightarrow> unat r \<le> 2 ^ i)"
  by (rule align_pow2_correct) (simp_all add: word_less_nat_alt)

section \<open>The invariant\<close>

text \<open>
  The queue holds the positions from \<open>head\<close> to \<open>tail\<close>; the cell of position \<open>i\<close> has sequence
  number \<open>i + 1\<close> when it is filled and \<open>i\<close> when it is free. \<open>m_wf n q\<close> leaves \<open>n\<close> positions before
  the counters reach \<open>2\<^sup>6\<^sup>2\<close>.
\<close>

definition m_wf :: "nat \<Rightarrow> 'd img_mpmc_queue \<Rightarrow> bool" where
  "m_wf n q \<longleftrightarrow> (\<exists>k. 1 \<le> k \<and> k < 62 \<and> length (mcells q) = 2 ^ k \<and> mmask q = mask k) \<and>
     unat (mhead q) \<le> unat (mtail q) \<and> unat (mtail q) \<le> unat (mhead q) + length (mcells q) \<and>
     unat (mtail q) + n < 2 ^ 62 \<and> unat (mhead q) + n < 2 ^ 62 \<and>
     (\<forall>i. unat (mhead q) \<le> i \<longrightarrow> i < unat (mhead q) + length (mcells q) \<longrightarrow>
        unat (seq (mcells q ! (i mod length (mcells q)))) = (if i < unat (mtail q) then i + 1 else i))"

definition m_contents :: "'d img_mpmc_queue \<Rightarrow> 'd list" where
  "m_contents q = map (\<lambda>i. cdata (mcells q ! (i mod length (mcells q)))) [unat (mhead q)..<unat (mtail q)]"

lemma m_wfE:
  assumes "m_wf n q"
  obtains k where "1 \<le> k" and "k < 62" and "length (mcells q) = 2 ^ k" and "mmask q = mask k"
    and "2 \<le> length (mcells q)" and "length (mcells q) < 2 ^ 62"
    and "\<And>pos. cell_index q pos = Some (unat pos mod length (mcells q))"
proof -
  obtain k where k: "1 \<le> k" "k < 62" "length (mcells q) = 2 ^ k" "mmask q = mask k"
    using assms by (auto simp: m_wf_def)
  have "(2 :: nat) ^ 1 \<le> 2 ^ k" "(2 :: nat) ^ k < 2 ^ 62"
    using k by (intro power_increasing power_strict_increasing; simp)+
  moreover have "cell_index q pos = Some (unat pos mod length (mcells q))" for pos
    using k by (simp add: cell_index_def unat_and_mask)
  ultimately show thesis using that [OF k] k(3) by simp
qed

lemma sint_small64:
  fixes w :: u64
  assumes "unat w < 2 ^ 63"
  shows "sint w = int (unat w)"
proof -
  have "int (unat w) < int (2 ^ 63)" using assms by (simp only: of_nat_less_iff)
  then have "signed_take_bit 63 (uint w) = uint w"
    using order_trans [OF _ uint_ge_0 [of w], of "- 9223372036854775808"]
    by (intro signed_take_bit_int_eq_self) simp_all
  then show ?thesis by (simp add: sint_uint)
qed

lemma idiff_small:
  assumes "unat a < 2 ^ 63" and "unat b < 2 ^ 63"
  shows "idiff a b = Some (int (unat a) - int (unat b))"
proof -
  have "int (unat a) < int (2 ^ 63)" "int (unat b) < int (2 ^ 63)" using assms by (simp_all only: of_nat_less_iff)
  then have "- (2 ^ 63) \<le> int (unat a) - int (unat b) \<and> int (unat a) - int (unat b) < 2 ^ 63"
    using of_nat_0_le_iff [of "unat a"] of_nat_0_le_iff [of "unat b"] by (simp only: of_nat_power of_nat_numeral) linarith
  then show ?thesis
    using assms by (simp only: idiff_def sint_small64 Let_def if_True simp_thms)
qed

lemma idiff_neg:
  assumes "unat a < unat b" and "unat b < 2 ^ 63"
  shows "\<exists>d. idiff a b = Some d \<and> d < 0"
proof -
  have "int (unat a) < int (unat b)" using assms(1) by (simp only: of_nat_less_iff)
  then show ?thesis using idiff_small [of a b] assms by auto
qed

text \<open>Two positions less than a lap apart share a cell only if they are equal.\<close>

lemma lap_inj:
  fixes i j n b :: nat
  assumes "b \<le> i" "i < b + n" "b \<le> j" "j < b + n" and "i mod n = j mod n"
  shows "i = j"
proof (rule ccontr)
  assume "i \<noteq> j"
  then consider "i < j" | "j < i" by linarith
  then show False
  proof cases
    case 1
    then have "n dvd j - i" using assms(5) by (metis mod_eq_dvd_iff_nat less_imp_le)
    then show False using 1 assms(1,4) by (auto dest: dvd_imp_le)
  next
    case 2
    then have "n dvd i - j" using assms(5) by (metis mod_eq_dvd_iff_nat less_imp_le)
    then show False using 2 assms(2,3) by (auto dest: dvd_imp_le)
  qed
qed

lemma unat_succ:
  fixes p :: u64
  assumes "unat p < 2 ^ 63"
  shows "unat (p + 1) = unat p + 1"
  using assms unat_add_small [of p 1] by simp

lemma m_wfD:
  assumes "m_wf n q" and "unat (mhead q) \<le> i" "i < unat (mhead q) + length (mcells q)"
  shows "unat (seq (mcells q ! (i mod length (mcells q)))) = (if i < unat (mtail q) then i + 1 else i)"
  using assms unfolding m_wf_def by blast

lemma m_wf_mono: "m_wf n q \<Longrightarrow> m \<le> n \<Longrightarrow> m_wf m q"
  unfolding m_wf_def by auto

lemma m_wf_bounds:
  assumes "m_wf n q"
  shows "unat (mhead q) \<le> unat (mtail q)" and "unat (mtail q) \<le> unat (mhead q) + length (mcells q)"
    and "length (m_contents q) = unat (mtail q) - unat (mhead q)"
  using assms by (auto simp: m_wf_def m_contents_def)

lemma enqueue_wf:
  fixes x :: 'd and q :: "'d img_mpmc_queue"
  assumes wf: "m_wf (Suc n) q" and room: "length (m_contents q) < length (mcells q)"
  defines "i \<equiv> unat (mtail q) mod length (mcells q)"
  defines "q' \<equiv> q\<lparr>mtail := mtail q + 1, mcells := (mcells q)[i := \<lparr>seq = mtail q + 1, cdata = x\<rparr>]\<rparr>"
  shows "idiff (seq (mcells q ! i)) (mtail q) = Some 0" and "m_wf n q'" and "m_contents q' = m_contents q @ [x]"
    and "length (mcells q') = length (mcells q)"
proof -
  let ?N = "length (mcells q)" and ?h = "unat (mhead q)" and ?t = "unat (mtail q)"
  obtain k where k: "1 \<le> k" "k < 62" "?N = 2 ^ k" "mmask q = mask k" "2 \<le> ?N" "?N < 2 ^ 62"
    "\<And>pos. cell_index q pos = Some (unat pos mod ?N)"
    using wf by (rule m_wfE) blast
  have ht: "?h \<le> ?t" "?t \<le> ?h + ?N" "?t + Suc n < 2 ^ 62" "?h + Suc n < 2 ^ 62"
    using wf by (simp_all add: m_wf_def)
  have lt63: "(2 :: nat) ^ 62 + 2 ^ 62 = 2 ^ 63" by simp
  have True: "?t < ?h + ?N" using room m_wf_bounds [OF wf] by simp
  have i: "i < ?N" unfolding i_def using k(5) by (intro mod_less_divisor) linarith
  have s: "unat (seq (mcells q ! i)) = ?t" using m_wfD [OF wf ht(1) True] by (simp add: i_def)
  have t1: "unat (mtail q + 1) = ?t + 1" using ht(3) lt63 by (intro unat_succ) linarith
  have "?t < 2 ^ 63" using ht(3) lt63 by linarith
  then show "idiff (seq (mcells q ! i)) (mtail q) = Some 0"
    using idiff_small [of "seq (mcells q ! i)" "mtail q"] s by simp
  have other: "i \<noteq> j mod ?N" if "?h \<le> j" "j < ?h + ?N" "j \<noteq> ?t" for j
    using lap_inj [of ?h j ?N ?t] that ht True by (auto simp: i_def)
  show "m_wf n q'"
    unfolding m_wf_def
  proof (intro conjI allI impI)
    fix j assume j: "unat (mhead q') \<le> j" "j < unat (mhead q') + length (mcells q')"
    then have j': "?h \<le> j" "j < ?h + ?N" by (simp_all add: q'_def)
    show "unat (seq (mcells q' ! (j mod length (mcells q')))) = (if j < unat (mtail q') then j + 1 else j)"
      using m_wfD [OF wf j'] other [OF j'] i t1 by (cases "j = ?t") (auto simp: q'_def i_def)
  qed (use k ht True t1 in \<open>auto simp: q'_def\<close>)
  show "m_contents q' = m_contents q @ [x]"
    using other i ht True t1 by (auto simp: m_contents_def q'_def i_def)
  show "length (mcells q') = length (mcells q)" by (simp add: q'_def)
qed

lemma enqueue_full:
  assumes wf: "m_wf (Suc n) q" and full: "\<not> length (m_contents q) < length (mcells q)"
  shows "\<exists>d. idiff (seq (mcells q ! (unat (mtail q) mod length (mcells q)))) (mtail q) = Some d \<and> d < 0"
proof -
  let ?N = "length (mcells q)" and ?h = "unat (mhead q)" and ?t = "unat (mtail q)"
  obtain k where k: "2 \<le> ?N" using wf by (rule m_wfE) blast
  have t: "?t + Suc n < 2 ^ 62" "?t = ?h + ?N" using wf full m_wf_bounds [OF wf] by (simp_all add: m_wf_def)
  have lt63: "(2 :: nat) ^ 62 + 2 ^ 62 = 2 ^ 63" by simp
  have "mcells q \<noteq> []" using k by auto
  then have "unat (seq (mcells q ! (?t mod ?N))) = ?h + 1" using m_wfD [OF wf, of ?h] t(2) k by simp
  then show ?thesis using idiff_neg [of "seq (mcells q ! (?t mod ?N))" "mtail q"] t k lt63 by simp
qed

lemma dequeue_wf:
  assumes wf: "m_wf (Suc n) q" and item: "m_contents q \<noteq> []"
  defines "i \<equiv> unat (mhead q) mod length (mcells q)"
  defines "q' \<equiv> q\<lparr>mhead := mhead q + 1, mcells := (mcells q)[i := (mcells q ! i)\<lparr>seq := mhead q + mmask q + 1\<rparr>]\<rparr>"
  shows "idiff (seq (mcells q ! i)) (mhead q + 1) = Some 0" and "m_wf n q'"
    and "m_contents q = cdata (mcells q ! i) # m_contents q'" and "length (mcells q') = length (mcells q)"
proof -
  let ?N = "length (mcells q)" and ?h = "unat (mhead q)" and ?t = "unat (mtail q)"
  obtain k where k: "1 \<le> k" "k < 62" "?N = 2 ^ k" "mmask q = mask k" "2 \<le> ?N" "?N < 2 ^ 62"
    "\<And>pos. cell_index q pos = Some (unat pos mod ?N)"
    using wf by (rule m_wfE) blast
  have ht: "?h \<le> ?t" "?t \<le> ?h + ?N" "?t + Suc n < 2 ^ 62" "?h + Suc n < 2 ^ 62"
    using wf by (simp_all add: m_wf_def)
  have lt63: "(2 :: nat) ^ 62 + 2 ^ 62 = 2 ^ 63" by simp
  have True: "?h < ?t" using item by (simp add: m_contents_def)
  have i: "i < ?N" unfolding i_def using k(5) by (intro mod_less_divisor) linarith
  have s: "unat (seq (mcells q ! i)) = ?h + 1"
    using m_wfD [OF wf, of ?h] k(5) True unfolding i_def by (cases "mcells q") simp_all
  have h1: "unat (mhead q + 1) = ?h + 1" using ht(4) lt63 by (intro unat_succ) linarith
  have "?h + 1 < 2 ^ 63" using ht(4) lt63 by linarith
  then show "idiff (seq (mcells q ! i)) (mhead q + 1) = Some 0"
    using idiff_small [of "seq (mcells q ! i)" "mhead q + 1"] s h1 by simp
  have "unat (mmask q) = ?N - 1"
    using k(3,4,6) unat_of_nat_small [of "2 ^ k - 1", where 'a = 64] by (simp add: mask_eq_exp_minus_1 of_nat_diff)
  then have "unat (mhead q + mmask q) = ?h + ?N - 1"
    using k(5,6) ht(4) lt63 by (subst unat_add_small) auto
  then have s1: "unat (mhead q + mmask q + 1) = ?h + ?N"
    using k(5,6) ht(4) lt63 by (subst unat_succ) auto
  have other: "i \<noteq> j mod ?N" if "?h < j" "j < ?h + ?N" for j
    using lap_inj [of ?h j ?N ?h] that k(5) by (cases "mcells q") (auto simp: i_def)
  have lap: "(?h + ?N) mod ?N = i" by (simp add: i_def)
  show "m_wf n q'"
    unfolding m_wf_def
  proof (intro conjI allI impI)
    fix j assume j: "unat (mhead q') \<le> j" "j < unat (mhead q') + length (mcells q')"
    then have j': "?h < j" "j < ?h + ?N \<or> j = ?h + ?N" using h1 by (auto simp: q'_def)
    show "unat (seq (mcells q' ! (j mod length (mcells q')))) = (if j < unat (mtail q') then j + 1 else j)"
      using j' m_wfD [OF wf, of j] other [OF j'(1)] i s1 ht lap by (cases "j = ?h + ?N") (auto simp: q'_def)
  qed (use k ht True h1 in \<open>auto simp: q'_def\<close>)
  have "cdata (mcells q' ! (j mod ?N)) = cdata (mcells q ! (j mod ?N))" for j
    using i by (cases "j mod ?N = i") (simp_all add: q'_def)
  then show "m_contents q = cdata (mcells q ! i) # m_contents q'"
    using True h1 by (simp add: m_contents_def q'_def i_def upt_conv_Cons)
  show "length (mcells q') = length (mcells q)" by (simp add: q'_def)
qed

lemma dequeue_empty:
  assumes wf: "m_wf (Suc n) q" and empty: "m_contents q = []"
  shows "\<exists>d. idiff (seq (mcells q ! (unat (mhead q) mod length (mcells q)))) (mhead q + 1) = Some d \<and> d < 0"
proof -
  let ?N = "length (mcells q)" and ?h = "unat (mhead q)"
  obtain k where k: "2 \<le> ?N" using wf by (rule m_wfE) blast
  have h: "?h + Suc n < 2 ^ 62" "unat (mtail q) = ?h" using wf empty by (auto simp: m_wf_def m_contents_def)
  then have h1: "unat (mhead q + 1) = ?h + 1" by (intro unat_succ) simp
  have "unat (seq (mcells q ! (?h mod ?N))) = ?h" using m_wfD [OF wf, of ?h] k h(2) by (cases "mcells q") simp_all
  then show ?thesis using idiff_neg [of "seq (mcells q ! (?h mod ?N))" "mhead q + 1"] h h1 by simp
qed

lemma mpmc_push_spec:
  assumes wf: "m_wf (Suc n) q"
  shows "\<exists>q'. map_option (\<lambda>(r, q). (r = 0, q)) (img_mpmc_push q x) = Some (length (m_contents q) < length (mcells q), q') \<and>
    m_wf n q' \<and> length (mcells q') = length (mcells q) \<and>
    m_contents q' = (if length (m_contents q) < length (mcells q) then m_contents q @ [x] else m_contents q)"
proof -
  obtain idx: "\<And>pos. cell_index q pos = Some (unat pos mod length (mcells q))" using wf by (rule m_wfE) blast
  show ?thesis
  proof (cases "length (m_contents q) < length (mcells q)")
    case True
    then show ?thesis
      using enqueue_wf [OF wf True] idx by (subst img_mpmc_push.simps) (simp add: Let_def)
  next
    case False
    moreover have "m_wf n q" using wf by (auto simp: m_wf_def)
    ultimately show ?thesis
      using enqueue_full [OF wf False] idx by (subst img_mpmc_push.simps) (auto simp: Let_def)
  qed
qed

lemma mpmc_pop_spec:
  assumes wf: "m_wf (Suc n) q"
  shows "\<exists>q'. img_mpmc_pop q = Some (case m_contents q of [] \<Rightarrow> NULL | x # _ \<Rightarrow> x, q') \<and> m_wf n q' \<and>
    length (mcells q') = length (mcells q) \<and> m_contents q' = tl (m_contents q)"
proof -
  obtain idx: "\<And>pos. cell_index q pos = Some (unat pos mod length (mcells q))" using wf by (rule m_wfE) blast
  show ?thesis
  proof (cases "m_contents q")
    case Nil
    moreover have "m_wf n q" using wf by (auto simp: m_wf_def)
    ultimately show ?thesis
      using dequeue_empty [OF wf Nil] idx by (subst img_mpmc_pop.simps) (auto simp: Let_def)
  next
    case (Cons x xs)
    then show ?thesis
      using dequeue_wf [OF wf] idx by (subst img_mpmc_pop.simps) (simp add: Let_def)
  qed
qed

interpretation mpmc: bounded_fifo m_wf m_contents "\<lambda>q. length (mcells q)"
    "\<lambda>q x. map_option (\<lambda>(r, q). (r = 0, q)) (img_mpmc_push q x)" img_mpmc_pop
  using mpmc_push_spec mpmc_pop_spec by unfold_locales


section \<open>Properties\<close>

lemma mpmc_init_wf:
  assumes "2 \<le> unat n" and "unat n \<le> 2 ^ 40"
  obtains q' j where "img_mpmc_init (\<lambda>_. True) (Some q) n = Some (0, Some q')" and "m_wf (2 ^ 61) q'"
    and "m_contents q' = []" and "length (mcells q') = 2 ^ j" and "unat n \<le> 2 ^ j" and "2 ^ j < 2 * unat n"
proof -
  have "unat n \<le> 2 ^ 63" using assms(2) by simp
  obtain r j where r: "pow2_loop 1 n = Some r" "unat r = 2 ^ j" "j \<le> 40" "unat n \<le> 2 ^ j" "j = 0 \<or> 2 ^ j < 2 * unat n"
    using pow2_loop_result [of 1 0 n 40] assms(2) by auto
  have j: "1 \<le> j" using r(4) assms(1) by (cases j) auto
  have "(2 :: nat) ^ j \<le> 2 ^ 40" using r(3) by (intro power_increasing) simp_all
  then have j40: "(2 :: nat) ^ j < 2 ^ 41" by simp
  define q' where "q' = q\<lparr>msize := r, mmask := r - 1, mcells := map (\<lambda>i. \<lparr>seq = of_nat i, cdata = NULL\<rparr>) [0..<unat r],
      mhead := 0, mtail := 0\<rparr>"
  have "of_nat (unat r) = r" by simp
  then have "r - 1 = mask j" using r(2) by (simp add: mask_eq_exp_minus_1)
  then have "m_wf (2 ^ 61) q'"
    unfolding m_wf_def using j r(2,3) j40
    by (auto simp: q'_def unat_of_nat_small intro!: exI [of _ j])
  moreover have "img_mpmc_init (\<lambda>_. True) (Some q) n = Some (0, Some q')"
    using r(1) assms(1) by (auto simp: img_mpmc_init_def align_pow2_def q'_def)
  ultimately show thesis
    using that r j by (auto simp: q'_def m_contents_def)
qed

text \<open>
  The multi-producer queue made by \<open>img_mpmc_init\<close> refines a bounded FIFO: any sequence of up
  to \<open>2\<^sup>6\<^sup>1\<close> pushes and pops returns (the retry loops end), and gives exactly the results of a list
  whose capacity is the requested size rounded up to a power of two.
\<close>

theorem mpmc_refines_fifo:
  assumes "2 \<le> unat n" and "unat n \<le> 2 ^ 40" and "length trace \<le> 2 ^ 61"
  shows "\<exists>q' q'' j. img_mpmc_init (\<lambda>_. True) (Some q) n = Some (0, Some q') \<and> unat n \<le> 2 ^ j \<and> 2 ^ j < 2 * unat n \<and>
    fifo_run (\<lambda>q x. map_option (\<lambda>(r, q). (r = 0, q)) (img_mpmc_push q x)) img_mpmc_pop q' trace =
      Some (fst (fifo_spec (2 ^ j) [] trace), q'') \<and>
    m_contents q'' = snd (fifo_spec (2 ^ j) [] trace)"
proof -
  obtain q' j where q: "img_mpmc_init (\<lambda>_. True) (Some q) n = Some (0, Some q')" "m_wf (2 ^ 61) q'"
    "m_contents q' = []" "length (mcells q') = 2 ^ j" "unat n \<le> 2 ^ j" "2 ^ j < 2 * unat n"
    using mpmc_init_wf [OF assms(1,2), of q] by metis
  have "m_wf (length trace) q'" using q(2) assms(3) by (auto simp: m_wf_def)
  from mpmc.run_refines [OF this] q show ?thesis by auto
qed

definition blank_mpmc :: "ptr img_mpmc_queue" where
  "blank_mpmc = \<lparr>msize = 0, mmask = 0, mcells = [], mhead = 0, mtail = 0\<rparr>"

theorem mpmc_refines_fifo_witness:
  "\<exists>q' q'' j. img_mpmc_init (\<lambda>_. True) (Some blank_mpmc) 3 = Some (0, Some q') \<and> unat (3 :: u64) \<le> 2 ^ j \<and>
    2 ^ j < 2 * unat (3 :: u64) \<and>
    fifo_run (\<lambda>q x. map_option (\<lambda>(r, q). (r = 0, q)) (img_mpmc_push q x)) img_mpmc_pop q' [Push 7, Push 8, Pop, Pop, Pop] =
      Some (fst (fifo_spec (2 ^ j) [] [Push 7, Push 8, Pop, Pop, Pop]), q'') \<and>
    m_contents q'' = snd (fifo_spec (2 ^ j) [] [Push 7, Push 8, Pop, Pop, Pop])"
  by (rule mpmc_refines_fifo) simp_all

text \<open>
  A queue of size one, which \<open>img_mpmc_init\<close> accepts, does not work: the sequence number of the
  filled cell equals the next position, so a push on the full queue overwrites the item.
\<close>

lemma mpmc_size_one_overwrites:
  assumes "q = \<lparr>msize = 1, mmask = 0, mcells = [\<lparr>seq = 0, cdata = NULL\<rparr>], mhead = 0, mtail = 0\<rparr>"
  shows "\<exists>q1 q2. img_mpmc_push q 7 = Some (0, q1) \<and> img_mpmc_push q1 8 = Some (0, q2) \<and>
    cdata (mcells q2 ! 0) = 8"
  unfolding assms
  by (subst img_mpmc_push.simps, simp add: cell_index_def idiff_def,
      subst img_mpmc_push.simps, simp add: cell_index_def idiff_def)

end
