(* ===== verification/Scheduler.thy ===== *)
theory Scheduler
  imports Queue_MPMC "HOL-Library.Multiset"
begin

text \<open>
  The work-stealing scheduler of \<open>runtime/scheduler.c\<close> and the loop of \<open>runtime/worker.c\<close>: one
  ring per worker and a global overflow queue. A submission and an iteration of a worker is one
  step here: the runs of this theory are those in which the calls of the threads do not overlap.
  The rings do not give more: each is a ring for one producer and one consumer, and \<open>submit\<close> pushes
  and \<open>steal\<close> pops from any thread. The section on overlapping calls shows what goes wrong.
\<close>

section \<open>Workers and scheduler\<close>

text \<open>
  \<open>wsched\<close> and \<open>wctx\<close> are whether the two pointers of the worker are set, \<open>wthread\<close> whether \<open>thread\<close>
  is a thread that was created and not joined.
\<close>

record img_worker =
  wid :: u32
  wqueue :: "img_queue option"
  wsched :: bool
  wctx :: bool
  running :: bool
  wthread :: bool

record img_scheduler =
  worker_count :: u32
  workers :: "img_worker list"
  global_queue :: "ptr img_mpmc_queue"

text \<open>
  \<open>img_worker_init\<close>; the flags are the results of \<open>malloc\<close> and \<open>calloc\<close>, and whether
  \<open>pthread_create\<close> succeeds, which the code does not look at.
\<close>

definition img_worker_init ::
  "bool \<Rightarrow> bool \<Rightarrow> bool \<Rightarrow> img_worker option \<Rightarrow> u32 \<Rightarrow> bool \<Rightarrow> bool \<Rightarrow> (int \<times> img_worker option) option" where
  "img_worker_init malloc_ok calloc_ok thread_ok wo ident scheduler ctx =
     (case wo of
        None \<Rightarrow> Some (- 1, None)
      | Some w \<Rightarrow> do {
          let w = w\<lparr>wid := ident, running := True, wsched := scheduler, wctx := ctx\<rparr>;
          q \<leftarrow> img_queue_create malloc_ok calloc_ok 10;
          let w = w\<lparr>wqueue := q\<rparr>;
          if q = None then Some (- 1, Some w) else Some (0, Some (w\<lparr>wthread := thread_ok\<rparr>)) })"

definition img_worker_stop :: "img_worker option \<Rightarrow> img_worker option" where
  "img_worker_stop wo = map_option (\<lambda>w. w\<lparr>running := False\<rparr>) wo"

definition zero_worker :: img_worker where
  "zero_worker = \<lparr>wid = 0, wqueue = None, wsched = False, wctx = False, running = False, wthread = False\<rparr>"

text \<open>
  \<open>img_scheduler_init\<close>: it ignores the results of \<open>img_mpmc_init\<close> and \<open>img_worker_init\<close>.
  \<open>wmem i\<close> are the allocation results of worker \<open>i\<close>, \<open>wthr i\<close> whether its thread is created.
\<close>

definition img_scheduler_init ::
  "bool \<Rightarrow> (u64 \<Rightarrow> bool) \<Rightarrow> (nat \<Rightarrow> bool \<times> bool) \<Rightarrow> (nat \<Rightarrow> bool) \<Rightarrow> img_scheduler option \<Rightarrow> u32 \<Rightarrow> (int \<times> img_scheduler option) option" where
  "img_scheduler_init calloc_ok mpmc_mem wmem wthr so n =
     (case so of
        None \<Rightarrow> Some (- 1, None)
      | Some s \<Rightarrow>
          if n = 0 then Some (- 1, so)
          else let s = s\<lparr>worker_count := n\<rparr> in
            if \<not> calloc_ok then Some (- 1, Some (s\<lparr>workers := []\<rparr>))
            else do {
              (_, g) \<leftarrow> img_mpmc_init mpmc_mem (Some (global_queue s)) 1024;
              let s = s\<lparr>workers := replicate (unat n) zero_worker, global_queue := the g\<rparr>;
              s \<leftarrow> foreach [0..<unat n] (\<lambda>i s. do {
                (_, w) \<leftarrow> img_worker_init (fst (wmem i)) (snd (wmem i)) (wthr i) (Some (workers s ! i)) (of_nat i) True False;
                Some (s\<lparr>workers := (workers s)[i := the w]\<rparr>) }) s;
              Some (0, Some s) })"

text \<open>
  \<open>img_scheduler_destroy\<close>: the workers as they are when their array is freed. Joining a thread that
  was not created is undefined.
\<close>

definition img_scheduler_destroy :: "img_scheduler option \<Rightarrow> img_worker list option" where
  "img_scheduler_destroy so =
     (case so of
        None \<Rightarrow> Some []
      | Some s \<Rightarrow> foreach [0..<unat (worker_count s)] (\<lambda>i ws.
          if i < length ws \<and> wthread (ws ! i)
          then Some (ws[i := (the (img_worker_stop (Some (ws ! i))))\<lparr>wthread := False\<rparr>]) else None) (workers s))"

text \<open>Pushing to and popping from the ring of worker \<open>i\<close>.\<close>

definition worker_push :: "img_scheduler \<Rightarrow> nat \<Rightarrow> ptr \<Rightarrow> (bool \<times> img_scheduler) option" where
  "worker_push s i task =
     (if i < length (workers s) then do {
        q \<leftarrow> wqueue (workers s ! i);
        (r, q) \<leftarrow> img_queue_push q task;
        Some (r, s\<lparr>workers := (workers s)[i := (workers s ! i)\<lparr>wqueue := Some q\<rparr>]\<rparr>) }
      else None)"

definition worker_pop :: "img_scheduler \<Rightarrow> nat \<Rightarrow> (ptr \<times> img_scheduler) option" where
  "worker_pop s i =
     (if i < length (workers s) then do {
        q \<leftarrow> wqueue (workers s ! i);
        (x, q) \<leftarrow> img_queue_pop q;
        Some (x, s\<lparr>workers := (workers s)[i := (workers s ! i)\<lparr>wqueue := Some q\<rparr>]\<rparr>) }
      else None)"

definition img_scheduler_submit :: "img_scheduler option \<Rightarrow> ptr \<Rightarrow> (int \<times> img_scheduler option) option" where
  "img_scheduler_submit so task =
     (case so of
        None \<Rightarrow> Some (- 1, None)
      | Some s \<Rightarrow>
          if task = NULL then Some (- 1, so)
          else if worker_count s = 0 then None
          else do {
            let target = (ucast (task mod ucast (worker_count s)) :: u32);
            (ok, s) \<leftarrow> worker_push s (unat target) task;
            if ok then Some (0, Some s)
            else do {
              (r, g) \<leftarrow> img_mpmc_push (global_queue s) task;
              Some (r, Some (s\<lparr>global_queue := g\<rparr>)) } })"

text \<open>The victims in the order of the loop; a task ends it.\<close>

fun steal_from :: "nat list \<Rightarrow> img_scheduler \<Rightarrow> (ptr \<times> img_scheduler) option" where
  "steal_from [] s = do { (x, g) \<leftarrow> img_mpmc_pop (global_queue s); Some (x, s\<lparr>global_queue := g\<rparr>) }"
| "steal_from (v # vs) s = do {
     (x, s) \<leftarrow> worker_pop s v;
     if x \<noteq> NULL then Some (x, s) else steal_from vs s }"

definition victims :: "u32 \<Rightarrow> u32 \<Rightarrow> nat list" where
  "victims self_id n = map (\<lambda>i. unat ((self_id + of_nat i + 1) mod n)) [0..<unat n]"

definition img_scheduler_steal :: "img_scheduler option \<Rightarrow> u32 \<Rightarrow> (ptr \<times> img_scheduler option) option" where
  "img_scheduler_steal so self_id =
     (case so of
        None \<Rightarrow> Some (NULL, None)
      | Some s \<Rightarrow> do {
          (x, s) \<leftarrow> steal_from (victims self_id (worker_count s)) s;
          Some (x, Some s) })"

text \<open>
  One iteration of \<open>worker_loop\<close> of worker \<open>i\<close>. \<open>exec\<close> is the pipeline execution on the rest of
  the program's state; the last component of the state holds the status words of the tasks.
  The third component of the result is the task that was handled, if any.
\<close>

definition worker_iter ::
  "(ptr \<Rightarrow> 's \<Rightarrow> 's option) \<Rightarrow> nat \<Rightarrow> img_scheduler \<times> 's \<times> (ptr \<Rightarrow> int) \<Rightarrow>
   (ptr option \<times> img_scheduler \<times> 's \<times> (ptr \<Rightarrow> int)) option" where
  "worker_iter exec i st =
     (case st of (s, env, status) \<Rightarrow>
        if \<not> i < length (workers s) then None
        else do {
          let w = workers s ! i;
          (task, s) \<leftarrow> worker_pop s i;
          (task, s) \<leftarrow>
            (if task = NULL \<and> wsched w
             then do { (x, so) \<leftarrow> img_scheduler_steal (Some s) (wid w); Some (x, the so) }
             else Some (task, s));
          if task = NULL then Some (None, s, env, status)
          else if \<not> wctx w then Some (Some task, s, env, status(task := - 1))
          else do {
            env \<leftarrow> exec task env;
            Some (Some task, s, env, status(task := 0)) } })"

section \<open>Which tasks are queued\<close>

definition worker_tasks :: "img_worker \<Rightarrow> ptr list" where
  "worker_tasks w = (case wqueue w of Some q \<Rightarrow> q_contents q | None \<Rightarrow> [])"

definition queued :: "img_scheduler \<Rightarrow> ptr multiset" where
  "queued s = (\<Sum>w \<in># mset (workers s). mset (worker_tasks w)) + mset (m_contents (global_queue s))"

definition sched_wf :: "nat \<Rightarrow> img_scheduler \<Rightarrow> bool" where
  "sched_wf n s \<longleftrightarrow> worker_count s \<noteq> 0 \<and> length (workers s) = unat (worker_count s) \<and>
     unat (worker_count s) < 2 ^ 31 \<and>
     (\<forall>i < length (workers s). wid (workers s ! i) = of_nat i \<and> wsched (workers s ! i) \<and>
        (\<exists>q. wqueue (workers s ! i) = Some q \<and> q_wf q)) \<and>
     m_wf n (global_queue s) \<and> NULL \<notin># queued s"

lemma sum_list_update:
  fixes f :: "'a \<Rightarrow> 'b multiset"
  assumes "i < length xs"
  shows "(\<Sum>w \<in># mset (xs[i := y]). f w) + f (xs ! i) = (\<Sum>w \<in># mset xs. f w) + f y"
proof -
  have "mset xs = add_mset (xs ! i) (mset xs - {#xs ! i#})" using assms by simp
  then have "(\<Sum>w \<in># mset xs. f w) = f (xs ! i) + (\<Sum>w \<in># mset xs - {#xs ! i#}. f w)"
    by (metis image_mset_add_mset sum_mset.add_mset)
  then show ?thesis using assms by (simp add: mset_update)
qed

lemma mset_shift:
  fixes a c d e :: "'a multiset"
  assumes "a' + c = a + c'" and "c' + d = c + e"
  shows "a' + d = a + e"
proof (rule multiset_eqI)
  fix x
  have "count a' x + count c x = count a x + count c' x" "count c' x + count d x = count c x + count e x"
    using assms by (metis count_union)+
  then show "count (a' + d) x = count (a + e) x" by simp
qed

lemma mset_move: "a + g + d = b + g + e \<longleftrightarrow> a + d = b + (e :: 'a multiset)"
proof -
  have "a + g + d = a + d + g" "b + g + e = b + e + g" by (simp_all only: ac_simps)
  then show ?thesis by (simp only: add_right_cancel)
qed

lemma worker_set:
  assumes "i < length (workers s)" and "wqueue (workers s ! i) = Some q"
    and "mset (q_contents q') + d = mset (q_contents q) + e"
    and "s' = s\<lparr>workers := (workers s)[i := (workers s ! i)\<lparr>wqueue := Some q'\<rparr>]\<rparr>"
  shows "queued s' + d = queued s + e"
proof -
  let ?w = "(workers s ! i)\<lparr>wqueue := Some q'\<rparr>"
  let ?A = "\<lambda>ws. \<Sum>w \<in># mset ws. mset (worker_tasks w)"
  have A: "?A ((workers s)[i := ?w]) + mset (q_contents q) = ?A (workers s) + mset (q_contents q')"
    using sum_list_update [OF assms(1), of "\<lambda>w. mset (worker_tasks w)" ?w] assms(2) by (simp add: worker_tasks_def)
  have "queued s' = ?A ((workers s)[i := ?w]) + mset (m_contents (global_queue s))"
    by (simp add: queued_def assms(4))
  then show ?thesis
    using mset_shift [OF A assms(3)] by (simp only: queued_def [of s] mset_move)
qed

lemma sched_wf_set:
  assumes "sched_wf n s" and "i < length (workers s)" and "q_wf q'" and "NULL \<notin># queued s'"
    and "s' = s\<lparr>workers := (workers s)[i := (workers s ! i)\<lparr>wqueue := Some q'\<rparr>]\<rparr>"
  shows "sched_wf n s'"
  using assms by (auto simp: sched_wf_def nth_list_update)

lemma sched_queue: "sched_wf n s \<Longrightarrow> i < length (workers s) \<Longrightarrow> \<exists>q. wqueue (workers s ! i) = Some q \<and> q_wf q"
  unfolding sched_wf_def by blast

lemma worker_push_spec:
  assumes wf: "sched_wf n s" and i: "i < length (workers s)" and x: "x \<noteq> NULL"
  obtains r s' where "worker_push s i x = Some (r, s')" and "sched_wf n s'"
    and "queued s' = (if r then add_mset x (queued s) else queued s)" and "global_queue s' = global_queue s"
    and "worker_count s' = worker_count s" and "length (workers s') = length (workers s)"
    and "\<not> r \<Longrightarrow> \<exists>q. wqueue (workers s ! i) = Some q \<and> length (q_contents q) = q_size q - 1"
proof -
  obtain q where q: "wqueue (workers s ! i) = Some q" "q_wf q" using sched_queue [OF wf i] by blast
  obtain q' where q': "img_queue_push q x = Some (length (q_contents q) < q_size q - 1, q')" "q_wf q'"
    "q_contents q' = (if length (q_contents q) < q_size q - 1 then q_contents q @ [x] else q_contents q)"
    using push_spec [OF q(2), of x] by blast
  define r s' where "r \<longleftrightarrow> length (q_contents q) < q_size q - 1"
    and "s' = s\<lparr>workers := (workers s)[i := (workers s ! i)\<lparr>wqueue := Some q'\<rparr>]\<rparr>"
  have qd: "queued s' + {#} = queued s + (if r then {#x#} else {#})"
    by (rule worker_set [OF i q(1) _ s'_def]) (simp add: q'(3) r_def)
  then have "NULL \<notin># queued s'" using wf x by (simp add: sched_wf_def split: if_splits)
  then have "sched_wf n s'" using sched_wf_set [OF wf i q'(2) _ s'_def] by blast
  moreover have "worker_push s i x = Some (r, s')"
    using i q q' by (simp add: worker_push_def r_def s'_def)
  moreover have "length (q_contents q) = q_size q - 1" if "\<not> r"
    using that q_used_lt [OF q(2)] by (simp add: r_def q_contents_def)
  ultimately show thesis
    using that [of r s'] qd q(1) by (simp add: s'_def)
qed

lemma worker_pop_spec:
  assumes wf: "sched_wf n s" and i: "i < length (workers s)"
  obtains x s' where "worker_pop s i = Some (x, s')" and "sched_wf n s'"
    and "x = NULL \<Longrightarrow> s' = s \<and> worker_tasks (workers s ! i) = []"
    and "x \<noteq> NULL \<Longrightarrow> queued s = add_mset x (queued s')" and "length (workers s') = length (workers s)"
    and "worker_count s' = worker_count s"
proof -
  obtain q where q: "wqueue (workers s ! i) = Some q" "q_wf q" using sched_queue [OF wf i] by blast
  obtain q' where q': "img_queue_pop q = Some (case q_contents q of [] \<Rightarrow> NULL | x # _ \<Rightarrow> x, q')" "q_wf q'"
    "q_contents q' = tl (q_contents q)"
    using pop_spec [OF q(2)] by blast
  define x s' where "x = (case q_contents q of [] \<Rightarrow> NULL | x # _ \<Rightarrow> x)"
    and "s' = s\<lparr>workers := (workers s)[i := (workers s ! i)\<lparr>wqueue := Some q'\<rparr>]\<rparr>"
  have pop: "worker_pop s i = Some (x, s')"
    using i q q' by (simp add: worker_pop_def x_def s'_def)
  show thesis
  proof (cases "q_contents q")
    case Nil
    then have "head q = tail q"
      using contents_pop [OF q(2)] q(2) by (metis list.distinct(1) q_wfE)
    then have "q' = q" using q' by (simp add: img_queue_pop_def)
    then have "s' = s" using i q by (simp add: s'_def list_update_same_conv)
    then show thesis
      using that [OF pop] Nil wf q by (simp add: x_def worker_tasks_def)
  next
    case (Cons y ys)
    have qd: "queued s' + {#y#} = queued s + {#}"
      by (rule worker_set [OF i q(1) _ s'_def]) (simp add: q'(3) Cons)
    then have "queued s = add_mset y (queued s')" by simp
    moreover have "y \<noteq> NULL" using calculation wf by (auto simp: sched_wf_def)
    moreover have "sched_wf n s'"
      using sched_wf_set [OF wf i q'(2) _ s'_def] calculation wf by (auto simp: sched_wf_def)
    ultimately show thesis
      using that [OF pop] Cons by (simp add: x_def s'_def)
  qed
qed

lemma sched_wf_less: "sched_wf n s \<Longrightarrow> m \<le> n \<Longrightarrow> sched_wf m s"
  by (auto simp: sched_wf_def m_wf_def)

lemma global_set:
  assumes "mset (m_contents g) + d = mset (m_contents (global_queue s)) + e"
  shows "queued (s\<lparr>global_queue := g\<rparr>) + d = queued s + e"
  using assms by (simp add: queued_def add.assoc)

section \<open>Submitting and stealing\<close>

lemma target_lt:
  fixes x :: u64 and n :: u32
  assumes "n \<noteq> 0"
  shows "unat (ucast (x mod ucast n) :: u32) < unat n"
proof -
  have "unat (x mod ucast n) < unat n" using assms by (simp add: unat_mod unat_gt_0)
  moreover from this have "unat (ucast (x mod ucast n) :: u32) = unat (x mod ucast n)"
    using unat_lt_u32 [of n] by (simp add: unsigned_ucast_eq take_bit_nat_eq_self)
  ultimately show ?thesis by simp
qed

lemma submit_spec:
  assumes wf: "sched_wf (Suc n) s" and x: "x \<noteq> NULL"
  obtains r s' where "img_scheduler_submit (Some s) x = Some (r, Some s')" and "sched_wf n s'"
    and "queued s' = (if r = 0 then add_mset x (queued s) else queued s)"
    and "length (workers s') = length (workers s)"
proof -
  define i where "i = unat (ucast (x mod ucast (worker_count s)) :: u32)"
  have c0: "worker_count s \<noteq> 0" "length (workers s) = unat (worker_count s)" using wf by (simp_all add: sched_wf_def)
  have i: "i < length (workers s)" using target_lt [OF c0(1)] c0(2) by (simp add: i_def)
  obtain r s1 where p: "worker_push s i x = Some (r, s1)" "sched_wf (Suc n) s1"
    "queued s1 = (if r then add_mset x (queued s) else queued s)" "length (workers s1) = length (workers s)"
    by (rule worker_push_spec [OF wf i x]) blast
  show thesis
  proof (cases r)
    case True
    then show thesis
      using p c0 x sched_wf_less [OF p(2), of n] that [of 0 s1] by (simp add: img_scheduler_submit_def i_def)
  next
    case False
    have "m_wf (Suc n) (global_queue s1)" using p(2) by (simp add: sched_wf_def)
    from mpmc_push_spec [OF this, of x] obtain k g where g: "img_mpmc_push (global_queue s1) x = Some (k, g)" "m_wf n g"
      "m_contents g = (if k = 0 then m_contents (global_queue s1) @ [x] else m_contents (global_queue s1))"
      by (auto simp: map_option_case split: option.splits if_splits)
    define s2 where "s2 = s1\<lparr>global_queue := g\<rparr>"
    have "queued s2 + {#} = queued s1 + (if k = 0 then {#x#} else {#})"
      unfolding s2_def by (rule global_set) (simp add: g(3))
    then have qd: "queued s2 = (if k = 0 then add_mset x (queued s) else queued s)" using p(3) False by simp
    then have "sched_wf n s2"
      using p(2) g(2) x wf by (auto simp: sched_wf_def s2_def)
    moreover have "img_scheduler_submit (Some s) x = Some (k, Some s2)"
      using p(1) c0 x g(1) False by (simp add: img_scheduler_submit_def i_def s2_def)
    ultimately show thesis
      using that qd p(4) by (simp add: s2_def)
  qed
qed

lemma steal_from_spec:
  assumes "sched_wf (Suc n) s" and "set vs \<subseteq> {..<length (workers s)}"
  shows "\<exists>x s'. steal_from vs s = Some (x, s') \<and> sched_wf n s' \<and> length (workers s') = length (workers s) \<and>
    (if x = NULL then queued s' = queued s \<and> m_contents (global_queue s) = [] \<and>
       (\<forall>v \<in> set vs. worker_tasks (workers s ! v) = [])
     else queued s = add_mset x (queued s'))"
  using assms(2)
proof (induction vs)
  case Nil
  have "m_wf (Suc n) (global_queue s)" using assms(1) by (simp add: sched_wf_def)
  from mpmc_pop_spec [OF this] obtain x g where g: "img_mpmc_pop (global_queue s) = Some (x, g)" "m_wf n g"
    "x = (case m_contents (global_queue s) of [] \<Rightarrow> NULL | x # _ \<Rightarrow> x)" "m_contents g = tl (m_contents (global_queue s))"
    by blast
  define s2 where "s2 = s\<lparr>global_queue := g\<rparr>"
  have run: "steal_from [] s = Some (x, s2)" using g(1) by (simp add: s2_def)
  have wf2: "sched_wf n s2" if "NULL \<notin># queued s2"
    using assms(1) g(2) that by (simp add: sched_wf_def s2_def)
  have n0: "NULL \<notin># queued s" using assms(1) by (simp add: sched_wf_def)
  have len: "length (workers s2) = length (workers s)" by (simp add: s2_def)
  show ?case
  proof (cases "m_contents (global_queue s)")
    case Nil': Nil
    have "queued s2 + {#} = queued s + {#}" unfolding s2_def by (rule global_set) (simp add: g(4) Nil')
    then have "queued s2 = queued s" by simp
    then show ?thesis
      using run wf2 len n0 g(3) Nil' by simp
  next
    case (Cons y ys)
    have "queued s2 + {#y#} = queued s + {#}" unfolding s2_def by (rule global_set) (simp add: g(4) Cons)
    then have qd: "queued s = add_mset y (queued s2)" by simp
    then show ?thesis
      using run wf2 len n0 g(3) Cons by auto
  qed
next
  case (Cons v vs)
  have v: "v < length (workers s)" using Cons.prems by simp
  obtain x s1 where p: "worker_pop s v = Some (x, s1)" "sched_wf (Suc n) s1"
    "x = NULL \<Longrightarrow> s1 = s \<and> worker_tasks (workers s ! v) = []"
    "x \<noteq> NULL \<Longrightarrow> queued s = add_mset x (queued s1)" "length (workers s1) = length (workers s)"
    by (rule worker_pop_spec [OF assms(1) v]) blast
  show ?case
  proof (cases "x = NULL")
    case True
    then have s1: "s1 = s" "worker_tasks (workers s ! v) = []" using p(3) by simp_all
    obtain y s2 where y: "steal_from vs s = Some (y, s2)" "sched_wf n s2" "length (workers s2) = length (workers s)"
      "if y = NULL then queued s2 = queued s \<and> m_contents (global_queue s) = [] \<and>
         (\<forall>v \<in> set vs. worker_tasks (workers s ! v) = []) else queued s = add_mset y (queued s2)"
      using Cons by auto
    then show ?thesis using p(1) s1 True by (intro exI [of _ y] exI [of _ s2]) simp
  next
    case False
    then show ?thesis
      using p sched_wf_less [OF p(2), of n] by simp
  qed
qed

lemma victims_set:
  assumes "unat self_id < unat n" and "unat n < 2 ^ 31"
  shows "set (victims self_id n) = {..<unat n}"
proof -
  have v: "unat ((self_id + of_nat i + 1) mod n) = (unat self_id + i + 1) mod unat n" if "i < unat n" for i
  proof -
    have "unat (of_nat i :: u32) = i" using that unat_lt_u32 [of n] by (simp add: unat_of_nat_small)
    then have "unat (self_id + of_nat i) = unat self_id + i" using that assms by (simp add: unat_add_small)
    then have "unat (self_id + of_nat i + 1) = unat self_id + i + 1"
      using that assms unat_add_small [of "self_id + of_nat i" 1] by simp
    then show ?thesis by (simp add: unat_mod)
  qed
  have "\<exists>i < m. j = (a + i + 1) mod m" if "j < m" "a < m" for j a m :: nat
  proof (cases "a < j")
    case True
    then show ?thesis using that by (intro exI [of _ "j - a - 1"]) simp
  next
    case False
    then have "(a + (j + m - a - 1) + 1) mod m = j" using that by (simp add: mod_if)
    then show ?thesis using False that by (intro exI [of _ "j + m - a - 1"]) auto
  qed
  then show ?thesis
    using v assms by (fastforce simp: victims_def image_iff)
qed

lemma queued_empty:
  assumes "m_contents (global_queue s) = []" and "\<forall>v < length (workers s). worker_tasks (workers s ! v) = []"
  shows "queued s = {#}"
  using assms by (auto simp: queued_def in_set_conv_nth)

lemma steal_spec:
  assumes wf: "sched_wf (Suc n) s" and i: "i < length (workers s)"
  obtains x s' where "img_scheduler_steal (Some s) (wid (workers s ! i)) = Some (x, Some s')" and "sched_wf n s'"
    and "length (workers s') = length (workers s)"
    and "if x = NULL then queued s = {#} \<and> queued s' = {#} else queued s = add_mset x (queued s')"
proof -
  have c: "length (workers s) = unat (worker_count s)" "unat (worker_count s) < 2 ^ 31" "wid (workers s ! i) = of_nat i"
    using wf i by (auto simp: sched_wf_def)
  have vs: "set (victims (wid (workers s ! i)) (worker_count s)) = {..<length (workers s)}"
    using victims_set [of "of_nat i" "worker_count s"] i c by (simp add: unat_of_nat_small)
  obtain x s' where p: "steal_from (victims (wid (workers s ! i)) (worker_count s)) s = Some (x, s')" "sched_wf n s'"
    "length (workers s') = length (workers s)" "x \<noteq> NULL \<Longrightarrow> queued s = add_mset x (queued s')"
    "x = NULL \<Longrightarrow> queued s' = queued s \<and> m_contents (global_queue s) = [] \<and>
      (\<forall>v < length (workers s). worker_tasks (workers s ! v) = [])"
    using steal_from_spec [OF wf, of "victims (wid (workers s ! i)) (worker_count s)"] unfolding vs by fastforce
  then show thesis
    using that [of x s'] queued_empty [of s] by (simp add: img_scheduler_steal_def)
qed

section \<open>Runs\<close>

text \<open>Nothing sets the context of a worker.\<close>

lemma worker_push_wctx: "worker_push s i x = Some (r, s') \<Longrightarrow> map wctx (workers s') = map wctx (workers s)"
  by (auto simp: worker_push_def map_update list_update_same_conv split: if_splits bind_splits)

lemma worker_pop_wctx: "worker_pop s i = Some (x, s') \<Longrightarrow> map wctx (workers s') = map wctx (workers s)"
  by (auto simp: worker_pop_def map_update list_update_same_conv split: if_splits bind_splits)

lemma steal_from_wctx: "steal_from vs s = Some (x, s') \<Longrightarrow> map wctx (workers s') = map wctx (workers s)"
  by (induction vs arbitrary: s) (auto dest: worker_pop_wctx split: bind_splits if_splits)

lemma steal_wctx: "img_scheduler_steal (Some s) k = Some (x, Some s') \<Longrightarrow> map wctx (workers s') = map wctx (workers s)"
  by (auto simp: img_scheduler_steal_def dest: steal_from_wctx split: bind_splits)

lemma submit_wctx: "img_scheduler_submit (Some s) x = Some (r, Some s') \<Longrightarrow> map wctx (workers s') = map wctx (workers s)"
  by (auto simp: img_scheduler_submit_def Let_def dest!: worker_push_wctx split: bind_splits if_splits)

lemma worker_iter_spec:
  assumes wf: "sched_wf (Suc n) s" and i: "i < length (workers s)"
    and exec: "wctx (workers s ! i) \<Longrightarrow> \<forall>t e. \<exists>e'. exec t e = Some e'"
  shows "\<exists>out s' env' status'. worker_iter exec i (s, env, status) = Some (out, s', env', status') \<and> sched_wf n s' \<and>
    length (workers s') = length (workers s) \<and>
    queued s = queued s' + (case out of None \<Rightarrow> {#} | Some t \<Rightarrow> {#t#}) \<and>
    (out = None \<longrightarrow> queued s = {#}) \<and> map wctx (workers s') = map wctx (workers s) \<and>
    (\<not> wctx (workers s ! i) \<longrightarrow> env' = env \<and> status' = (case out of None \<Rightarrow> status | Some t \<Rightarrow> status(t := - 1)))"
proof -
  obtain x s1 where p: "worker_pop s i = Some (x, s1)" "sched_wf (Suc n) s1"
    "x = NULL \<Longrightarrow> s1 = s \<and> worker_tasks (workers s ! i) = []"
    "x \<noteq> NULL \<Longrightarrow> queued s = add_mset x (queued s1)" "length (workers s1) = length (workers s)"
    by (rule worker_pop_spec [OF wf i]) blast
  have ws: "wsched (workers s ! i)" using wf i by (simp add: sched_wf_def)
  have finish: "\<exists>out env' status'.
      (if x = NULL then Some (None, s2, env, status)
       else if \<not> wctx (workers s ! i) then Some (Some x, s2, env, status(x := - 1))
       else do { env \<leftarrow> exec x env; Some (Some x, s2, env, status(x := 0)) }) = Some (out, s2, env', status') \<and>
      out = (if x = NULL then None else Some x) \<and>
      (\<not> wctx (workers s ! i) \<longrightarrow> env' = env \<and> status' = (case out of None \<Rightarrow> status | Some t \<Rightarrow> status(t := - 1)))" for x s2
  proof (cases "wctx (workers s ! i) \<and> x \<noteq> NULL")
    case True
    then obtain e' where "exec x env = Some e'" using exec by blast
    then show ?thesis using True by simp
  qed auto
  show ?thesis
  proof (cases "x = NULL")
    case True
    obtain y s2 where y: "img_scheduler_steal (Some s) (wid (workers s ! i)) = Some (y, Some s2)" "sched_wf n s2"
      "length (workers s2) = length (workers s)"
      "if y = NULL then queued s = {#} \<and> queued s2 = {#} else queued s = add_mset y (queued s2)"
      by (rule steal_spec [OF wf i]) blast
    obtain out env' status' where r: "worker_iter exec i (s, env, status) = Some (out, s2, env', status')"
      "out = (if y = NULL then None else Some y)"
      "\<not> wctx (workers s ! i) \<longrightarrow> env' = env \<and> status' = (case out of None \<Rightarrow> status | Some t \<Rightarrow> status(t := - 1))"
      using finish [of y s2] p(1,3) True ws i y(1) by (auto simp: worker_iter_def Let_def)
    have "map wctx (workers s2) = map wctx (workers s)" using steal_wctx [OF y(1)] by simp
    then show ?thesis
      using y r by (intro exI [of _ out] exI [of _ s2] exI [of _ env'] exI [of _ status']) (auto split: if_splits)
  next
    case False
    obtain out env' status' where r: "worker_iter exec i (s, env, status) = Some (out, s1, env', status')"
      "out = (if x = NULL then None else Some x)"
      "\<not> wctx (workers s ! i) \<longrightarrow> env' = env \<and> status' = (case out of None \<Rightarrow> status | Some t \<Rightarrow> status(t := - 1))"
      using finish [of x s1] p(1) False i by (auto simp: worker_iter_def Let_def)
    have "map wctx (workers s1) = map wctx (workers s)" using worker_pop_wctx [OF p(1)] .
    then show ?thesis
      using p r False sched_wf_less [OF p(2), of n]
      by (intro exI [of _ out] exI [of _ s1] exI [of _ env'] exI [of _ status']) auto
  qed
qed

text \<open>
  A run: submissions and worker iterations in any order. It collects the tasks that were
  accepted and the tasks that a worker took up.
\<close>

datatype sched_op = Submit ptr | Work nat

fun sched_run ::
  "(ptr \<Rightarrow> 's \<Rightarrow> 's option) \<Rightarrow> sched_op list \<Rightarrow> img_scheduler \<times> 's \<times> (ptr \<Rightarrow> int) \<Rightarrow>
   (ptr multiset \<times> ptr multiset \<times> img_scheduler \<times> 's \<times> (ptr \<Rightarrow> int)) option" where
  "sched_run exec [] st = Some ({#}, {#}, st)"
| "sched_run exec (Submit x # ops) st = (case st of (s, e) \<Rightarrow> do {
     (r, so) \<leftarrow> img_scheduler_submit (Some s) x;
     (acc, tk, st) \<leftarrow> sched_run exec ops (the so, e);
     Some (if r = 0 then add_mset x acc else acc, tk, st) })"
| "sched_run exec (Work i # ops) st = do {
     (out, st) \<leftarrow> worker_iter exec i st;
     (acc, tk, st) \<leftarrow> sched_run exec ops st;
     Some (acc, (case out of None \<Rightarrow> tk | Some t \<Rightarrow> add_mset t tk), st) }"

lemma submit_null: "img_scheduler_submit (Some s) NULL = Some (- 1, Some s)"
  by (simp add: img_scheduler_submit_def)

lemma submit_cases:
  assumes wf: "sched_wf (Suc n) s"
  shows "\<exists>r s'. img_scheduler_submit (Some s) x = Some (r, Some s') \<and> sched_wf n s' \<and>
    queued s' = (if r = 0 then add_mset x (queued s) else queued s) \<and> length (workers s') = length (workers s)"
proof (cases "x = NULL")
  case True
  then show ?thesis using submit_null [of s] sched_wf_less [OF wf, of n] by simp
next
  case False
  show ?thesis by (rule submit_spec [OF wf False]) blast
qed

text \<open>What the taken tasks leave in the status words when no worker has a context.\<close>

definition marked_failed :: "ptr multiset \<Rightarrow> (ptr \<Rightarrow> int) \<Rightarrow> ptr \<Rightarrow> int" where
  "marked_failed tk status t = (if t \<in># tk then - 1 else status t)"

lemma marked_failed_simps [simp]:
  "marked_failed {#} status = status"
  "marked_failed tk (status(t := - 1)) = marked_failed (add_mset t tk) status"
  by (auto simp: marked_failed_def fun_eq_iff)

lemma sched_run_spec:
  assumes "sched_wf (length ops) s" and "\<And>i. Work i \<in> set ops \<Longrightarrow> i < length (workers s)"
    and "True \<notin> set (map wctx (workers s))"
  shows "\<exists>acc tk s'. sched_run exec ops (s, env, status) = Some (acc, tk, s', env, marked_failed tk status) \<and>
    queued s + acc = tk + queued s' \<and> sched_wf 0 s'"
  using assms
proof (induction ops arbitrary: s env status)
  case Nil
  then show ?case by simp
next
  case (Cons op ops)
  have wf: "sched_wf (Suc (length ops)) s" using Cons.prems(1) by simp
  show ?case
  proof (cases op)
    case (Submit x)
    obtain r s1 where s1: "img_scheduler_submit (Some s) x = Some (r, Some s1)" "sched_wf (length ops) s1"
      "queued s1 = (if r = 0 then add_mset x (queued s) else queued s)" "length (workers s1) = length (workers s)"
      using submit_cases [OF wf, of x] by blast
    obtain acc tk s' where run: "sched_run exec ops (s1, env, status) = Some (acc, tk, s', env, marked_failed tk status)"
      "queued s1 + acc = tk + queued s'" "sched_wf 0 s'"
      using Cons.IH [OF s1(2), of env status] Cons.prems(2,3) s1(4) submit_wctx [OF s1(1)] by auto
    show ?thesis
      using s1 run Submit by (intro exI [of _ "if r = 0 then add_mset x acc else acc"] exI) auto
  next
    case (Work i)
    then have i: "i < length (workers s)" using Cons.prems(2) by simp
    then have ctx: "\<not> wctx (workers s ! i)" using Cons.prems(3) by auto
    obtain out s1 where it: "worker_iter exec i (s, env, status) =
        Some (out, s1, env, case out of None \<Rightarrow> status | Some t \<Rightarrow> status(t := - 1))"
      "sched_wf (length ops) s1" "length (workers s1) = length (workers s)"
      "queued s = queued s1 + (case out of None \<Rightarrow> {#} | Some t \<Rightarrow> {#t#})" "map wctx (workers s1) = map wctx (workers s)"
      using worker_iter_spec [OF wf i, of exec env status] ctx by auto
    obtain acc tk s' where run: "sched_run exec ops (s1, env, case out of None \<Rightarrow> status | Some t \<Rightarrow> status(t := - 1)) =
        Some (acc, tk, s', env, marked_failed tk (case out of None \<Rightarrow> status | Some t \<Rightarrow> status(t := - 1)))"
      "queued s1 + acc = tk + queued s'" "sched_wf 0 s'"
      using Cons.IH [OF it(2), of env "case out of None \<Rightarrow> status | Some t \<Rightarrow> status(t := - 1)"] Cons.prems(2,3) it(3,5) by auto
    show ?thesis
      using it run Work by (intro exI [of _ acc] exI [of _ "case out of None \<Rightarrow> tk | Some t \<Rightarrow> add_mset t tk"] exI)
        (auto split: option.splits)
  qed
qed

section \<open>A fresh scheduler\<close>

lemma queued_fresh:
  assumes "\<forall>w \<in> set (workers s). worker_tasks w = []" and "m_contents (global_queue s) = []"
  shows "queued s = {#}"
  using assms by (auto simp: queued_def)

lemma scheduler_init_wf:
  assumes "n \<noteq> 0" and "unat n < 2 ^ 31"
  obtains s where "img_scheduler_init True (\<lambda>_. True) (\<lambda>_. (True, True)) wthr (Some s0) n = Some (0, Some s)"
    and "sched_wf (2 ^ 61) s" and "queued s = {#}" and "worker_count s = n"
    and "True \<notin> set (map wctx (workers s))"
proof -
  obtain q where q: "img_queue_create True True 10 = Some (Some q)" "q_wf q" "q_contents q = []"
    using create_wf [of 10] by auto
  obtain g where g: "img_mpmc_init (\<lambda>_. True) (Some (global_queue s0)) 1024 = Some (0, Some g)" "m_wf (2 ^ 61) g" "m_contents g = []"
    using mpmc_init_wf [of 1024 "global_queue s0"] by auto
  define w where "w i = \<lparr>wid = of_nat i, wqueue = Some q, wsched = True, wctx = False, running = True, wthread = wthr i\<rparr>" for i
  define s1 where "s1 = s0\<lparr>worker_count := n, workers := replicate (unat n) zero_worker, global_queue := g\<rparr>"
  define body where "body i s = do {
      (_, w) \<leftarrow> img_worker_init True True (wthr i) (Some (workers s ! i)) (of_nat i) True False;
      Some (s\<lparr>workers := (workers s)[i := the w]\<rparr>) }" for i and s :: img_scheduler
  have body: "body i s = Some (s\<lparr>workers := (workers s)[i := w i]\<rparr>)" if "workers s ! i = zero_worker" for i s
    using that q by (simp add: body_def img_worker_init_def w_def zero_worker_def Let_def)
  have "\<exists>s'. foreach [0..<unat n] body s1 = Some s' \<and>
      (worker_count s' = n \<and> global_queue s' = g \<and> length (workers s') = unat n \<and>
       (\<forall>i < unat n. workers s' ! i = (if i < unat n then w i else zero_worker)))"
    by (rule foreach_upt_invariant [where I = "\<lambda>k s'. worker_count s' = n \<and> global_queue s' = g \<and>
        length (workers s') = unat n \<and> (\<forall>i < unat n. workers s' ! i = (if i < k then w i else zero_worker))"])
       (auto simp: s1_def body nth_list_update)
  then obtain s where s: "foreach [0..<unat n] body s1 = Some s" "worker_count s = n" "global_queue s = g"
    "length (workers s) = unat n" "\<And>i. i < unat n \<Longrightarrow> workers s ! i = w i"
    by auto
  have "img_scheduler_init True (\<lambda>_. True) (\<lambda>_. (True, True)) wthr (Some s0) n = Some (0, Some s)"
    using assms(1) g(1) s(1) by (simp add: img_scheduler_init_def Let_def body_def [abs_def] s1_def)
  moreover have "queued s = {#}"
    using s g q by (intro queued_fresh) (auto simp: in_set_conv_nth w_def worker_tasks_def)
  moreover have "True \<notin> set (map wctx (workers s))" using s(4,5) by (auto simp: in_set_conv_nth w_def)
  ultimately show thesis
    using that s assms g q by (auto simp: sched_wf_def w_def)
qed

section \<open>Overlapping calls\<close>

text \<open>
  \<open>img_queue_pop\<close> reads \<open>head\<close> and the cell, then stores the next \<open>head\<close>, with no exchange between
  the two. The owner of a ring and every thief call it.
\<close>

definition pop_read :: "img_queue \<Rightarrow> (u32 \<times> ptr) option" where
  "pop_read q = (if head q = tail q then Some (head q, NULL) else do { x \<leftarrow> buf_load q (head q); Some (head q, x) })"

definition pop_store :: "u32 \<Rightarrow> img_queue \<Rightarrow> img_queue" where
  "pop_store h q = q\<lparr>head := (h + 1) AND mask_of q\<rparr>"

lemma pop_halves: "img_queue_pop q = do { (h, x) \<leftarrow> pop_read q; Some (x, if head q = tail q then q else pop_store h q) }"
  by (cases "buf_load q (head q)") (auto simp: img_queue_pop_def pop_read_def pop_store_def Let_def)

text \<open>
  Two threads that both read before either stores take the same task, and the ring gives up one:
  the task is handled twice. A thread that stores late, after another has popped again, puts \<open>head\<close>
  back, and tasks already handled are in the ring again.
\<close>

lemma overlapping_pops_duplicate:
  assumes "q_wf q" and "q_contents q = x # xs"
  shows "\<exists>h. pop_read q = Some (h, x) \<and> q_contents (pop_store h (pop_store h q)) = xs"
proof -
  obtain q' where q': "img_queue_pop q = Some (x, q')" "q_contents q' = xs"
    using pop_spec [OF assms(1)] assms(2) by auto
  have "head q \<noteq> tail q" using assms(2) by (auto simp: q_contents_def q_used_def)
  then have "pop_read q = Some (head q, x) \<and> q' = pop_store (head q) q"
    using q'(1) by (auto simp: img_queue_pop_def pop_read_def pop_store_def Let_def split: bind_splits)
  moreover have "pop_store h (pop_store h q) = pop_store h q" for h by (simp add: pop_store_def)
  ultimately show ?thesis using q'(2) by auto
qed

lemma late_pop_brings_back:
  assumes "q_wf q" and "q_contents q = x # y # ys" and "y \<noteq> NULL" "x \<noteq> NULL"
  shows "\<exists>h q1 q2. pop_read q = Some (h, x) \<and> img_queue_pop q = Some (x, q1) \<and> img_queue_pop q1 = Some (y, q2) \<and>
    q_contents q2 = ys \<and> q_contents (pop_store h q2) = y # ys"
proof -
  obtain h where h: "pop_read q = Some (h, x)" "q_contents (pop_store h (pop_store h q)) = y # ys"
    using overlapping_pops_duplicate [OF assms(1,2)] by blast
  obtain q1 where q1: "img_queue_pop q = Some (x, q1)" "q_wf q1" "q_contents q1 = y # ys"
    using pop_spec [OF assms(1)] assms(2) by auto
  obtain q2 where q2: "img_queue_pop q1 = Some (y, q2)" "q_contents q2 = ys"
    using pop_spec [OF q1(2)] q1(3) by auto
  have frame: "\<exists>k. q' = pop_store k q" if "img_queue_pop q = Some (x, q')" "x \<noteq> NULL" for q x q'
    using that by (auto simp: img_queue_pop_def pop_store_def Let_def split: if_splits bind_splits)
  have "pop_store h q2 = pop_store h (pop_store h q)"
    using frame [OF q1(1) assms(4)] frame [OF q2(1) assms(3)] by (auto simp: pop_store_def)
  then show ?thesis using h q1(1) q2 by auto
qed

text \<open>
  The threads start inside \<open>img_scheduler_init\<close>, one by one. A worker that finds nothing to do while
  the next one has no queue yet pops from a null queue.
\<close>

lemma steal_during_init:
  assumes "worker_pop s i = Some (NULL, s)" and "i < length (workers s)" and "wsched (workers s ! i)"
    and "1 < worker_count s" and "wqueue (workers s ! unat ((wid (workers s ! i) + 1) mod worker_count s)) = None"
  shows "worker_iter exec i (s, env, status) = None"
proof -
  have "unat (worker_count s) \<noteq> 0" using assms(4) by (auto simp: unat_eq_0)
  then have "[0..<unat (worker_count s)] = 0 # [1..<unat (worker_count s)]" by (simp add: upt_conv_Cons)
  then have "victims (wid (workers s ! i)) (worker_count s) = unat ((wid (workers s ! i) + 1) mod worker_count s) #
      map (\<lambda>j. unat ((wid (workers s ! i) + of_nat j + 1) mod worker_count s)) [1..<unat (worker_count s)]"
    by (simp add: victims_def)
  moreover have "worker_pop s (unat ((wid (workers s ! i) + 1) mod worker_count s)) = None"
    using assms(5) by (simp add: worker_pop_def)
  ultimately show ?thesis using assms(1-3) by (simp add: worker_iter_def img_scheduler_steal_def)
qed

section \<open>Properties\<close>

text \<open>
  A scheduler whose threads were all created can be destroyed: every worker is told to stop and
  joined. One with a worker that lacked memory, or whose \<open>pthread_create\<close> failed, cannot.
\<close>

lemma scheduler_destroy_stops:
  assumes "length (workers s) = unat (worker_count s)"
  shows "img_scheduler_destroy (Some s) =
    (if \<forall>w \<in> set (workers s). wthread w then Some (map (\<lambda>w. w\<lparr>running := False, wthread := False\<rparr>) (workers s)) else None)"
proof -
  define body where "body i ws = (if i < length ws \<and> wthread (ws ! i)
    then Some (ws[i := (the (img_worker_stop (Some (ws ! i))))\<lparr>wthread := False\<rparr>]) else None)" for i and ws :: "img_worker list"
  let ?n = "length (workers s)"
  let ?stopped = "\<lambda>k. map (\<lambda>w. w\<lparr>running := False, wthread := False\<rparr>) (take k (workers s)) @ drop k (workers s)"
  have run: "foreach [0..<k] body (workers s) =
      (if \<forall>i < k. wthread (workers s ! i) then Some (?stopped k) else None)" if "k \<le> ?n" for k
    using that
  proof (induction k)
    case (Suc k)
    have k: "k < ?n" using Suc.prems by simp
    have "length (?stopped k) = ?n" "?stopped k ! k = workers s ! k" using k by (simp_all add: nth_append)
    moreover have "(?stopped k)[k := (workers s ! k)\<lparr>running := False, wthread := False\<rparr>] = ?stopped (Suc k)"
      using k by (simp add: list_update_append take_Suc_conv_app_nth flip: Cons_nth_drop_Suc)
    ultimately have "body k (?stopped k) = (if wthread (workers s ! k) then Some (?stopped (Suc k)) else None)"
      unfolding body_def using k by (simp add: img_worker_stop_def)
    then show ?case using Suc by (auto simp: foreach_snoc less_Suc_eq)
  qed simp
  have "(\<forall>w \<in> set (workers s). wthread w) \<longleftrightarrow> (\<forall>i < ?n. wthread (workers s ! i))"
    by (simp add: all_set_conv_all_nth)
  moreover have "img_scheduler_destroy (Some s) = foreach [0..<?n] body (workers s)"
    using assms by (simp add: img_scheduler_destroy_def body_def [abs_def])
  ultimately show ?thesis using run [of ?n] by simp
qed

text \<open>
  C10. What a scheduler does with its tasks when calls do not overlap. After an \<open>img_scheduler_init\<close>
  that got its memory, in any sequence of submissions and worker iterations (of any workers, in
  any order, each call running to its end before the next), the tasks taken up by workers together
  with those still queued are exactly the tasks whose submission was accepted, as multisets. No
  task is executed: \<open>img_scheduler_init\<close> starts the workers without a context, which its comment
  leaves to the callers and nothing in the repository sets, so every task taken up is marked as
  failed with status \<open>-1\<close>, and the state the pipelines work on is unchanged.
\<close>

theorem scheduler_conserves_tasks:
  assumes "n \<noteq> 0" and "unat n < 2 ^ 31" and "length trace \<le> 2 ^ 61"
    and "\<And>i. Work i \<in> set trace \<Longrightarrow> i < unat n"
  shows "\<exists>s acc tk s'.
    img_scheduler_init True (\<lambda>_. True) (\<lambda>_. (True, True)) wthr (Some s0) n = Some (0, Some s) \<and>
    sched_run exec trace (s, env, status) = Some (acc, tk, s', env, \<lambda>t. if t \<in># tk then - 1 else status t) \<and>
    acc = tk + queued s'"
proof -
  obtain s where s: "img_scheduler_init True (\<lambda>_. True) (\<lambda>_. (True, True)) wthr (Some s0) n = Some (0, Some s)"
    "sched_wf (2 ^ 61) s" "queued s = {#}" "worker_count s = n" "True \<notin> set (map wctx (workers s))"
    using scheduler_init_wf [OF assms(1,2)] by metis
  have "length (workers s) = unat n" using s(2,4) by (simp add: sched_wf_def)
  then show ?thesis
    using sched_run_spec [OF sched_wf_less [OF s(2) assms(3)], of exec env status] assms(4) s
    by (auto simp: marked_failed_def [abs_def])
qed

definition blank_sched :: img_scheduler where
  "blank_sched = \<lparr>worker_count = 0, workers = [], global_queue = blank_mpmc\<rparr>"

theorem scheduler_conserves_tasks_witness:
  "\<exists>s acc tk s'.
    img_scheduler_init True (\<lambda>_. True) (\<lambda>_. (True, True)) (\<lambda>_. True) (Some blank_sched) 2 = Some (0, Some s) \<and>
    sched_run (\<lambda>t e. Some (t # e)) [Submit 64, Submit 128, Work 1, Work 0] (s, [], \<lambda>_. 5) =
      Some (acc, tk, s', [], \<lambda>t. if t \<in># tk then - 1 else 5) \<and> acc = tk + queued s'"
  by (rule scheduler_conserves_tasks) auto

text \<open>
  C21. The scheduler is work-conserving: an iteration of any worker takes up a task, its own or
  a stolen one, whenever any queue holds one; it idles only when all queues are empty.
\<close>

theorem worker_never_idles:
  assumes "sched_wf (Suc n) s" and "i < length (workers s)" and "queued s \<noteq> {#}"
    and "\<forall>t e. \<exists>e'. exec t e = Some e'"
  shows "\<exists>t s' env' status'. worker_iter exec i (s, env, status) = Some (Some t, s', env', status') \<and>
    queued s = add_mset t (queued s') \<and> sched_wf n s'"
proof -
  obtain out s' env' status' where "worker_iter exec i (s, env, status) = Some (out, s', env', status')" "sched_wf n s'"
    "queued s = queued s' + (case out of None \<Rightarrow> {#} | Some t \<Rightarrow> {#t#})" "out = None \<longrightarrow> queued s = {#}"
    using worker_iter_spec [OF assms(1,2,4), of env status] by blast
  then show ?thesis using assms(3) by (cases out) auto
qed

text \<open>One worker whose ring of two slots holds one task.\<close>

definition demo_sched :: img_scheduler where
  "demo_sched = \<lparr>worker_count = 1,
     workers = [\<lparr>wid = 0,
       wqueue = Some \<lparr>buffer = Some [64, 0], capacity = 2, mask_of = 1, head = 0, tail = 1\<rparr>,
       wsched = True, wctx = True, running = True, wthread = True\<rparr>],
     global_queue = \<lparr>msize = 2, mmask = 1, mcells = [\<lparr>seq = 0, cdata = 0\<rparr>, \<lparr>seq = 1, cdata = 0\<rparr>],
       mhead = 0, mtail = 0\<rparr>\<rparr>"

lemma demo_sched_wf: "sched_wf (Suc 9) demo_sched" "queued demo_sched = {#64#}"
proof -
  have m: "m_wf 10 (global_queue demo_sched)"
    by (auto simp: m_wf_def demo_sched_def less_Suc_eq intro!: exI [of _ 1])
  have q: "q_wf \<lparr>buffer = Some [64, 0], capacity = 2, mask_of = 1, head = 0, tail = 1\<rparr>"
    by (auto simp: q_wf_def q_size_def intro!: exI [of _ 1])
  show d: "queued demo_sched = {#64#}"
    by (simp add: queued_def demo_sched_def worker_tasks_def q_contents_def q_used_def q_size_def m_contents_def)
  show "sched_wf (Suc 9) demo_sched"
    using m q d by (simp add: sched_wf_def demo_sched_def)
qed

theorem worker_never_idles_witness:
  "\<exists>t s' env' status'. worker_iter (\<lambda>t e. Some (t # e)) 0 (demo_sched, [], \<lambda>_. 5) = Some (Some t, s', env', status') \<and>
    queued demo_sched = add_mset t (queued s') \<and> sched_wf 9 s'"
  by (rule worker_never_idles [OF demo_sched_wf(1)]) (simp_all add: demo_sched_wf, simp add: demo_sched_def)

end
