(* ===== verification/Dispatch.thy ===== *)
theory Dispatch
  imports Validation Arena
begin

text \<open>
  Kernel tables and pipeline execution: \<open>pipeline/jump_table.c\<close>, \<open>pipeline/hardware_registry.c\<close>,
  \<open>pipeline/fused_registry.c\<close>, \<open>plugins/plugin_registry.c\<close>, \<open>runtime/plugin_loader.c\<close>,
  \<open>startup/engine_init.c\<close>, \<open>pipeline/dispatch.c\<close>, \<open>pipeline/engine.c\<close>, \<open>hot/pipeline_exec.c\<close>,
  \<open>hot/batch_exec.c\<close>, \<open>runtime/exec_router.c\<close>, \<open>cold/pipeline_compiled.c\<close>,
  \<open>pipeline/pipeline_build.c\<close> and \<open>core/img_pipeline.c\<close>.

  A function pointer is the name of the function it points to; what a kernel does is a
  parameter \<open>exec\<close> of the execution loops.
\<close>

section \<open>Jump tables\<close>

datatype img_kernel =
    K_resize_scalar | K_resize_avx2 | K_resize_avx512
  | K_arch_resize_h_avx2 | K_arch_resize_v_avx2 | K_arch_grayscale_avx2
  | K_arch_resize_h_scalar | K_arch_resize_v_scalar | K_arch_grayscale_scalar
  | K_grayscale_exec | K_resize_single | K_other nat

datatype img_batch_kernel = KB_resize_fused_avx2 | KB_fused_resize_color_norm_avx2 | KB_other nat

definition IMG_MAX_OPS :: u32 where "IMG_MAX_OPS = 256"

record img_tables =
  g_jump_table :: "img_kernel option list"
  g_batch_jump_table :: "img_batch_kernel option list"

definition set_op :: "u32 \<Rightarrow> img_kernel \<Rightarrow> img_tables \<Rightarrow> img_tables" where
  "set_op opcode k t = t\<lparr>g_jump_table := (g_jump_table t)[unat opcode := Some k]\<rparr>"

definition set_batch_op :: "u32 \<Rightarrow> img_batch_kernel \<Rightarrow> img_tables \<Rightarrow> img_tables" where
  "set_batch_op opcode k t = t\<lparr>g_batch_jump_table := (g_batch_jump_table t)[unat opcode := Some k]\<rparr>"

definition img_register_op ::
  "u32 \<Rightarrow> img_kernel option \<Rightarrow> img_batch_kernel option \<Rightarrow> img_tables \<Rightarrow> img_tables" where
  "img_register_op opcode single_fn batch_fn t =
     (if opcode \<ge> IMG_MAX_OPS then t
      else let t = (case single_fn of Some k \<Rightarrow> set_op opcode k t | None \<Rightarrow> t) in
        (case batch_fn of Some k \<Rightarrow> set_batch_op opcode k t | None \<Rightarrow> t))"

definition img_jump_table_init :: "cpu_caps \<Rightarrow> img_tables" where
  "img_jump_table_init caps =
     (let t = \<lparr>g_jump_table = replicate 256 None, g_batch_jump_table = replicate 256 None\<rparr> in
      if img_cpu_has_avx512 caps then set_op OP_RESIZE K_resize_avx512 t
      else if img_cpu_has_avx2 caps then
        set_batch_op OP_RESIZE KB_resize_fused_avx2 (set_op OP_RESIZE K_resize_avx2 t)
      else set_op OP_RESIZE K_resize_scalar t)"

definition img_hw_register_kernels :: "cpu_caps \<Rightarrow> img_tables \<Rightarrow> img_tables" where
  "img_hw_register_kernels caps t =
     (if img_cpu_has_avx512 caps then
        set_op OP_GRAYSCALE K_arch_grayscale_avx2 (set_op OP_RESIZE_V K_arch_resize_v_avx2
          (set_op OP_RESIZE_H K_arch_resize_h_avx2 t))
      else if img_cpu_has_avx2 caps then
        set_op OP_GRAYSCALE K_arch_grayscale_avx2 (set_op OP_RESIZE_V K_arch_resize_v_avx2
          (set_op OP_RESIZE_H K_arch_resize_h_avx2 t))
      else if img_cpu_has_neon caps then
        set_op OP_RESIZE_V K_arch_resize_v_avx2 (set_op OP_RESIZE_H K_arch_resize_h_avx2 t)
      else
        set_op OP_GRAYSCALE K_arch_grayscale_scalar (set_op OP_RESIZE_V K_arch_resize_v_scalar
          (set_op OP_RESIZE_H K_arch_resize_h_scalar t)))"

definition img_fused_init :: "cpu_caps \<Rightarrow> img_tables \<Rightarrow> img_tables" where
  "img_fused_init caps t =
     (if img_cpu_has_avx2 caps then set_batch_op OP_RESIZE KB_fused_resize_color_norm_avx2 t else t)"

section \<open>Plugins\<close>

definition IMG_PLUGIN_ABI_VERSION :: u32 where "IMG_PLUGIN_ABI_VERSION = 1"
definition IMG_CAP_SINGLE :: u32 where "IMG_CAP_SINGLE = 1"
definition IMG_CAP_BATCH :: u32 where "IMG_CAP_BATCH = 2"

record img_plugin_descriptor =
  pname :: string
  abi_version :: u32
  pop_code :: u32
  capabilities :: u32
  single_exec :: "img_kernel option"
  batch_exec :: "img_batch_kernel option"

text \<open>The section of plugin descriptors, in the order the linker puts it; an entry may be null.\<close>

definition plugin_init :: "img_plugin_descriptor option \<Rightarrow> img_tables \<Rightarrow> img_tables" where
  "plugin_init po t =
     (case po of
        None \<Rightarrow> t
      | Some p \<Rightarrow>
          if abi_version p \<noteq> IMG_PLUGIN_ABI_VERSION then t
          else img_register_op (pop_code p)
            (if capabilities p AND IMG_CAP_SINGLE \<noteq> 0 then single_exec p else None)
            (if capabilities p AND IMG_CAP_BATCH \<noteq> 0 then batch_exec p else None) t)"

definition img_plugins_init_all :: "img_plugin_descriptor option list \<Rightarrow> img_tables \<Rightarrow> img_tables" where
  "img_plugins_init_all ps t = fold plugin_init ps t"

text \<open>The loader reads the same section, without the null test and without the capability mask.\<close>

definition plugin_load :: "img_plugin_descriptor option \<Rightarrow> img_tables \<Rightarrow> img_tables option" where
  "plugin_load po t = do {
     p \<leftarrow> po;
     Some (if abi_version p \<noteq> IMG_PLUGIN_ABI_VERSION then t
           else img_register_op (pop_code p) (single_exec p) (batch_exec p) t) }"

definition img_plugin_load_all ::
  "string option \<Rightarrow> img_plugin_descriptor option list \<Rightarrow> img_tables \<Rightarrow> (int \<times> img_tables) option" where
  "img_plugin_load_all directory ps t =
     (case directory of
        None \<Rightarrow> Some (- 1, t)
      | Some _ \<Rightarrow> do { t \<leftarrow> foreach ps plugin_load t; Some (0, t) })"

text \<open>The two plugins of the repository.\<close>

definition grayscale_plugin :: img_plugin_descriptor where
  "grayscale_plugin = \<lparr>pname = ''grayscale'', abi_version = IMG_PLUGIN_ABI_VERSION, pop_code = OP_GRAYSCALE,
     capabilities = IMG_CAP_SINGLE, single_exec = Some K_grayscale_exec, batch_exec = None\<rparr>"

definition resize_plugin :: img_plugin_descriptor where
  "resize_plugin = \<lparr>pname = ''resize'', abi_version = IMG_PLUGIN_ABI_VERSION, pop_code = 1,
     capabilities = IMG_CAP_SINGLE, single_exec = Some K_resize_single, batch_exec = None\<rparr>"

section \<open>Engine start\<close>

record img_engine_state =
  tables :: img_tables
  engine_caps :: cpu_caps
  io_registered :: bool

text \<open>
  \<open>img_engine_init\<close>: \<open>sandboxed\<close> is the result of \<open>img_security_enter_sandbox\<close>, \<open>detected\<close> that of
  \<open>img_cpu_detect_caps\<close>. \<open>Inl ()\<close> is \<open>abort()\<close>; a null engine changes nothing.
\<close>

definition img_engine_init ::
  "bool \<Rightarrow> cpu_caps \<Rightarrow> img_plugin_descriptor option list \<Rightarrow> bool \<Rightarrow> img_engine_state \<Rightarrow> (unit + img_engine_state) option" where
  "img_engine_init sandboxed detected ps engine_given st =
     (if \<not> engine_given then Some (Inr st)
      else if \<not> sandboxed then Some (Inl ())
      else do {
        let t = img_jump_table_init detected;
        let t = img_hw_register_kernels detected t;
        let t = img_fused_init detected t;
        let t = img_plugins_init_all ps t;
        (_, t) \<leftarrow> img_plugin_load_all (Some ''./plugins_build'') ps t;
        Some (Inr \<lparr>tables = t, engine_caps = detected, io_registered = True\<rparr>) })"

section \<open>Pipelines\<close>

text \<open>\<open>core/img_pipeline.c\<close>: \<open>ops\<close> stays uninitialised, so no access through it is defined.\<close>

definition img_pipeline_create :: "bool \<Rightarrow> img_pipeline_desc option" where
  "img_pipeline_create malloc_ok = (if malloc_ok then Some \<lparr>ops = [], op_count = 0\<rparr> else None)"

definition img_pipeline_add_op ::
  "img_pipeline_desc option \<Rightarrow> u32 \<Rightarrow> ptr \<Rightarrow> (int \<times> img_pipeline_desc option) option" where
  "img_pipeline_add_op po code params =
     (case po of
        None \<Rightarrow> Some (- 1, None)
      | Some p \<Rightarrow>
          if op_count p \<ge> IMG_MAX_PIPELINE_OPS then Some (- 1, po)
          else if unat (op_count p) < length (ops p) then
            Some (0, Some (p\<lparr>ops := (ops p)[unat (op_count p) := \<lparr>op_code = code, op_params = params\<rparr>],
              op_count := op_count p + 1\<rparr>))
          else None)"

record img_pipeline_runtime =
  rops :: "img_op_desc list"
  rcount :: u32

definition sizeof_op_desc :: u64 where "sizeof_op_desc = 64"

text \<open>
  \<open>img_pipeline_build\<close> copies the operations into the arena; the arena matters through its
  capacity only. On failure \<open>count\<close> is set and \<open>ops\<close> is null.
\<close>

definition img_pipeline_build ::
  "img_pipeline_desc option \<Rightarrow> img_pipeline_runtime option \<Rightarrow> img_arena option \<Rightarrow>
   (int \<times> img_pipeline_runtime option \<times> img_arena option) option" where
  "img_pipeline_build desc runtime arena =
     (case (desc, runtime, arena) of
        (Some d, Some r, Some _) \<Rightarrow>
          let (mem, arena') = img_arena_alloc arena (sizeof_op_desc * ucast (op_count d)) in
          if mem = NULL then Some (- 1, Some \<lparr>rops = [], rcount = op_count d\<rparr>, arena')
          else if unat (op_count d) \<le> length (ops d) then
            Some (0, Some \<lparr>rops = take (unat (op_count d)) (ops d), rcount = op_count d\<rparr>, arena')
          else None
      | _ \<Rightarrow> Some (- 1, runtime, arena))"

record img_pipeline_compiled =
  ccount :: u32
  cops :: "img_kernel option list"
  cparams :: "ptr list"

text \<open>The loop of \<open>img_pipeline_compile\<close> from operation \<open>i\<close> on, with its early return.\<close>

fun compile_ops :: "img_tables \<Rightarrow> img_op_desc list \<Rightarrow> nat \<Rightarrow> nat \<Rightarrow> img_pipeline_compiled \<Rightarrow> (int \<times> img_pipeline_compiled) option" where
  "compile_ops t ds 0 i out = Some (0, out)"
| "compile_ops t [] (Suc n) i out = None"
| "compile_ops t (d # ds) (Suc n) i out =
     (if unat (op_code d) < length (g_jump_table t) then
        (case g_jump_table t ! unat (op_code d) of
           None \<Rightarrow> Some (- 1, out)
         | Some fn \<Rightarrow> compile_ops t ds n (Suc i)
             (out\<lparr>cops := (cops out)[i := Some fn], cparams := (cparams out)[i := op_params d]\<rparr>))
      else None)"

definition img_pipeline_compile ::
  "img_tables \<Rightarrow> img_pipeline_desc option \<Rightarrow> img_pipeline_compiled option \<Rightarrow> (int \<times> img_pipeline_compiled option) option" where
  "img_pipeline_compile t inp out =
     (case (inp, out) of
        (Some d, Some c) \<Rightarrow>
          if op_count d = 0 \<or> op_count d > IMG_MAX_PIPELINE_OPS then Some (- 1, out)
          else map_option (\<lambda>(r, c). (r, Some c))
            (compile_ops t (ops d) (unat (op_count d)) 0 (c\<lparr>ccount := op_count d\<rparr>))
      | _ \<Rightarrow> Some (- 1, out))"

section \<open>Execution\<close>

text \<open>One table look-up: an index outside the table is undefined.\<close>

definition lookup_op :: "'k option list \<Rightarrow> u32 \<Rightarrow> 'k option option" where
  "lookup_op tbl code = (if unat code < length tbl then Some (tbl ! unat code) else None)"

definition hot_step ::
  "(img_kernel \<Rightarrow> ptr \<Rightarrow> 's \<Rightarrow> 's option) \<Rightarrow> img_tables \<Rightarrow> img_op_desc list \<Rightarrow> nat \<Rightarrow> 's \<Rightarrow> 's option" where
  "hot_step exec t ds i s =
     (if i < length ds then do {
        fn \<leftarrow> lookup_op (g_jump_table t) (op_code (ds ! i));
        (case fn of Some k \<Rightarrow> exec k (op_params (ds ! i)) s | None \<Rightarrow> Some s) }
      else None)"

definition img_pipeline_execute_hot ::
  "(img_kernel \<Rightarrow> ptr \<Rightarrow> 's \<Rightarrow> 's option) \<Rightarrow> img_tables \<Rightarrow> img_pipeline_runtime \<Rightarrow> 's \<Rightarrow> 's option" where
  "img_pipeline_execute_hot exec t pipe s = foreach [0..<unat (rcount pipe)] (hot_step exec t (rops pipe)) s"

definition img_batch_execute_rt ::
  "(img_batch_kernel \<Rightarrow> ptr \<Rightarrow> 's \<Rightarrow> 's option) \<Rightarrow> img_tables \<Rightarrow> img_pipeline_runtime \<Rightarrow> 's \<Rightarrow> 's option" where
  "img_batch_execute_rt exec t pipe s =
     foreach [0..<unat (rcount pipe)] (\<lambda>i s.
       if i < length (rops pipe) then do {
         fn \<leftarrow> lookup_op (g_batch_jump_table t) (op_code (rops pipe ! i));
         (case fn of Some k \<Rightarrow> exec k (op_params (rops pipe ! i)) s | None \<Rightarrow> Some s) }
       else None) s"

text \<open>Routing: \<open>runtime/exec_router.c\<close>.\<close>

datatype img_exec_mode = IMG_EXEC_LOCAL | IMG_EXEC_REMOTE

definition img_exec_route :: "u32 \<Rightarrow> img_exec_mode" where
  "img_exec_route code =
     (if code = OP_RESIZE \<or> code = OP_RESIZE_H \<or> code = OP_RESIZE_V \<or> code = OP_GRAYSCALE \<or> code = OP_BRIGHTNESS
      then IMG_EXEC_LOCAL else IMG_EXEC_REMOTE)"

definition dispatch_local ::
  "(img_kernel \<Rightarrow> ptr \<Rightarrow> 's \<Rightarrow> 's option) \<Rightarrow> img_tables \<Rightarrow> u32 \<Rightarrow> ptr \<Rightarrow> 's \<Rightarrow> (int \<times> 's) option" where
  "dispatch_local exec t code params s = do {
     fn \<leftarrow> lookup_op (g_jump_table t) code;
     (case fn of None \<Rightarrow> Some (- 1, s) | Some k \<Rightarrow> do { s \<leftarrow> exec k params s; Some (0, s) }) }"

definition img_exec_dispatch ::
  "(img_kernel \<Rightarrow> ptr \<Rightarrow> 's \<Rightarrow> 's option) \<Rightarrow> (u32 \<Rightarrow> ptr \<Rightarrow> 's \<Rightarrow> (int \<times> 's) option) \<Rightarrow> img_tables \<Rightarrow>
   u32 \<Rightarrow> ptr \<Rightarrow> 's \<Rightarrow> (int \<times> 's) option" where
  "img_exec_dispatch exec img_rpc_send t code params s =
     (if img_exec_route code = IMG_EXEC_LOCAL then do {
        fn \<leftarrow> lookup_op (g_jump_table t) code;
        (case fn of None \<Rightarrow> Some (- 1, s) | Some k \<Rightarrow> do { s \<leftarrow> exec k params s; Some (0, s) }) }
      else img_rpc_send code params s)"

text \<open>\<open>g_dispatch_fn\<close> is \<^const>\<open>None\<close> until \<open>img_dispatch_register\<close> sets it.\<close>

type_synonym 's dispatch_fn = "u32 \<Rightarrow> ptr \<Rightarrow> 's \<Rightarrow> (int \<times> 's) option"

definition img_dispatch ::
  "'s dispatch_fn option \<Rightarrow> (img_kernel \<Rightarrow> ptr \<Rightarrow> 's \<Rightarrow> 's option) \<Rightarrow> img_tables \<Rightarrow> 's dispatch_fn" where
  "img_dispatch g_dispatch_fn exec t =
     (case g_dispatch_fn of Some fn \<Rightarrow> fn | None \<Rightarrow> dispatch_local exec t)"

definition img_pipeline_execute :: "'s dispatch_fn option \<Rightarrow> img_pipeline_desc \<Rightarrow> 's \<Rightarrow> 's option" where
  "img_pipeline_execute g_dispatch_fn pipe s =
     foreach [0..<unat (op_count pipe)] (\<lambda>i s.
       if i < length (ops pipe) then do {
         fn \<leftarrow> g_dispatch_fn;
         (_, s) \<leftarrow> fn (op_code (ops pipe ! i)) (op_params (ops pipe ! i)) s;
         Some s }
       else None) s"

section \<open>Properties of the tables\<close>

definition tables_ok :: "img_tables \<Rightarrow> bool" where
  "tables_ok t \<longleftrightarrow> length (g_jump_table t) = 256 \<and> length (g_batch_jump_table t) = 256"

lemma set_op_ok [simp]: "tables_ok (set_op c k t) = tables_ok t" "tables_ok (set_batch_op c kb t) = tables_ok t"
  by (simp_all add: tables_ok_def set_op_def set_batch_op_def)

lemma register_ok [simp]: "tables_ok (img_register_op c k b t) = tables_ok t"
  by (simp add: img_register_op_def Let_def split: option.splits)

lemma plugin_init_ok [simp]: "tables_ok (plugin_init p t) = tables_ok t"
  by (simp add: plugin_init_def split: option.splits)

lemma plugins_init_ok: "tables_ok t \<Longrightarrow> tables_ok (img_plugins_init_all ps t)"
  unfolding img_plugins_init_all_def by (induction ps arbitrary: t) simp_all

lemma hw_ok: "tables_ok (img_fused_init c (img_hw_register_kernels c (img_jump_table_init c)))"
  by (simp add: img_fused_init_def img_hw_register_kernels_def img_jump_table_init_def Let_def)
     (simp add: tables_ok_def)

text \<open>Loading a list of non-null descriptors is a fold.\<close>

lemma load_all_fold:
  assumes "None \<notin> set ps"
  shows "img_plugin_load_all (Some d) ps t =
    Some (0, fold (\<lambda>po t. the (plugin_load po t)) ps t)"
proof -
  have "plugin_load po t = Some (the (plugin_load po t))" if po: "po \<in> set ps" for po t
  proof -
    have "po \<noteq> None" using po assms by (intro notI) (simp only: )
    then obtain p where "po = Some p" by auto
    then show ?thesis by (simp add: plugin_load_def)
  qed
  then have "foreach ps plugin_load t = Some (fold (\<lambda>po t. the (plugin_load po t)) ps t)"
    by (intro foreach_fold) blast
  then show ?thesis by (simp add: img_plugin_load_all_def)
qed

section \<open>The tables after the start\<close>

text \<open>
  The tables by opcode, as they should be for a CPU and a set of registered plugins. A plugin takes
  the place of a hardware kernel.
\<close>

definition resize_entry :: "cpu_caps \<Rightarrow> img_kernel" where
  "resize_entry caps =
     (if img_cpu_has_avx512 caps then K_resize_avx512 else if img_cpu_has_avx2 caps then K_resize_avx2 else K_resize_scalar)"

definition vector_cpu :: "cpu_caps \<Rightarrow> bool" where
  "vector_cpu caps \<longleftrightarrow> img_cpu_has_avx512 caps \<or> img_cpu_has_avx2 caps"

definition table_entry :: "cpu_caps \<Rightarrow> img_plugin_descriptor option set \<Rightarrow> nat \<Rightarrow> img_kernel option" where
  "table_entry caps S i =
     (if i = 1 then Some (if Some resize_plugin \<in> S then K_resize_single else resize_entry caps)
      else if i = 3 then
        (if Some grayscale_plugin \<in> S then Some K_grayscale_exec
         else if vector_cpu caps then Some K_arch_grayscale_avx2
         else if img_cpu_has_neon caps then None
         else Some K_arch_grayscale_scalar)
      else if i = 16 then
        Some (if vector_cpu caps \<or> img_cpu_has_neon caps then K_arch_resize_h_avx2 else K_arch_resize_h_scalar)
      else if i = 17 then
        Some (if vector_cpu caps \<or> img_cpu_has_neon caps then K_arch_resize_v_avx2 else K_arch_resize_v_scalar)
      else None)"

definition batch_entry :: "cpu_caps \<Rightarrow> nat \<Rightarrow> img_batch_kernel option" where
  "batch_entry caps i = (if i = 1 \<and> img_cpu_has_avx2 caps then Some KB_fused_resize_color_norm_avx2 else None)"

definition tabulated :: "(nat \<Rightarrow> img_kernel option) \<Rightarrow> (nat \<Rightarrow> img_batch_kernel option) \<Rightarrow> img_tables" where
  "tabulated f g = \<lparr>g_jump_table = map f [0..<256], g_batch_jump_table = map g [0..<256]\<rparr>"

definition tables_of :: "cpu_caps \<Rightarrow> img_plugin_descriptor option set \<Rightarrow> img_tables" where
  "tables_of caps S = tabulated (table_entry caps S) (batch_entry caps)"

lemma opcode_unat [simp]:
  "unat OP_RESIZE = 1" "unat OP_GRAYSCALE = 3" "unat OP_RESIZE_H = 16" "unat OP_RESIZE_V = 17"
  by (simp_all add: OP_RESIZE_def OP_GRAYSCALE_def OP_RESIZE_H_def OP_RESIZE_V_def)

lemma map_upt_update: "(map f [0..<n])[k := x] = map (f(k := x)) [0..<n]"
  by (rule nth_equalityI) (simp_all add: nth_list_update)

lemma replicate_map_upt: "replicate n x = map (\<lambda>_. x) [0..<n]"
  by (rule nth_equalityI) simp_all

lemma tabulated_update:
  "set_op c k (tabulated f g) = tabulated (f(unat c := Some k)) g"
  "set_batch_op c kb (tabulated f g) = tabulated f (g(unat c := Some kb))"
  by (simp_all add: set_op_def set_batch_op_def tabulated_def map_upt_update del: upt_rec_numeral)

lemma tabulated_empty: "\<lparr>g_jump_table = replicate 256 None, g_batch_jump_table = replicate 256 None\<rparr> = tabulated (\<lambda>_. None) (\<lambda>_. None)"
  by (simp add: tabulated_def replicate_map_upt del: upt_rec_numeral)

lemma tabulated_nth: "i < 256 \<Longrightarrow> g_jump_table (tabulated f g) ! i = f i"
  by (simp add: tabulated_def del: upt_rec_numeral)

lemma hw_tables: "img_fused_init caps (img_hw_register_kernels caps (img_jump_table_init caps)) = tables_of caps {}"
proof -
  let ?caps = "\<lambda>a. if a then (\<lambda>_. None)(1 := Some KB_fused_resize_color_norm_avx2) else (\<lambda>_. None)"
  have b: "batch_entry caps = ?caps (img_cpu_has_avx2 caps)" by (simp add: batch_entry_def fun_eq_iff)
  note defs = img_fused_init_def img_hw_register_kernels_def img_jump_table_init_def Let_def tabulated_empty tabulated_update
  show ?thesis
  proof (cases "vector_cpu caps")
    case True
    have "table_entry caps {} = (\<lambda>_. None)(1 := Some (resize_entry caps), 16 := Some K_arch_resize_h_avx2,
        17 := Some K_arch_resize_v_avx2, 3 := Some K_arch_grayscale_avx2)"
      using True by (simp add: table_entry_def fun_eq_iff)
    then show ?thesis
      using True b by (cases "img_cpu_has_avx512 caps"; cases "img_cpu_has_avx2 caps")
        (simp_all add: tables_of_def vector_cpu_def resize_entry_def defs)
  next
    case False
    then have no: "\<not> img_cpu_has_avx512 caps" "\<not> img_cpu_has_avx2 caps" by (simp_all add: vector_cpu_def)
    show ?thesis
    proof (cases "img_cpu_has_neon caps")
      case True
      then have "table_entry caps {} = (\<lambda>_. None)(1 := Some K_resize_scalar, 16 := Some K_arch_resize_h_avx2, 17 := Some K_arch_resize_v_avx2)"
        using no by (simp add: table_entry_def vector_cpu_def resize_entry_def fun_eq_iff)
      then show ?thesis using True no b by (simp add: tables_of_def defs)
    next
      case False
      then have "table_entry caps {} = (\<lambda>_. None)(1 := Some K_resize_scalar, 16 := Some K_arch_resize_h_scalar,
          17 := Some K_arch_resize_v_scalar, 3 := Some K_arch_grayscale_scalar)"
        using no by (simp add: table_entry_def vector_cpu_def resize_entry_def fun_eq_iff)
      then show ?thesis using False no b by (simp add: tables_of_def defs)
    qed
  qed
qed

text \<open>Registering one of the two plugins, by either of the two loops.\<close>

lemma plugins_differ: "grayscale_plugin \<noteq> resize_plugin"
  by (simp add: grayscale_plugin_def resize_plugin_def)

lemma other_plugin:
  "Some resize_plugin \<in> insert (Some grayscale_plugin) S \<longleftrightarrow> Some resize_plugin \<in> S"
  "Some grayscale_plugin \<in> insert (Some resize_plugin) S \<longleftrightarrow> Some grayscale_plugin \<in> S"
  using plugins_differ by (metis insert_iff option.inject)+

lemma register_fields:
  "abi_version grayscale_plugin = IMG_PLUGIN_ABI_VERSION" "pop_code grayscale_plugin = OP_GRAYSCALE"
  "capabilities grayscale_plugin = IMG_CAP_SINGLE" "single_exec grayscale_plugin = Some K_grayscale_exec" "batch_exec grayscale_plugin = None"
  "abi_version resize_plugin = IMG_PLUGIN_ABI_VERSION" "pop_code resize_plugin = 1"
  "capabilities resize_plugin = IMG_CAP_SINGLE" "single_exec resize_plugin = Some K_resize_single" "batch_exec resize_plugin = None"
  by (simp_all add: grayscale_plugin_def resize_plugin_def)

lemma register_plugin:
  assumes "p \<in> {grayscale_plugin, resize_plugin}"
  shows "plugin_init (Some p) (tables_of caps S) = tables_of caps (insert (Some p) S)"
    and "the (plugin_load (Some p) (tables_of caps S)) = tables_of caps (insert (Some p) S)"
proof -
  have g: "set_op OP_GRAYSCALE K_grayscale_exec (tables_of caps S) = tables_of caps (insert (Some grayscale_plugin) S)"
  proof -
    have "(table_entry caps S)(3 := Some K_grayscale_exec) = table_entry caps (insert (Some grayscale_plugin) S)"
      by (rule ext) (simp add: table_entry_def other_plugin insertI1 del: insert_iff)
    then show ?thesis by (simp add: tables_of_def tabulated_update)
  qed
  have r: "set_op 1 K_resize_single (tables_of caps S) = tables_of caps (insert (Some resize_plugin) S)"
  proof -
    have "(table_entry caps S)(1 := Some K_resize_single) = table_entry caps (insert (Some resize_plugin) S)"
      by (rule ext) (simp add: table_entry_def other_plugin insertI1 del: insert_iff)
    then show ?thesis by (simp add: tables_of_def tabulated_update)
  qed
  have small: "\<not> IMG_MAX_OPS \<le> OP_GRAYSCALE" "\<not> IMG_MAX_OPS \<le> 1"
    by (simp_all add: IMG_MAX_OPS_def OP_GRAYSCALE_def word_le_nat_alt)
  have p: "p = grayscale_plugin \<or> p = resize_plugin" using assms by simp
  show "plugin_init (Some p) (tables_of caps S) = tables_of caps (insert (Some p) S)"
    using p
  proof
    assume "p = grayscale_plugin"
    then show ?thesis by (simp add: plugin_init_def img_register_op_def register_fields small g IMG_CAP_SINGLE_def IMG_CAP_BATCH_def)
  next
    assume "p = resize_plugin"
    then show ?thesis by (simp add: plugin_init_def img_register_op_def register_fields small r IMG_CAP_SINGLE_def IMG_CAP_BATCH_def)
  qed
  show "the (plugin_load (Some p) (tables_of caps S)) = tables_of caps (insert (Some p) S)"
    using p
  proof
    assume "p = grayscale_plugin"
    then show ?thesis by (simp add: plugin_load_def img_register_op_def register_fields small g)
  next
    assume "p = resize_plugin"
    then show ?thesis by (simp add: plugin_load_def img_register_op_def register_fields small r)
  qed
qed

lemma fold_tables:
  assumes "set ps \<subseteq> {Some grayscale_plugin, Some resize_plugin}"
    and "\<And>p S. p \<in> {grayscale_plugin, resize_plugin} \<Longrightarrow> f (Some p) (tables_of caps S) = tables_of caps (insert (Some p) S)"
  shows "fold f ps (tables_of caps S) = tables_of caps (S \<union> set ps)"
  using assms(1)
proof (induction ps arbitrary: S)
  case (Cons po ps)
  then obtain p where p: "po = Some p" "p \<in> {grayscale_plugin, resize_plugin}" by auto
  have "fold f ps (tables_of caps (insert po S)) = tables_of caps (insert po S \<union> set ps)"
    by (rule Cons.IH) (use Cons.prems in simp)
  then show ?case using assms(2) [OF p(2)] p(1) by simp
qed simp

lemmas register_plugins = fold_tables [where f = plugin_init, OF _ register_plugin(1)]
  fold_tables [where f = "\<lambda>po t. the (plugin_load po t)", OF _ register_plugin(2)]

text \<open>
  C25. The complete contents of both tables after \<open>img_engine_init\<close>, on every CPU and for whichever
  of the two plugins of the repository are in the section of the library, in any order: the kernel
  of every opcode is the one of \<^const>\<open>tables_of\<close>, and all other opcodes have none. As the library is
  built (\<open>CMakeLists.txt\<close> links \<open>plugin_grayscale.c\<close> and makes \<open>plugin_resize.c\<close> a library of its own,
  which nothing loads) the section is \<open>[grayscale_plugin]\<close>: grayscale is the plugin's scalar loop on
  every CPU and the other kernels are those of the hardware.
\<close>

theorem engine_init_tables:
  assumes "set ps \<subseteq> {Some grayscale_plugin, Some resize_plugin}"
  shows "img_engine_init True caps ps True st =
    Some (Inr \<lparr>tables = tables_of caps (set ps), engine_caps = caps, io_registered = True\<rparr>)"
proof -
  have "None \<notin> set ps" using assms by auto
  from load_all_fold [OF this] show ?thesis
    using register_plugins [OF assms, of caps "{}"] register_plugins(2) [OF assms, of caps "set ps"]
    by (simp add: img_engine_init_def hw_tables img_plugins_init_all_def Let_def)
qed

text \<open>The library as it is built, on a CPU with AVX2.\<close>

theorem engine_init_tables_witness:
  "\<exists>e. img_engine_init True CPU_CAP_AVX2 [Some grayscale_plugin] True
      \<lparr>tables = img_jump_table_init 0, engine_caps = 0, io_registered = False\<rparr> = Some (Inr e) \<and>
    g_jump_table (tables e) ! unat OP_RESIZE = Some K_resize_avx2 \<and>
    g_jump_table (tables e) ! unat OP_GRAYSCALE = Some K_grayscale_exec \<and>
    g_jump_table (tables e) ! unat OP_RESIZE_H = Some K_arch_resize_h_avx2 \<and>
    g_jump_table (tables e) ! unat OP_RESIZE_V = Some K_arch_resize_v_avx2 \<and>
    g_jump_table (tables e) ! unat OP_CROP = None"
proof -
  have "\<not> img_cpu_has_avx512 CPU_CAP_AVX2" "img_cpu_has_avx2 CPU_CAP_AVX2"
    by (simp_all add: img_cpu_has_avx512_def img_cpu_has_avx2_def CPU_CAP_AVX2_def CPU_CAP_AVX512_def)
  moreover have "Some resize_plugin \<notin> {Some grayscale_plugin}" using plugins_differ by (metis insert_iff empty_iff option.inject)
  ultimately show ?thesis
    by (subst engine_init_tables)
      (simp_all add: tables_of_def tabulated_nth table_entry_def resize_entry_def vector_cpu_def OP_CROP_def)
qed

section \<open>Properties of compilation and execution\<close>

definition op_kernel :: "img_tables \<Rightarrow> img_op_desc \<Rightarrow> img_kernel option" where
  "op_kernel t d = g_jump_table t ! unat (op_code d)"

lemma compile_ops_spec:
  assumes "n \<le> length ds" and "\<forall>d \<in> set ds. unat (op_code d) < length (g_jump_table t)"
    and "i + n \<le> length (cops out)" and "length (cparams out) = length (cops out)"
  shows "\<exists>r out'. compile_ops t ds n i out = Some (r, out') \<and> ccount out' = ccount out \<and>
    (if \<forall>d \<in> set (take n ds). op_kernel t d \<noteq> None
     then r = 0 \<and> cops out' = take i (cops out) @ map (op_kernel t) (take n ds) @ drop (i + n) (cops out) \<and>
       cparams out' = take i (cparams out) @ map op_params (take n ds) @ drop (i + n) (cparams out)
     else r = - 1)"
  using assms
proof (induction t ds n i out rule: compile_ops.induct)
  case (3 t d ds n i out)
  show ?case
  proof (cases "op_kernel t d")
    case None
    then show ?thesis using "3.prems" by (simp add: op_kernel_def)
  next
    case (Some fn)
    let ?out = "out\<lparr>cops := (cops out)[i := Some fn], cparams := (cparams out)[i := op_params d]\<rparr>"
    have i: "i < length (cops out)" "i < length (cparams out)" using "3.prems" by simp_all
    have upd: "take (Suc i) (xs[i := x]) = take i xs @ [x]" "drop (Suc i + n) (xs[i := x]) = drop (Suc (i + n)) xs"
      if "i < length xs" for xs :: "'b list" and x
      using that by (simp_all add: take_Suc_conv_app_nth)
    obtain r out' where "compile_ops t ds n (Suc i) ?out = Some (r, out')" "ccount out' = ccount ?out"
      "if \<forall>d \<in> set (take n ds). op_kernel t d \<noteq> None
       then r = 0 \<and> cops out' = take (Suc i) (cops ?out) @ map (op_kernel t) (take n ds) @ drop (Suc i + n) (cops ?out) \<and>
         cparams out' = take (Suc i) (cparams ?out) @ map op_params (take n ds) @ drop (Suc i + n) (cparams ?out)
       else r = - 1"
      using "3.IH" [of fn] "3.prems" Some by (auto simp: op_kernel_def)
    then show ?thesis
      using Some "3.prems" i by (auto simp: op_kernel_def upd)
  qed
qed simp_all

text \<open>
  C26. \<open>img_pipeline_compile\<close> on a pipeline of 1 to 32 operations whose op-codes index the table:
  it succeeds exactly when every operation has a kernel, and then the compiled pipeline holds
  the kernels and the parameters in order; otherwise it returns -1. It never leaves the arrays.
\<close>

theorem pipeline_compile_correct:
  assumes "tables_ok t" and "0 < unat (op_count d)" "unat (op_count d) \<le> 32" "unat (op_count d) \<le> length (ops d)"
    and "\<forall>d' \<in> set (ops d). unat (op_code d') < 256" and "length (cops c) = 32" "length (cparams c) = 32"
  shows "\<exists>r c'. img_pipeline_compile t (Some d) (Some c) = Some (r, Some c') \<and> ccount c' = op_count d \<and>
    (if \<forall>d' \<in> set (take (unat (op_count d)) (ops d)). op_kernel t d' \<noteq> None
     then r = 0 \<and> take (unat (op_count d)) (cops c') = map (op_kernel t) (take (unat (op_count d)) (ops d)) \<and>
       take (unat (op_count d)) (cparams c') = map op_params (take (unat (op_count d)) (ops d))
     else r = - 1)"
proof -
  have "\<not> (op_count d = 0 \<or> op_count d > IMG_MAX_PIPELINE_OPS)"
    using assms(2,3) by (auto simp: IMG_MAX_PIPELINE_OPS_def word_less_nat_alt)
  moreover obtain r c' where "compile_ops t (ops d) (unat (op_count d)) 0 (c\<lparr>ccount := op_count d\<rparr>) = Some (r, c')"
    "ccount c' = op_count d"
    "if \<forall>d' \<in> set (take (unat (op_count d)) (ops d)). op_kernel t d' \<noteq> None
     then r = 0 \<and> cops c' = map (op_kernel t) (take (unat (op_count d)) (ops d)) @ drop (unat (op_count d)) (cops c) \<and>
       cparams c' = map op_params (take (unat (op_count d)) (ops d)) @ drop (unat (op_count d)) (cparams c)
     else r = - 1"
    using compile_ops_spec [of "unat (op_count d)" "ops d" t 0 "c\<lparr>ccount := op_count d\<rparr>"] assms
    by (auto simp: tables_ok_def)
  ultimately show ?thesis
    using assms(4) by (intro exI [of _ r] exI [of _ c']) (simp add: img_pipeline_compile_def min_absorb2)
qed

definition demo_pipe :: img_pipeline_desc where
  "demo_pipe = \<lparr>ops = [\<lparr>op_code = 1, op_params = 8\<rparr>, \<lparr>op_code = 4, op_params = 16\<rparr>], op_count = 2\<rparr>"

theorem pipeline_compile_correct_witness:
  "\<exists>r c'. img_pipeline_compile (img_jump_table_init 0) (Some demo_pipe)
      (Some \<lparr>ccount = 0, cops = replicate 32 None, cparams = replicate 32 NULL\<rparr>) = Some (r, Some c') \<and> ccount c' = 2 \<and> r = - 1"
proof -
  have ok: "tables_ok (img_jump_table_init 0)" by (simp add: img_jump_table_init_def tables_ok_def set_op_def set_batch_op_def Let_def)
  have "op_kernel (img_jump_table_init 0) \<lparr>op_code = 4, op_params = 16\<rparr> = None"
    by (simp add: op_kernel_def img_jump_table_init_def set_op_def set_batch_op_def OP_RESIZE_def Let_def)
  then show ?thesis
    using pipeline_compile_correct [OF ok, of demo_pipe "\<lparr>ccount = 0, cops = replicate 32 None, cparams = replicate 32 NULL\<rparr>"]
    by (auto simp: demo_pipe_def)
qed

text \<open>A pipeline the validator accepts can index outside the table.\<close>

lemma compile_after_validation_undefined:
  assumes "tables_ok t" and "d = \<lparr>ops = [\<lparr>op_code = 0xFFF, op_params = NULL\<rparr>], op_count = 1\<rparr>"
  shows "img_validate_pipeline_safety (Some d) = Some True \<and> img_pipeline_compile t (Some d) (Some c) = None"
  using assms
  by (simp add: img_validate_pipeline_safety_def img_pipeline_compile_def IMG_MAX_PIPELINE_OPS_def OP_CUSTOM_BASE_def
      tables_ok_def)

text \<open>Adding an operation to a created pipeline is undefined: \<open>ops\<close> was never allocated.\<close>

lemma add_op_to_created:
  "\<exists>p. img_pipeline_create True = Some p \<and> img_pipeline_add_op (Some p) code params = None"
  by (simp add: img_pipeline_create_def img_pipeline_add_op_def IMG_MAX_PIPELINE_OPS_def word_le_nat_alt)

text \<open>The specification of execution: the registered kernels in order, the others skipped.\<close>

fun run_ops :: "(img_kernel \<Rightarrow> ptr \<Rightarrow> 's \<Rightarrow> 's option) \<Rightarrow> img_tables \<Rightarrow> img_op_desc list \<Rightarrow> 's \<Rightarrow> 's option" where
  "run_ops exec t [] s = Some s"
| "run_ops exec t (d # ds) s =
     (case op_kernel t d of
        None \<Rightarrow> run_ops exec t ds s
      | Some k \<Rightarrow> Option.bind (exec k (op_params d) s) (run_ops exec t ds))"

lemma hot_exec_run_ops:
  assumes "\<forall>d' \<in> set ds. unat (op_code d') < length (g_jump_table t)"
  shows "foreach [0..<length ds] (hot_step exec t ds) s = run_ops exec t ds s"
proof -
  have "foreach [0..<length ds] (hot_step exec t ds) s =
      foreach [0..<length ds] (\<lambda>i s. if i < length ds then
        (\<lambda>d s. case op_kernel t d of Some k \<Rightarrow> exec k (op_params d) s | None \<Rightarrow> Some s) (ds ! i) s else None) s"
    using assms by (intro foreach_cong) (simp_all add: hot_step_def lookup_op_def op_kernel_def)
  also have "\<dots> = foreach ds (\<lambda>d s. case op_kernel t d of Some k \<Rightarrow> exec k (op_params d) s | None \<Rightarrow> Some s) s"
    by (rule foreach_nth) simp
  also have "\<dots> = run_ops exec t ds s"
    by (induction ds arbitrary: s) (auto split: option.splits intro!: Option.bind_cong)
  finally show ?thesis .
qed

text \<open>
  Building and running a pipeline: \<open>img_pipeline_build\<close> copies the described operations
  into the arena (or reports that the arena is full), and \<open>img_pipeline_execute_hot\<close> then runs
  the registered kernels in order with their parameters, skipping operations without a kernel;
  no table access is out of bounds for op-codes below 256.
\<close>

theorem build_then_execute:
  assumes "tables_ok t" and "arena_wf a" and "unat (op_count d) \<le> length (ops d)"
    and "\<forall>d' \<in> set (ops d). unat (op_code d') < 256"
  shows "(\<exists>r' . img_pipeline_build (Some d) (Some r) (Some a) = Some (- 1, Some r', Some a)) \<or>
    (\<exists>r' a'. img_pipeline_build (Some d) (Some r) (Some a) = Some (0, Some r', Some a') \<and> arena_wf a' \<and>
       img_pipeline_execute_hot exec t r' s = run_ops exec t (take (unat (op_count d)) (ops d)) s)"
proof -
  have "unat (sizeof_op_desc * ucast (op_count d) :: u64) = 64 * unat (op_count d)"
    using unat_lt_u32 [of "op_count d"] unat_mult_small [of "64 :: u64" "ucast (op_count d)"]
    by (simp add: sizeof_op_desc_def)
  then have n: "unat (sizeof_op_desc * ucast (op_count d) :: u64) \<le> 2 ^ 62"
    using unat_lt_u32 [of "op_count d"] by simp
  from assms(2) n show ?thesis
  proof (cases rule: arena_alloc_cases)
    case full
    then show ?thesis by (simp add: img_pipeline_build_def)
  next
    case (room a')
    have "unat (base a + offset a) = unat (base a) + unat (offset a)"
      using arena_wfD [OF assms(2)] by (intro unat_base_add assms)
    then have "base a + offset a \<noteq> NULL"
      using arena_wfD(1) [OF assms(2)] by (metis add_is_0 unat_0 unat_eq_zero)
    moreover have "arena_wf a'" using room assms(2) by (simp add: arena_wf_def)
    moreover have "foreach [0..<unat (op_count d)] (hot_step exec t (take (unat (op_count d)) (ops d))) s =
        run_ops exec t (take (unat (op_count d)) (ops d)) s"
      using hot_exec_run_ops [of "take (unat (op_count d)) (ops d)" t exec s] assms(1,3,4)
      by (auto simp: tables_ok_def min_absorb2 dest: in_set_takeD)
    ultimately show ?thesis
      using room assms(3) by (simp add: img_pipeline_build_def img_pipeline_execute_hot_def)
  qed
qed

theorem build_then_execute_witness:
  "(\<exists>r'. img_pipeline_build (Some demo_pipe) (Some \<lparr>rops = [], rcount = 0\<rparr>)
       (Some \<lparr>base = 4096, asize = 1048576, offset = 0\<rparr>) = Some (- 1, Some r', Some \<lparr>base = 4096, asize = 1048576, offset = 0\<rparr>)) \<or>
    (\<exists>r' a'. img_pipeline_build (Some demo_pipe) (Some \<lparr>rops = [], rcount = 0\<rparr>)
         (Some \<lparr>base = 4096, asize = 1048576, offset = 0\<rparr>) = Some (0, Some r', Some a') \<and> arena_wf a' \<and>
       img_pipeline_execute_hot (\<lambda>k p s. Some (k # s)) (img_jump_table_init 0) r' [] =
         run_ops (\<lambda>k p s. Some (k # s)) (img_jump_table_init 0) (take (unat (op_count demo_pipe)) (ops demo_pipe)) [])"
proof -
  have ok: "tables_ok (img_jump_table_init 0)" by (simp add: img_jump_table_init_def tables_ok_def set_op_def set_batch_op_def Let_def)
  show ?thesis
    by (rule build_then_execute [OF ok]) (simp_all add: arena_wf_def demo_pipe_def)
qed

text \<open>
  \<open>img_exec_dispatch\<close> runs the resize, grayscale and brightness operations locally and
  sends every other op-code to the RPC client; a local operation without a kernel returns -1
  and changes nothing.
\<close>

theorem exec_dispatch_correct:
  assumes "tables_ok t"
  shows "img_exec_dispatch exec rpc t code params s =
    (if code \<in> {OP_RESIZE, OP_RESIZE_H, OP_RESIZE_V, OP_GRAYSCALE, OP_BRIGHTNESS}
     then (case g_jump_table t ! unat code of
             None \<Rightarrow> Some (- 1, s)
           | Some k \<Rightarrow> map_option (Pair 0) (exec k params s))
     else rpc code params s)"
proof (cases "code \<in> {OP_RESIZE, OP_RESIZE_H, OP_RESIZE_V, OP_GRAYSCALE, OP_BRIGHTNESS}")
  case True
  then have "unat code < 256"
    by (auto simp: OP_RESIZE_def OP_RESIZE_H_def OP_RESIZE_V_def OP_GRAYSCALE_def OP_BRIGHTNESS_def)
  then show ?thesis
    using True assms
    by (auto simp: img_exec_dispatch_def img_exec_route_def lookup_op_def tables_ok_def bind_Some_map split: option.splits)
qed (simp add: img_exec_dispatch_def img_exec_route_def)

theorem exec_dispatch_correct_witness:
  "img_exec_dispatch (\<lambda>k p s. Some (s + 1)) (\<lambda>c p s. Some (5, s)) (img_jump_table_init 0) OP_RESIZE NULL (7 :: nat) = Some (0, 8)"
proof -
  have ok: "tables_ok (img_jump_table_init 0)" by (simp add: img_jump_table_init_def tables_ok_def set_op_def set_batch_op_def Let_def)
  show ?thesis
    using exec_dispatch_correct [OF ok, of "\<lambda>k p s. Some (s + 1)" "\<lambda>c p s. Some (5, s)" OP_RESIZE NULL "7 :: nat"]
    by (simp add: img_jump_table_init_def set_op_def set_batch_op_def OP_RESIZE_def img_cpu_has_avx512_def img_cpu_has_avx2_def Let_def)
qed

end
