(* ===== verification/Api.thy ===== *)
theory Api
  imports Layout_Grid Border Crop_Marks Encoder Scheduler Dispatch
begin

text \<open>
  The public entry points of \<open>api/api.c\<close>: the print job, raw and fast processing, start and
  shutdown; and the I/O table of \<open>io/io_register.c\<close> they call through.
\<close>

section \<open>The I/O table\<close>

text \<open>An enumerator by its number; other numbers are raw values.\<close>

definition result_of_int :: "int \<Rightarrow> img_result" where
  "result_of_int z =
     (if z = 0 then IMG_SUCCESS else if z = 1 then IMG_ERR_NOMEM else if z = 2 then IMG_ERR_FORMAT
      else if z = 3 then IMG_ERR_SECURITY else if z = 4 then IMG_ERR_IO else if z = 5 then IMG_ERR_HW_UNSUP
      else if z = 6 then IMG_ERR_INTERNAL else IMG_RESULT_RAW z)"

type_synonym decode_fn =
  "(ptr \<times> bytes) option \<Rightarrow> img_buffer option \<Rightarrow> img_slab_pool option \<Rightarrow> heap \<Rightarrow>
   (img_result \<times> img_buffer option \<times> img_slab_pool option \<times> heap) option"
type_synonym encode_fn = "img_buffer \<Rightarrow> heap \<Rightarrow> int \<times> bytes option"
type_synonym encode_pdf_fn = "bool \<Rightarrow> img_buffer \<Rightarrow> u32 \<Rightarrow> heap \<Rightarrow> (img_result \<times> bytes option) option"

text \<open>A null function pointer is \<^const>\<open>None\<close>; calling it is undefined.\<close>

record img_io_vtable =
  v_decode :: "decode_fn option"
  v_encode :: "encode_fn option"
  v_encode_pdf :: "encode_pdf_fn option"

definition zero_vtable :: img_io_vtable where
  "zero_vtable = \<lparr>v_decode = None, v_encode = None, v_encode_pdf = None\<rparr>"

definition img_io_register ::
  "decode_fn option \<Rightarrow> encode_fn option \<Rightarrow> encode_pdf_fn option \<Rightarrow> img_io_vtable \<Rightarrow> img_io_vtable" where
  "img_io_register d e p vt = vt\<lparr>v_decode := d, v_encode := e, v_encode_pdf := p\<rparr>"

definition img_io_register_defaults :: "turbojpeg \<Rightarrow> img_io_vtable \<Rightarrow> img_io_vtable" where
  "img_io_register_defaults tj =
     img_io_register (Some (img_decode_to_buffer tj True))
       (Some (\<lambda>b. img_encode_from_buffer tj True (Some b) True))
       (Some (\<lambda>fopen_ok b. img_encode_pdf tj fopen_ok (Some b) True))"

section \<open>Files\<close>

text \<open>
  What the job asks of the system: the bytes of a file that can be opened, the address of a
  mapping, the two allocations of the scratch arena, and for a file to be written whether it can
  be opened and how many bytes of it the device takes.
\<close>

record os_env =
  read_file :: "string \<Rightarrow> bytes option"
  mmap_addr :: "nat \<Rightarrow> ptr option"
  arena_hdr :: bool
  arena_mem :: "u64 \<Rightarrow> ptr"
  disk_room :: "string \<Rightarrow> nat option"

definition can_write :: "os_env \<Rightarrow> string \<Rightarrow> bool" where
  "can_write os path \<longleftrightarrow> disk_room os path \<noteq> None"

text \<open>What the device has of a file after \<open>fwrite\<close> and \<open>fclose\<close>.\<close>

definition on_disk :: "os_env \<Rightarrow> string \<Rightarrow> bytes \<Rightarrow> bytes" where
  "on_disk os path f = take (case disk_room os path of None \<Rightarrow> 0 | Some k \<Rightarrow> k) f"

text \<open>\<open>strrchr\<close>: the text after the last occurrence of a character.\<close>

definition after_last :: "char \<Rightarrow> string \<Rightarrow> string option" where
  "after_last c s = (if c \<in> set s then Some (rev (takeWhile (\<lambda>d. d \<noteq> c) (rev s))) else None)"

definition is_pdf_output :: "string \<Rightarrow> bool" where
  "is_pdf_output path =
     (case after_last CHR ''.'' path of
        Some [p, d, f] \<Rightarrow>
          (p = CHR ''p'' \<or> p = CHR ''P'') \<and> (d = CHR ''d'' \<or> d = CHR ''D'') \<and> (f = CHR ''f'' \<or> f = CHR ''F'')
      | _ \<Rightarrow> False)"

definition load_file_mmap :: "os_env \<Rightarrow> string \<Rightarrow> img_result \<times> (ptr \<times> bytes) option" where
  "load_file_mmap os path =
     (case read_file os path of
        None \<Rightarrow> (IMG_ERR_IO, None)
      | Some bs \<Rightarrow>
          if length bs = 0 then (IMG_ERR_IO, None)
          else (case mmap_addr os (length bs) of
              None \<Rightarrow> (IMG_ERR_IO, None)
            | Some a \<Rightarrow> (IMG_SUCCESS, Some (a, bs))))"

section \<open>The print job\<close>

text \<open>
  The layout that the passes read: the cells up to the first one that was skipped (and is
  uninitialised memory), with the full count.
\<close>

definition layout_of :: "img_job \<Rightarrow> img_cell option list option \<Rightarrow> img_layout" where
  "layout_of job cs =
     (case cs of
        None \<Rightarrow> \<lparr>cells = [], count = 0\<rparr>
      | Some cs \<Rightarrow> \<lparr>cells = map the (takeWhile (\<lambda>d. d \<noteq> None) cs), count = cols job * rows job\<rparr>)"

text \<open>Border (only when asked for), bleed, crop marks; the first failure ends the sequence.\<close>

definition job_passes :: "img_job \<Rightarrow> img_buffer \<Rightarrow> img_layout \<Rightarrow> bytes \<Rightarrow> (img_result \<times> bytes) option" where
  "job_passes job canvas layout s = do {
     (r, s) \<leftarrow> (if border_px job > 0 then img_draw_borders (Some canvas) (Some layout) (border_px job) s
               else Some (IMG_SUCCESS, s));
     if r \<noteq> IMG_SUCCESS then Some (r, s)
     else do {
       (r, s) \<leftarrow> img_apply_bleed (Some canvas) (Some layout) (bleed_px job) s;
       if r \<noteq> IMG_SUCCESS then Some (r, s)
       else img_draw_crop_marks (Some canvas) (Some layout) job s } }"

text \<open>
  The output: by the extension of its name a PDF, or a JPEG written in one piece. Neither branch
  reads the result of a write or of \<open>fclose\<close>: what the device does not take is lost, with the
  same code.
\<close>

definition job_output ::
  "os_env \<Rightarrow> img_io_vtable \<Rightarrow> img_job \<Rightarrow> string \<Rightarrow> img_buffer \<Rightarrow> heap \<Rightarrow> (img_result \<times> bytes option) option" where
  "job_output os vt job path canvas h =
     (if is_pdf_output path then do {
        enc \<leftarrow> v_encode_pdf vt;
        (r, f) \<leftarrow> enc (can_write os path) canvas (dpi job) h;
        Some (r, map_option (on_disk os path) f) }
      else do {
        enc \<leftarrow> v_encode vt;
        let (z, out) = enc canvas h;
        let r = result_of_int z;
        (case out of
           Some jpeg \<Rightarrow>
             if r = IMG_SUCCESS then
               (if can_write os path then Some (r, Some (on_disk os path jpeg)) else Some (IMG_ERR_IO, None))
             else Some (r, None)
         | None \<Rightarrow> Some (r, None)) })"

text \<open>Steps 4 to 12 of the job, from the decoder on.\<close>

definition job_stages ::
  "os_env \<Rightarrow> img_io_vtable \<Rightarrow> string \<Rightarrow> img_job \<Rightarrow> ptr \<times> bytes \<Rightarrow> img_arena \<Rightarrow> img_slab_pool option \<Rightarrow> heap \<Rightarrow>
   (img_result \<times> bytes option \<times> img_slab_pool option \<times> heap) option" where
  "job_stages os vt outp job file arena pool h = do {
     decode \<leftarrow> v_decode vt;
     (r, photo, pool, h) \<leftarrow> decode (Some file) (Some empty_buffer) pool h;
     photo \<leftarrow> photo;
     if r \<noteq> IMG_SUCCESS then Some (r, None, pool, h)
     else do {
       (r, canvas, pool, h) \<leftarrow> img_canvas_init (Some zero_canvas) pool (Some job) h;
       canvas \<leftarrow> canvas;
       if r \<noteq> IMG_SUCCESS then do {
         (pool, h) \<leftarrow> img_slab_free pool (data photo) h;
         Some (r, None, pool, h) }
       else do {
         (r, cs, arena, pool, h) \<leftarrow> img_layout_grid (Some canvas) (Some photo) (Some job) True (Some arena) pool h;
         (pool, h) \<leftarrow> img_slab_free pool (data photo) h;
         if r \<noteq> IMG_SUCCESS then do {
           (_, pool, h) \<leftarrow> img_canvas_free (Some canvas) pool h;
           Some (r, None, pool, h) }
         else do {
           (r, s) \<leftarrow> job_passes job (buf canvas) (layout_of job cs) (h (data (buf canvas)));
           let h = h(data (buf canvas) := s);
           (r, written) \<leftarrow> (if r \<noteq> IMG_SUCCESS then Some (r, None)
                           else job_output os vt job outp (buf canvas) h);
           (_, pool, h) \<leftarrow> img_canvas_free (Some canvas) pool h;
           Some (r, written, pool, h) } } } }"

text \<open>
  \<open>img_api_run_job\<close>. The result is the code, the bytes of the file under \<open>output_path\<close>, and the
  pool and heap afterwards; the mapping and the arena are private to the call.
\<close>

definition img_api_run_job ::
  "os_env \<Rightarrow> img_io_vtable \<Rightarrow> img_slab_pool option option \<Rightarrow> string option \<Rightarrow> string option \<Rightarrow> img_job option \<Rightarrow> heap \<Rightarrow>
   (img_result \<times> bytes option \<times> img_slab_pool option \<times> heap) option" where
  "img_api_run_job os vt engine input output job h =
     (case (engine, input, output, job) of
        (Some pool, Some inp, Some outp, Some job) \<Rightarrow>
          if img_job.abi_version job \<noteq> IMG_JOB_ABI_VERSION then Some (IMG_ERR_INTERNAL, None, pool, h)
          else (case load_file_mmap os inp of
              (r, None) \<Rightarrow> Some (r, None, pool, h)
            | (r, Some file) \<Rightarrow>
                let r = img_security_validate_request 16384 16384 (of_nat (length (snd file))) in
                if r \<noteq> IMG_SUCCESS then Some (r, None, pool, h)
                else (case img_arena_create (arena_hdr os) (arena_mem os) (1024 * 1024) of
                    None \<Rightarrow> Some (IMG_ERR_NOMEM, None, pool, h)
                  | Some arena \<Rightarrow> job_stages os vt outp job file arena pool h))
      | _ \<Rightarrow> Some (IMG_ERR_SECURITY, None, (case engine of Some pool \<Rightarrow> pool | None \<Rightarrow> None), h))"

section \<open>Raw and fast processing\<close>

definition img_api_process_raw ::
  "img_io_vtable \<Rightarrow> img_slab_pool option option \<Rightarrow> (ptr \<times> bytes) option \<Rightarrow> bool \<Rightarrow> heap \<Rightarrow>
   (img_result \<times> bytes option \<times> img_slab_pool option \<times> heap) option" where
  "img_api_process_raw vt engine input out_given h =
     (case (engine, input) of
        (Some pool, Some inp) \<Rightarrow>
          if \<not> out_given then Some (IMG_ERR_SECURITY, None, pool, h)
          else let sec = img_security_validate_request 4096 4096 (of_nat (length (snd inp))) in
            if sec \<noteq> IMG_SUCCESS then Some (sec, None, pool, h)
            else do {
              decode \<leftarrow> v_decode vt;
              (dec, b, pool, h) \<leftarrow> decode input (Some empty_buffer) pool h;
              b \<leftarrow> b;
              if dec \<noteq> IMG_SUCCESS then Some (dec, None, pool, h)
              else do {
                enc \<leftarrow> v_encode vt;
                let (z, out) = enc b h;
                (pool, h) \<leftarrow> img_slab_free pool (data b) h;
                Some (result_of_int z, out, pool, h) } }
      | _ \<Rightarrow> Some (IMG_ERR_SECURITY, None, (case engine of Some pool \<Rightarrow> pool | None \<Rightarrow> None), h))"

definition decode_image_secure ::
  "img_io_vtable \<Rightarrow> (ptr \<times> bytes) option \<Rightarrow> img_buffer option \<Rightarrow> img_slab_pool option \<Rightarrow> heap \<Rightarrow>
   (img_result \<times> img_buffer option \<times> img_slab_pool option \<times> heap) option" where
  "decode_image_secure vt input out pool h = do { decode \<leftarrow> v_decode vt; decode input out pool h }"

text \<open>
  \<open>img_api_process_fast\<close> runs the compiled pipeline through a cast from
  \<open>img_pipeline_compiled_t\<close> to \<open>img_pipeline_runtime_t\<close>: the count and the padding after it are
  read as the pointer \<open>ops\<close>, and half of a function pointer as the count. No behaviour is
  defined for that. \<open>pool\<close> is the pool of the global engine.
\<close>

definition img_api_process_fast ::
  "img_io_vtable \<Rightarrow> img_tables \<Rightarrow> bool \<Rightarrow> (ptr \<times> bytes) option \<Rightarrow> img_pipeline_desc option \<Rightarrow> img_pipeline_compiled \<Rightarrow>
   img_buffer option \<Rightarrow> img_slab_pool option \<Rightarrow> heap \<Rightarrow>
   (img_result \<times> img_buffer option \<times> img_slab_pool option \<times> heap) option" where
  "img_api_process_fast vt t engine_given input pipe uninit out pool h =
     (case (input, pipe, out) of
        (Some inp, Some _, Some _) \<Rightarrow>
          if \<not> engine_given then Some (IMG_ERR_SECURITY, out, pool, h)
          else let sec = img_security_validate_request 4096 4096 (of_nat (length (snd inp))) in
            if sec \<noteq> IMG_SUCCESS then Some (sec, out, pool, h)
            else do {
              (res, out, pool, h) \<leftarrow> decode_image_secure vt input out pool h;
              if res \<noteq> IMG_SUCCESS then Some (res, out, pool, h)
              else do {
                safe \<leftarrow> img_validate_pipeline_safety pipe;
                if \<not> safe then Some (IMG_ERR_SECURITY, out, pool, h)
                else do {
                  (rc, _) \<leftarrow> img_pipeline_compile t pipe (Some uninit);
                  if rc \<noteq> 0 then Some (IMG_ERR_FORMAT, out, pool, h)
                  else None } } }
      | _ \<Rightarrow> Some (IMG_ERR_SECURITY, out, pool, h))"

end
