(* ===== verification/Print_Job.thy ===== *)
theory Print_Job
  imports Api
begin

text \<open>
  What \<open>img_api_run_job\<close> guarantees: the composition of decoder, canvas, layout, the three
  drawing passes and the encoder, with every slab block accounted for.
\<close>

section \<open>The page\<close>

text \<open>What each pass makes of a page \<open>E\<close>, given the cells.\<close>

definition bordered :: "img_job \<Rightarrow> img_cell list \<Rightarrow> (int \<Rightarrow> int \<Rightarrow> nat \<Rightarrow> u8) \<Rightarrow> int \<Rightarrow> int \<Rightarrow> nat \<Rightarrow> u8" where
  "bordered job cs E px py k =
     (if border_px job > 0 \<and> (\<exists>d \<in> set cs. frame (uint (border_px job)) d px py) then 0 else E px py k)"

definition bled :: "img_job \<Rightarrow> img_cell list \<Rightarrow> (int \<Rightarrow> int \<Rightarrow> nat \<Rightarrow> u8) \<Rightarrow> int \<Rightarrow> int \<Rightarrow> nat \<Rightarrow> u8" where
  "bled job cs E px py k =
     (if bleed_px job = 0 then E px py k
      else case bleed_owner (uint (bleed_px job)) cs px py of
          None \<Rightarrow> E px py k
        | Some d \<Rightarrow> edge_of E d px py k)"

definition marked :: "img_job \<Rightarrow> img_cell list \<Rightarrow> (int \<Rightarrow> int \<Rightarrow> nat \<Rightarrow> u8) \<Rightarrow> int \<Rightarrow> int \<Rightarrow> nat \<Rightarrow> u8" where
  "marked job cs E px py k =
     (if crop_mark_px job \<noteq> 0 \<and> (\<exists>d \<in> set cs. crop_marks_of job d px py) then 0 else E px py k)"

text \<open>The sheet: photos \<open>V\<close> in the cells, background elsewhere; and the finished page.\<close>

definition sheet :: "img_job \<Rightarrow> img_canvas \<Rightarrow> (int \<Rightarrow> int \<Rightarrow> nat \<Rightarrow> u8) \<Rightarrow> int \<Rightarrow> int \<Rightarrow> nat \<Rightarrow> u8" where
  "sheet job c V px py k = (if in_grid job c px py then tiled job c V px py k else bg job k)"

definition page :: "img_job \<Rightarrow> img_canvas \<Rightarrow> (int \<Rightarrow> int \<Rightarrow> nat \<Rightarrow> u8) \<Rightarrow> int \<Rightarrow> int \<Rightarrow> nat \<Rightarrow> u8" where
  "page job c V =
     marked job (grid_cells job c) (bled job (grid_cells job c) (bordered job (grid_cells job c) (sheet job c V)))"

text \<open>
  The jobs considered: the grid fits the page, the bleed fits the gap, the marks have sizes
  that fit the signed arithmetic, and the border is not wider than a photo.
\<close>

definition border_fits :: "img_job \<Rightarrow> img_canvas \<Rightarrow> bool" where
  "border_fits job c \<longleftrightarrow>
     uint (border_px job) \<le> uint (photo_w_px c) \<and> uint (border_px job) \<le> uint (photo_h_px c)"

definition job_ok :: "img_job \<Rightarrow> bool" where
  "job_ok job \<longleftrightarrow> img_job.abi_version job = IMG_JOB_ABI_VERSION \<and> page_fits job \<and> small_marks job \<and>
     uint (bleed_px job) < 2 ^ 29 \<and> uint (bleed_px job) \<le> uint (gap job) \<and>
     (\<forall>c. canvas_geometry job zero_canvas = Some c \<longrightarrow> border_fits job c)"

section \<open>The three passes\<close>

text \<open>Two pictures that agree on the canvas.\<close>

definition same_on :: "img_buffer \<Rightarrow> (int \<Rightarrow> int \<Rightarrow> nat \<Rightarrow> u8) \<Rightarrow> (int \<Rightarrow> int \<Rightarrow> nat \<Rightarrow> u8) \<Rightarrow> bool" where
  "same_on b E F \<longleftrightarrow> (\<forall>px py k. on_canvas b px py \<longrightarrow> k < 3 \<longrightarrow> E px py k = F px py k)"

lemma same_onD: "same_on b E F \<Longrightarrow> on_canvas b px py \<Longrightarrow> k < 3 \<Longrightarrow> E px py k = F px py k"
  by (simp add: same_on_def)

lemma same_on_trans: "same_on b E F \<Longrightarrow> same_on b F G \<Longrightarrow> same_on b E G"
  by (simp add: same_on_def)

lemma bordered_cong: "same_on b E F \<Longrightarrow> same_on b (bordered job cs E) (bordered job cs F)"
  by (auto simp: same_on_def bordered_def)

lemma marked_cong: "same_on b E F \<Longrightarrow> same_on b (marked job cs E) (marked job cs F)"
  by (auto simp: same_on_def marked_def)

lemma edge_of_cong:
  assumes "same_on b E F" and "cell_fits b d" and "k < 3"
  shows "edge_of E d px py k = edge_of F d px py k"
proof -
  have cl: "lo \<le> clamp lo hi z \<and> clamp lo hi z \<le> hi" if "lo \<le> hi" for lo hi z
    using that by (simp add: clamp_def)
  have f: "0 \<le> uint (cell_x d)" "0 \<le> uint (cell_y d)" "0 < uint (cell_w d)" "0 < uint (cell_h d)"
    "uint (cell_x d) + uint (cell_w d) \<le> int (W b)" "uint (cell_y d) + uint (cell_h d) \<le> int (H b)"
    using assms(2) by (simp_all add: cell_fits_def fits_def)
  have "on_canvas b (clamp (uint (cell_x d)) (uint (cell_x d) + uint (cell_w d) - 1) px)
      (clamp (uint (cell_y d)) (uint (cell_y d) + uint (cell_h d) - 1) py)"
    unfolding on_canvas_def using f
      cl [of "uint (cell_x d)" "uint (cell_x d) + uint (cell_w d) - 1" px]
      cl [of "uint (cell_y d)" "uint (cell_y d) + uint (cell_h d) - 1" py]
    by (intro conjI) linarith+
  from same_onD [OF assms(1) this assms(3)] show ?thesis
    by (simp add: edge_of_def edge_def)
qed

lemma bled_cong:
  assumes "same_on b E F" and "\<forall>d \<in> set cs. cell_fits b d"
  shows "same_on b (bled job cs E) (bled job cs F)"
proof -
  have owner: "d \<in> set cs" if "bleed_owner bp cs px py = Some d" for d bp px py
    using that unfolding bleed_owner_def by (metis find_Some_iff nth_mem set_rev)
  have "bled job cs E px py k = bled job cs F px py k" if "on_canvas b px py" "k < 3" for px py k
  proof (cases "bleed_owner (uint (bleed_px job)) cs px py")
    case None
    then show ?thesis using same_onD [OF assms(1) that] by (simp add: bled_def)
  next
    case (Some d)
    then have "cell_fits b d" using owner assms(2) by blast
    with Some show ?thesis
      using same_onD [OF assms(1) that] edge_of_cong [OF assms(1) _ that(2)] by (simp add: bled_def)
  qed
  then show ?thesis by (simp add: same_on_def)
qed

text \<open>The cells the layout records are all there.\<close>

lemma layout_of_grid:
  assumes "grid_fits job c"
  shows "layout_of job (Some (map Some (grid_cells job c))) = \<lparr>cells = grid_cells job c, count = cols job * rows job\<rparr>"
    and "length (grid_cells job c) = unat (cols job * rows job)"
proof -
  show "layout_of job (Some (map Some (grid_cells job c))) = \<lparr>cells = grid_cells job c, count = cols job * rows job\<rparr>"
    by (simp add: layout_of_def takeWhile_eq_all_conv [THEN iffD2] comp_def)
  show "length (grid_cells job c) = unat (cols job * rows job)"
    using cells_size(1) [OF assms] by (simp add: grid_cells_def)
qed

text \<open>A canvas with its grid, ready for the passes, and the layout of its cells.\<close>

definition page_ok :: "img_job \<Rightarrow> img_canvas \<Rightarrow> bool" where
  "page_ok job c \<longleftrightarrow> grid_fits job c \<and> width (buf c) = page_w_px c \<and> height (buf c) = page_h_px c \<and>
     (\<forall>d \<in> set (grid_cells job c). small_cell d \<and> cell_fits (buf c) d) \<and> border_fits job c \<and>
     uint (bleed_px job) < 2 ^ 29 \<and> uint (bleed_px job) \<le> uint (gap job) \<and> small_marks job"

abbreviation grid_layout :: "img_job \<Rightarrow> img_canvas \<Rightarrow> img_layout" where
  "grid_layout job c \<equiv> \<lparr>cells = grid_cells job c, count = cols job * rows job\<rparr>"

lemma page_okD:
  assumes "page_ok job c"
  shows "grid_fits job c" "width (buf c) = page_w_px c" "height (buf c) = page_h_px c"
    "\<forall>d \<in> set (grid_cells job c). small_cell d \<and> cell_fits (buf c) d" "border_fits job c"
    "uint (bleed_px job) < 2 ^ 29" "uint (bleed_px job) \<le> uint (gap job)" "small_marks job"
  using assms by (simp_all add: page_ok_def)

lemma layout_count:
  assumes "page_ok job c"
  shows "length (cells (grid_layout job c)) = unat (img_layout.count (grid_layout job c))"
  using layout_of_grid(2) [OF page_okD(1) [OF assms]] by simp

lemma page_sides: "page_ok job c \<Longrightarrow> W (buf c) < 2 ^ 16 \<and> H (buf c) < 2 ^ 16"
  using grid_fitsD(7,8) [of job c] by (simp add: page_ok_def)

lemma cell_sides: "d \<in> set (grid_cells job c) \<Longrightarrow> cell_w d = photo_w_px c \<and> cell_h d = photo_h_px c"
  by (auto simp: grid_cells_def grid_cell_def)

lemma nat_form:
  assumes "\<forall>x < W b. \<forall>y < H b. \<forall>k < 3. s' ! pix (W b) x y k = (if P (int x) (int y) then 0 else s ! pix (W b) x y k)"
  shows "same_on b (px_at b s') (\<lambda>px py k. if P px py then 0 else px_at b s px py k)"
proof -
  have "px_at b s' px py k = (if P px py then 0 else px_at b s px py k)" if "on_canvas b px py" "k < 3" for px py k
  proof -
    note n = on_canvas_nat [OF that(1)]
    show ?thesis unfolding px_at_def using assms [rule_format, OF n(1,2) that(2), unfolded n(3,4)] .
  qed
  then show ?thesis by (simp add: same_on_def)
qed

lemma borders_pass:
  assumes ok: "page_ok job c" and view: "rgb_view (buf c) (length s)"
  shows "\<exists>s'. (if border_px job > 0 then img_draw_borders (Some (buf c)) (Some (grid_layout job c)) (border_px job) s
      else Some (IMG_SUCCESS, s)) = Some (IMG_SUCCESS, s') \<and> length s' = length s \<and>
    same_on (buf c) (px_at (buf c) s') (bordered job (grid_cells job c) (px_at (buf c) s))"
proof (cases "border_px job > 0")
  case True
  have "W (buf c) < 2 ^ 31" "H (buf c) < 2 ^ 31" using page_sides [OF ok] by simp_all
  moreover have "small_cell d \<and> uint (border_px job) \<le> uint (cell_w d) \<and> uint (border_px job) \<le> uint (cell_h d)"
    if "d \<in> set (cells (grid_layout job c))" for d
    using that page_okD(4,5) [OF ok] cell_sides by (auto simp: border_fits_def)
  ultimately obtain s' where s': "img_draw_borders (Some (buf c)) (Some (grid_layout job c)) (border_px job) s = Some (IMG_SUCCESS, s')"
    "length s' = length s"
    "\<forall>x < W (buf c). \<forall>y < H (buf c). \<forall>k < 3. s' ! pix (W (buf c)) x y k =
       (if \<exists>d \<in> set (cells (grid_layout job c)). frame (uint (border_px job)) d (int x) (int y) then 0 else s ! pix (W (buf c)) x y k)"
    using draw_borders_spec [OF view _ _ layout_count [OF ok] _ True] by blast
  have "same_on (buf c) (px_at (buf c) s') (bordered job (grid_cells job c) (px_at (buf c) s))"
    using nat_form [OF s'(3)] True by (simp add: bordered_def [abs_def])
  with s' True show ?thesis by auto
next
  case False
  then show ?thesis by (simp add: bordered_def [abs_def] same_on_def)
qed

lemma bleed_pass:
  assumes ok: "page_ok job c" and view: "rgb_view (buf c) (length s)"
  shows "\<exists>s'. img_apply_bleed (Some (buf c)) (Some (grid_layout job c)) (bleed_px job) s = Some (IMG_SUCCESS, s') \<and> length s' = length s \<and>
    same_on (buf c) (px_at (buf c) s') (bled job (grid_cells job c) (px_at (buf c) s))"
proof (cases "bleed_px job = 0")
  case True
  then show ?thesis by (simp add: img_apply_bleed_def bled_def [abs_def] same_on_def)
next
  case False
  have "uint (height (buf c)) < 2 ^ 31"
    using page_sides [OF ok] by (simp add: uint_nat del: of_nat_unat)
  moreover have "cell_fits (buf c) d" if "d \<in> set (cells (grid_layout job c))" for d using that page_okD(4) [OF ok] by simp
  moreover have "apart (uint (gap job)) d e" if "d \<in> set (cells (grid_layout job c))" "e \<in> set (cells (grid_layout job c))" for d e
    using that grid_cells_apart [OF page_okD(1) [OF ok]] by simp
  ultimately obtain s' where "img_apply_bleed (Some (buf c)) (Some (grid_layout job c)) (bleed_px job) s = Some (IMG_SUCCESS, s')"
    "length s' = length s"
    "\<forall>px py k. on_canvas (buf c) px py \<longrightarrow> k < 3 \<longrightarrow> px_at (buf c) s' px py k =
       (case bleed_owner (uint (bleed_px job)) (cells (grid_layout job c)) px py of None \<Rightarrow> px_at (buf c) s px py k
        | Some d \<Rightarrow> edge_of (px_at (buf c) s) d px py k)"
    using apply_bleed_spec [OF view _ page_okD(6,7) [OF ok] layout_count [OF ok]] False by (metis word_neq_0_conv)
  then show ?thesis using False by (auto simp: same_on_def bled_def)
qed

lemma marks_pass:
  assumes ok: "page_ok job c" and view: "rgb_view (buf c) (length s)"
  shows "\<exists>s'. img_draw_crop_marks (Some (buf c)) (Some (grid_layout job c)) job s = Some (IMG_SUCCESS, s') \<and> length s' = length s \<and>
    same_on (buf c) (px_at (buf c) s') (marked job (grid_cells job c) (px_at (buf c) s))"
proof -
  have "small_cell d" if "d \<in> set (cells (grid_layout job c))" for d using that page_okD(4) [OF ok] by simp
  then obtain s' where s': "img_draw_crop_marks (Some (buf c)) (Some (grid_layout job c)) job s = Some (IMG_SUCCESS, s')"
    "length s' = length s" and eq: "\<forall>i < length s. s' ! i =
      (if crop_mark_px job \<noteq> 0 \<and> in_region (buf c) (\<lambda>px py. \<exists>d \<in> set (cells (grid_layout job c)). crop_marks_of job d px py) i
       then 0 else s ! i)"
    using draw_crop_marks_paints [OF view layout_count [OF ok] _ page_okD(8) [OF ok]] by blast
  have "px_at (buf c) s' px py k = marked job (grid_cells job c) (px_at (buf c) s) px py k"
    if "on_canvas (buf c) px py" "k < 3" for px py k
  proof -
    note n = on_canvas_nat [OF that(1)]
    have "in_region (buf c) (\<lambda>px py. \<exists>d \<in> set (cells (grid_layout job c)). crop_marks_of job d px py) (pix (W (buf c)) (nat px) (nat py) k)
        \<longleftrightarrow> (\<exists>d \<in> set (grid_cells job c). crop_marks_of job d px py)"
      using in_region_pix [OF n(1,2) that(2)] n(3,4) by simp
    then show ?thesis
      using eq [rule_format, OF at_in_block [OF view that]] by (simp add: px_at_def marked_def)
  qed
  with s' show ?thesis by (auto simp: same_on_def)
qed

lemma passes:
  assumes ok: "page_ok job c" and view: "rgb_view (buf c) (length s)"
  shows "\<exists>t. job_passes job (buf c) (grid_layout job c) s = Some (IMG_SUCCESS, t) \<and> length t = length s \<and>
    same_on (buf c) (px_at (buf c) t)
      (marked job (grid_cells job c) (bled job (grid_cells job c) (bordered job (grid_cells job c) (px_at (buf c) s))))"
proof -
  obtain s1 where s1: "(if border_px job > 0 then img_draw_borders (Some (buf c)) (Some (grid_layout job c)) (border_px job) s
      else Some (IMG_SUCCESS, s)) = Some (IMG_SUCCESS, s1)" "length s1 = length s"
    "same_on (buf c) (px_at (buf c) s1) (bordered job (grid_cells job c) (px_at (buf c) s))"
    using borders_pass [OF assms] by blast
  obtain s2 where s2: "img_apply_bleed (Some (buf c)) (Some (grid_layout job c)) (bleed_px job) s1 = Some (IMG_SUCCESS, s2)" "length s2 = length s"
    "same_on (buf c) (px_at (buf c) s2) (bled job (grid_cells job c) (px_at (buf c) s1))"
    using bleed_pass [OF ok, of s1] view s1(2) by auto
  obtain s3 where s3: "img_draw_crop_marks (Some (buf c)) (Some (grid_layout job c)) job s2 = Some (IMG_SUCCESS, s3)" "length s3 = length s"
    "same_on (buf c) (px_at (buf c) s3) (marked job (grid_cells job c) (px_at (buf c) s2))"
    using marks_pass [OF ok, of s2] view s2(2) by auto
  have "job_passes job (buf c) (grid_layout job c) s = Some (IMG_SUCCESS, s3)"
    unfolding job_passes_def s1(1) by (simp add: s2(1) s3(1))
  moreover have "\<forall>d \<in> set (grid_cells job c). cell_fits (buf c) d" using page_okD(4) [OF ok] by blast
  ultimately show ?thesis
    using s3(2) same_on_trans [OF s3(3) marked_cong [OF same_on_trans [OF s2(3) bled_cong [OF s1(3)]]]] by blast
qed

section \<open>Encoding a page\<close>

text \<open>The size in points of a side that is not zero can be printed, whatever the resolution.\<close>

lemma points_print:
  assumes "n \<noteq> 0"
  shows "fmt2 (fdiv (fmul (f_of_u32 n) (Fin 72)) (f_of_u32 d)) \<noteq> None"
proof -
  obtain a where a: "f_of_u32 n = Fin a" using f_of_u32_approx [of n] by metis
  note b = f_of_u32_bounds [OF a]
  have a1: "1 / 2 \<le> a" "a \<le> 2 ^ 33" using b(2,3) assms by blast+
  have r: "0 \<le> a * 72" "a * 72 \<le> 2 ^ 100" using a1 by simp_all
  obtain p where p: "fround (a * 72) = Fin p" "a * 72 - a * 72 / 2 ^ 24 - 1 / 2 ^ 150 \<le> p"
    by (rule fround_approx [OF r]) blast
  have "(1 :: rat) / 2 ^ 150 \<le> 1" by simp
  moreover have "a * 72 / 2 ^ 24 \<le> a * 72 / 2" using a1 by simp
  ultimately have p0: "0 < p" using p(2) a1 by linarith
  obtain q where q: "f_of_u32 d = Fin q" using f_of_u32_approx [of d] by metis
  have q0: "0 \<le> q" using f_of_u32_bounds [OF q] by blast
  have "fround (p / q) = PInf \<or> (\<exists>z. fround (p / q) = Fin z)"
    using round24_nonneg [of "p / q"] p0 q0 by (auto simp: fround_def Let_def)
  then show ?thesis
    using p0 by (auto simp: a p(1) q fmt2_def f_inf_def Let_def sgn_if)
qed

lemma encode_pdf_total:
  assumes "width b \<noteq> 0" and "height b \<noteq> 0"
  shows "img_encode_pdf tj fopen_ok (Some b) True d h \<noteq> None"
  using points_print [OF assms(1), of d] points_print [OF assms(2), of d]
  by (auto simp: img_encode_pdf_def split: option.splits)

section \<open>The blocks of a job\<close>

text \<open>The photo's block is given back while the canvas is kept.\<close>

lemma pool_took_release:
  assumes "pool_took p h s xs h1 s1 xs1" and "pool_took mem h1 s1 xs1 h3 s3 xs3"
  shows "\<exists>s4 h4. img_slab_free (Some s3) p h3 = Some (Some s4, h4) \<and> pool_took mem h s xs h4 s4 (p # xs3) \<and>
    (\<forall>q. q \<noteq> p \<longrightarrow> h4 q = h3 q) \<and> mem \<noteq> p"
proof -
  have a: "p \<notin> set xs1" "insert p (set xs1) = set xs" "p \<in> blocks s" "p \<noteq> NULL" "blocks s1 = blocks s"
    "block_size s1 = block_size s" "\<And>q. q \<notin> set xs \<Longrightarrow> h1 q = h q"
    using assms(1) by (simp_all add: pool_took_def)
  have b: "slab_wf h3 s3 xs3" "mem \<notin> set xs3" "insert mem (set xs3) = set xs1" "mem \<in> blocks s1" "mem \<noteq> NULL"
    "blocks s3 = blocks s1" "block_size s3 = block_size s1" "\<And>q. q \<notin> set xs1 \<Longrightarrow> h3 q = h1 q"
    using assms(2) by (simp_all add: pool_took_def)
  have ne: "mem \<noteq> p" "p \<notin> set xs3" using a(1) b(3) by auto
  obtain h4 where h4: "img_slab_free (Some s3) p h3 = Some (Some (s3\<lparr>free_list := p\<rparr>), h4)"
    "slab_wf h4 (s3\<lparr>free_list := p\<rparr>) (p # xs3)" "\<And>q. q \<noteq> p \<Longrightarrow> h4 q = h3 q"
    by (rule slab_free_wf [OF b(1) _ ne(2)]) (use a(3,5) b(6) in auto)
  have "h4 q = h q" if "q \<notin> set xs" for q
  proof -
    have "q \<noteq> p" "q \<notin> set xs1" using that a(2) by auto
    then show ?thesis using h4(3) b(8) a(7) that by simp
  qed
  then have "pool_took mem h s xs h4 (s3\<lparr>free_list := p\<rparr>) (p # xs3)"
    unfolding pool_took_def using h4(2) ne b a by auto
  with h4 ne(1) show ?thesis by blast
qed

lemma pool_took_write:
  assumes "pool_took mem h s xs h1 s1 xs1" and "length t = length (h1 mem)"
  shows "pool_took mem h s xs (h1(mem := t)) s1 xs1"
  using assms slab_client_write [of h1 s1 xs1 mem t] by (auto simp: pool_took_def)

lemma canvas_free_kept:
  assumes "pool_took (data (buf c)) h s xs h1 s1 xs1"
  shows "\<exists>c' s2 h2 xs2. img_canvas_free (Some c) (Some s1) h1 = Some (c', Some s2, h2) \<and> pool_kept h s xs h2 s2 xs2"
proof -
  obtain s2 h2 where "img_slab_free (Some s1) (data (buf c)) h1 = Some (Some s2, h2)" "pool_kept h s xs h2 s2 (data (buf c) # xs1)"
    using pool_took_free [OF assms] by blast
  then show ?thesis using assms by (auto simp: img_canvas_free_def pool_took_def)
qed

lemma pool_took_length:
  assumes "slab_wf h s xs" and "pool_took mem h s xs h' s' xs'"
  shows "length xs = Suc (length xs')"
proof -
  have "card (set xs) = length xs" "card (set xs') = length xs'" "mem \<notin> set xs'" "insert mem (set xs') = set xs"
    using assms by (auto simp: pool_took_def slab_wf_def intro: distinct_card)
  then show ?thesis using card_insert_disjoint [of "set xs'" mem] by simp
qed

text \<open>The bytes a block must hold for the canvas of a job, and for the largest intermediate photo.\<close>

definition canvas_room :: "img_job \<Rightarrow> nat" where
  "canvas_room job = (case canvas_geometry job zero_canvas of
     None \<Rightarrow> 0 | Some c \<Rightarrow> 3 * unat (page_w_px c) * unat (page_h_px c))"

definition photo_room :: "img_job \<Rightarrow> img_buffer \<Rightarrow> nat" where
  "photo_room job photo = (case canvas_geometry job zero_canvas of
     None \<Rightarrow> 0 | Some c \<Rightarrow> cell_room job photo (photo_w_px c) (photo_h_px c))"

text \<open>The canvas of a job, as far as the rest of the job needs it.\<close>

lemma job_canvas:
  assumes wf: "slab_wf h s xs" and job: "job_ok job"
  shows "(\<exists>c'. img_canvas_init (Some zero_canvas) (Some s) (Some job) h = Some (IMG_ERR_NOMEM, Some c', Some s, h)) \<and>
      (xs \<noteq> [] \<longrightarrow> unat (block_size s) < canvas_room job) \<or>
    (\<exists>c s' h' xs'. img_canvas_init (Some zero_canvas) (Some s) (Some job) h = Some (IMG_SUCCESS, Some c, Some s', h') \<and>
       pool_took (data (buf c)) h s xs h' s' xs' \<and> canvas_ok job c (length (h' (data (buf c)))) \<and> page_ok job c \<and>
       photo_room job = (\<lambda>photo. cell_room job photo (photo_w_px c) (photo_h_px c)) \<and>
       (\<forall>q. q \<noteq> data (buf c) \<longrightarrow> h' q = h q) \<and> same_on (buf c) (px_at (buf c) (h' (data (buf c)))) (\<lambda>px py k. bg job k))"
proof -
  have pf: "page_fits job" using job by (simp add: job_ok_def)
  show ?thesis
    using wf pf
  proof (cases rule: canvas_init_cases [where c = zero_canvas])
    case (nomem c')
    then have "canvas_geometry job zero_canvas = Some c'"
      by (auto simp: img_canvas_init_def Let_def split: bind_splits if_splits)
    with nomem show ?thesis by (auto simp: canvas_room_def)
  next
    case (ok c mem xs' s' h')
    have g: "\<exists>g. canvas_geometry job zero_canvas = Some g \<and> photo_w_px c = photo_w_px g \<and> photo_h_px c = photo_h_px g"
      using ok(2) by (auto simp: img_canvas_init_def Let_def split: bind_splits if_splits)
    then have bf: "border_fits job c" using job by (auto simp: job_ok_def border_fits_def)
    have "photo_room job = (\<lambda>photo. cell_room job photo (photo_w_px c) (photo_h_px c))"
      using g by (auto simp: photo_room_def)
    note pr = this
    have cv: "canvas_ok job c (length (h' (data (buf c))))" using ok by simp
    then have "page_ok job c"
      using bf job grid_cells_fit [OF cv] by (auto simp: page_ok_def canvas_ok_def job_ok_def)
    moreover note cv
    moreover have "pool_took (data (buf c)) h s xs h' s' xs'"
      using ok by (auto simp: pool_took_def canvas_ok_def)
    moreover have "px_at (buf c) (h' (data (buf c))) px py k = bg job k" if on: "on_canvas (buf c) px py" and k: "k < 3" for px py k
    proof -
      have "pix (W (buf c)) (nat px) (nat py) k < 3 * W (buf c) * H (buf c)"
        using pix_in_view [OF on_canvas_nat(1,2) [OF on] k] by simp
      from ok(11) [OF this] show ?thesis using ok(9) pix_channel [OF k] by (simp add: px_at_def)
    qed
    ultimately show ?thesis
      using ok(2,9,10) pr by (intro disjI2 exI [of _ c] exI [of _ s'] exI [of _ h'] exI [of _ xs']) (auto simp: same_on_def)
  qed
qed

section \<open>The stages of a job\<close>

text \<open>The finished canvas of a job: where the output comes from.\<close>

definition job_page :: "img_job \<Rightarrow> img_buffer \<Rightarrow> bytes \<Rightarrow> img_canvas \<Rightarrow> bytes \<Rightarrow> bool" where
  "job_page job photo m c t \<longleftrightarrow> grid_fits job c \<and> canvas_ok job c (length t) \<and>
     same_on (buf c) (px_at (buf c) t) (page job c (cell_content job photo m (photo_w_px c) (photo_h_px c)))"

text \<open>The layout and the passes, on a canvas painted with the background.\<close>

lemma layout_and_passes:
  assumes wf: "slab_wf h s xs" and photo: "photo_ok h xs photo" and blk: "unat (block_size s) < 2 ^ 32"
    and c: "canvas_ok job c (length (h (data (buf c))))" "data (buf c) \<notin> set xs" "page_ok job c"
    and bgd: "same_on (buf c) (px_at (buf c) (h (data (buf c)))) (\<lambda>px py k. bg job k)" and ar: "arena_wf a"
  shows "\<exists>r out a' t s' h' xs'. img_layout_grid (Some c) (Some photo) (Some job) True (Some a) (Some s) h =
      Some (r, out, Some a', Some s', h') \<and> length t = length (h (data (buf c))) \<and>
    pool_kept (h(data (buf c) := t)) s xs h' s' xs' \<and>
    (r = IMG_SUCCESS \<longrightarrow> (\<exists>u. job_passes job (buf c) (layout_of job out) (h' (data (buf c))) = Some (IMG_SUCCESS, u) \<and>
       length u = length t \<and> job_page job photo (h (data photo)) c u)) \<and>
    (r = IMG_SUCCESS \<or> length xs < 2 \<or> unat (block_size s) < cell_room job photo (photo_w_px c) (photo_h_px c) \<or> cells_too_big job a)"
proof -
  note gf = page_okD(1) [OF c(3)]
  define V where "V = cell_content job photo (h (data photo)) (photo_w_px c) (photo_h_px c)"
  obtain r out a' s' h' xs' where lay: "img_layout_grid (Some c) (Some photo) (Some job) True (Some a) (Some s) h =
      Some (r, out, Some a', Some s', h')"
    and post: "if r = IMG_SUCCESS then out = Some (map Some (grid_cells job c)) \<and>
       (\<exists>t. laid_out job c V (h (data (buf c))) t \<and> pool_kept (h(data (buf c) := t)) s xs h' s' xs')
     else r = IMG_ERR_NOMEM \<and> out = None \<and> pool_kept h s xs h' s' xs' \<and>
       (length xs < 2 \<or> unat (block_size s) < cell_room job photo (photo_w_px c) (photo_h_px c) \<or> cells_too_big job a)"
    using layout_grid_spec [OF wf photo blk c(1,2) ar] unfolding V_def by blast
  show ?thesis
  proof (cases "r = IMG_SUCCESS")
    case False
    then show ?thesis
      using lay post by (intro exI [of _ r] exI [of _ out] exI [of _ a'] exI [of _ "h (data (buf c))"] exI [of _ s'] exI [of _ h'] exI [of _ xs']) simp
  next
    case True
    then obtain t where t: "laid_out job c V (h (data (buf c))) t" "pool_kept (h(data (buf c) := t)) s xs h' s' xs'"
      and out: "out = Some (map Some (grid_cells job c))"
      using post by auto
    have len: "length t = length (h (data (buf c)))" using t(1) by (simp add: laid_out_def)
    have "h' (data (buf c)) = t" using t(2) c(2) by (auto simp: pool_kept_def)
    moreover have sh: "same_on (buf c) (px_at (buf c) t) (sheet job c V)"
      using t(1) bgd by (auto simp: laid_out_def same_on_def sheet_def)
    moreover have "rgb_view (buf c) (length t)" using c(1) len by (simp add: canvas_ok_def)
    moreover from passes [OF c(3) this] obtain u where u: "job_passes job (buf c) (grid_layout job c) t = Some (IMG_SUCCESS, u)"
      "length u = length t" "same_on (buf c) (px_at (buf c) u)
        (marked job (grid_cells job c) (bled job (grid_cells job c) (bordered job (grid_cells job c) (px_at (buf c) t))))"
      by blast
    have "\<forall>d \<in> set (grid_cells job c). cell_fits (buf c) d" using page_okD(4) [OF c(3)] by blast
    then have "same_on (buf c) (px_at (buf c) u) (page job c V)"
      unfolding page_def using same_on_trans [OF u(3) marked_cong [OF bled_cong [OF bordered_cong [OF sh]]]] by blast
    then have "job_page job photo (h (data photo)) c u"
      using gf c(1) len u(2) by (simp add: job_page_def V_def)
    ultimately show ?thesis
      using True lay t(2) len u out layout_of_grid(1) [OF gf]
      by (intro exI [of _ r] exI [of _ out] exI [of _ a'] exI [of _ t] exI [of _ s'] exI [of _ h'] exI [of _ xs']) auto
  qed
qed

text \<open>The resources with which no stage after the decoder can fail for want of memory.\<close>

definition roomy :: "img_job \<Rightarrow> img_buffer \<Rightarrow> img_slab_pool \<Rightarrow> nat \<Rightarrow> img_arena \<Rightarrow> bool" where
  "roomy job photo s n a \<longleftrightarrow> 4 \<le> n \<and> canvas_room job \<le> unat (block_size s) \<and>
     photo_room job photo \<le> unat (block_size s) \<and> \<not> cells_too_big job a"

text \<open>What a run of the job ends with: no block is lost, and a success has encoded the page.\<close>

definition job_done ::
  "os_env \<Rightarrow> img_io_vtable \<Rightarrow> decode_fn \<Rightarrow> string \<Rightarrow> img_job \<Rightarrow> ptr \<times> bytes \<Rightarrow> img_slab_pool \<Rightarrow> heap \<Rightarrow> img_result \<Rightarrow> bytes option \<Rightarrow> bool" where
  "job_done os vt dec outp job file s h r out \<longleftrightarrow>
     (if r = IMG_SUCCESS
      then \<exists>photo s1 h1 c h2. dec (Some file) (Some empty_buffer) (Some s) h = Some (IMG_SUCCESS, Some photo, Some s1, h1) \<and>
        job_page job photo (h1 (data photo)) c (h2 (data (buf c))) \<and>
        job_output os vt job outp (buf c) h2 = Some (IMG_SUCCESS, out)
      else out = None \<or> (\<exists>(c :: img_canvas) h2. job_output os vt job outp (buf c) h2 = Some (r, out)))"

lemma job_done_failed: "r \<noteq> IMG_SUCCESS \<Longrightarrow> job_done os vt dec outp job file s h r None"
  by (simp add: job_done_def)

context image_decoder
begin

lemma job_stages_spec:
  assumes wf: "slab_wf h s xs" and blk: "unat (block_size s) < 2 ^ 32" and job: "job_ok job" and ar: "arena_wf a"
    and vt: "v_decode vt = Some decode"
    and enc: "\<forall>b h. width b \<noteq> 0 \<longrightarrow> height b \<noteq> 0 \<longrightarrow> job_output os vt job outp b h \<noteq> None"
  shows "\<exists>r out s' h' xs'. job_stages os vt outp job file a (Some s) h = Some (r, out, Some s', h') \<and>
    pool_kept h s xs h' s' xs' \<and> job_done os vt decode outp job file s h r out \<and>
    (\<forall>photo s1 h1. decode (Some file) (Some empty_buffer) (Some s) h = Some (IMG_SUCCESS, Some photo, Some s1, h1) \<longrightarrow>
       roomy job photo s (length xs) a \<longrightarrow>
       (\<forall>b h. width b \<noteq> 0 \<longrightarrow> height b \<noteq> 0 \<longrightarrow> data b \<noteq> NULL \<longrightarrow> (\<exists>w. job_output os vt job outp b h = Some (IMG_SUCCESS, w))) \<longrightarrow> r = IMG_SUCCESS)"
  using decode_spec [OF wf, where inp = "file" and out = empty_buffer]
proof (elim disjE exE conjE)
  fix r s1 h1 xs1
  assume e: "decode (Some file) (Some empty_buffer) (Some s) h = Some (r, Some empty_buffer, Some s1, h1)" "r \<noteq> IMG_SUCCESS"
    and k: "pool_kept h s xs h1 s1 xs1"
  then have "job_stages os vt outp job file a (Some s) h = Some (r, None, Some s1, h1)"
    by (simp add: job_stages_def vt)
  with k job_done_failed [OF e(2)] e show ?thesis by auto
next
  fix photo s1 h1 xs1
  assume d: "decode (Some file) (Some empty_buffer) (Some s) h = Some (IMG_SUCCESS, Some photo, Some s1, h1)"
    and t1: "pool_took (data photo) h s xs h1 s1 xs1" and ok1: "photo_ok h1 xs1 photo"
  note len1 = pool_took_length [OF wf t1]
  have wf1: "slab_wf h1 s1 xs1" and bs1: "block_size s1 = block_size s"
    using t1 by (simp_all add: pool_took_def)
  show ?thesis
    using job_canvas [OF wf1 job]
  proof (elim disjE exE conjE)
    fix c'
    assume cv: "img_canvas_init (Some zero_canvas) (Some s1) (Some job) h1 = Some (IMG_ERR_NOMEM, Some c', Some s1, h1)"
      and why: "xs1 \<noteq> [] \<longrightarrow> unat (block_size s1) < canvas_room job"
    then have "\<not> roomy job photo s (length xs) a" using len1 bs1 by (auto simp: roomy_def)
    moreover
    obtain s2 h2 where "img_slab_free (Some s1) (data photo) h1 = Some (Some s2, h2)" "pool_kept h s xs h2 s2 (data photo # xs1)"
      using pool_took_free [OF t1] by blast
    moreover from this have "job_stages os vt outp job file a (Some s) h = Some (IMG_ERR_NOMEM, None, Some s2, h2)"
      by (simp add: job_stages_def vt d cv)
    ultimately show ?thesis using job_done_failed [of IMG_ERR_NOMEM] d
      by (intro exI [of _ IMG_ERR_NOMEM] exI [of _ None] exI [of _ s2] exI [of _ h2] exI [of _ "data photo # xs1"]) auto
  next
    fix c s2 h2 xs2
    assume cv: "img_canvas_init (Some zero_canvas) (Some s1) (Some job) h1 = Some (IMG_SUCCESS, Some c, Some s2, h2)"
      and t2: "pool_took (data (buf c)) h1 s1 xs1 h2 s2 xs2" and cok: "canvas_ok job c (length (h2 (data (buf c))))" "page_ok job c"
      and pr: "photo_room job = (\<lambda>photo. cell_room job photo (photo_w_px c) (photo_h_px c))"
      and fr2: "\<forall>q. q \<noteq> data (buf c) \<longrightarrow> h2 q = h1 q"
      and bgd: "same_on (buf c) (px_at (buf c) (h2 (data (buf c)))) (\<lambda>px py k. bg job k)"
    have wf2: "slab_wf h2 s2 xs2" and bs2: "unat (block_size s2) < 2 ^ 32" and nin: "data (buf c) \<notin> set xs2"
      and sub: "set xs2 \<subseteq> set xs1" and cin: "data (buf c) \<in> set xs1"
      using t2 blk bs1 by (auto simp: pool_took_def)
    have "data photo \<notin> set xs1" using t1 by (simp add: pool_took_def)
    then have ph2: "h2 (data photo) = h1 (data photo)" using fr2 cin by metis
    have photo2: "photo_ok h2 xs2 photo" 
      using ok1 sub ph2 by (auto simp: photo_ok_def)
    obtain r out a' t s3 h3 xs3 where lay: "img_layout_grid (Some c) (Some photo) (Some job) True (Some a) (Some s2) h2 =
        Some (r, out, Some a', Some s3, h3)" "length t = length (h2 (data (buf c)))"
      and k3: "pool_kept (h2(data (buf c) := t)) s2 xs2 h3 s3 xs3"
      and post: "r = IMG_SUCCESS \<longrightarrow> (\<exists>u. job_passes job (buf c) (layout_of job out) (h3 (data (buf c))) = Some (IMG_SUCCESS, u) \<and>
         length u = length t \<and> job_page job photo (h2 (data photo)) c u)"
      and why: "r = IMG_SUCCESS \<or> length xs2 < 2 \<or> unat (block_size s2) < cell_room job photo (photo_w_px c) (photo_h_px c) \<or>
         cells_too_big job a"
      using layout_and_passes [OF wf2 photo2 bs2 cok(1) nin cok(2) bgd ar] by blast
    have t3: "pool_took (data (buf c)) h1 s1 xs1 h3 s3 xs3"
      by (rule pool_took_kept [OF pool_took_write [OF t2 lay(2)] k3])
    obtain s4 h4 where fr: "img_slab_free (Some s3) (data photo) h3 = Some (Some s4, h4)"
      and t4: "pool_took (data (buf c)) h s xs h4 s4 (data photo # xs3)"
      and keep: "\<forall>q. q \<noteq> data photo \<longrightarrow> h4 q = h3 q" "data (buf c) \<noteq> data photo"
      using pool_took_release [OF t1 t3] by blast
    note start = job_stages_def vt d cv lay(1) fr
    show ?thesis
    proof (cases "r = IMG_SUCCESS")
      case False
      obtain c' s5 h5 xs5 where "img_canvas_free (Some c) (Some s4) h4 = Some (c', Some s5, h5)" "pool_kept h s xs h5 s5 xs5"
        using canvas_free_kept [OF t4] by blast
      moreover from this have "job_stages os vt outp job file a (Some s) h = Some (r, None, Some s5, h5)"
        using False by (simp add: start)
      moreover have "\<not> roomy job photo s (length xs) a"
        using why False len1 pool_took_length [OF wf1 t2] t2 bs1 by (auto simp: roomy_def pr pool_took_def)
      ultimately show ?thesis using job_done_failed [OF False] d
        by (intro exI [of _ r] exI [of _ None] exI [of _ s5] exI [of _ h5] exI [of _ xs5]) auto
    next
      case True
      then obtain u where u: "job_passes job (buf c) (layout_of job out) (h4 (data (buf c))) = Some (IMG_SUCCESS, u)"
        "length u = length t" "job_page job photo (h1 (data photo)) c u"
        using post keep ph2 by auto
      define h5 where "h5 = h4(data (buf c) := u)"
      have "length u = length (h4 (data (buf c)))"
      proof -
        have "h3 (data (buf c)) = t" using k3 nin by (simp add: pool_kept_def)
        then show ?thesis using keep u(2) by simp
      qed
      then have t5: "pool_took (data (buf c)) h s xs h5 s4 (data photo # xs3)"
        unfolding h5_def by (rule pool_took_write [OF t4])
      have sides: "width (buf c) \<noteq> 0 \<and> height (buf c) \<noteq> 0"
        using page_okD(1,2,3) [OF cok(2)] by (auto simp: grid_fits_def)
      then obtain r' w where w: "job_output os vt job outp (buf c) h5 = Some (r', w)" using enc by fastforce
      obtain c' s6 h6 xs6 where f6: "img_canvas_free (Some c) (Some s4) h5 = Some (c', Some s6, h6)" "pool_kept h s xs h6 s6 xs6"
        using canvas_free_kept [OF t5] by blast
      have "job_stages os vt outp job file a (Some s) h = Some (r', w, Some s6, h6)"
        using True u(1) w f6(1) by (simp add: start h5_def)
      moreover have "job_done os vt decode outp job file s h r' w"
      proof (cases "r' = IMG_SUCCESS")
        case True
        have "job_page job photo (h1 (data photo)) c (h5 (data (buf c)))" using u(3) by (simp add: h5_def)
        with d w True show ?thesis unfolding job_done_def by auto
      next
        case False
        with w show ?thesis unfolding job_done_def by auto
      qed
      moreover have "r' = IMG_SUCCESS"
        if "\<forall>b h. width b \<noteq> 0 \<longrightarrow> height b \<noteq> 0 \<longrightarrow> data b \<noteq> NULL \<longrightarrow> (\<exists>w. job_output os vt job outp b h = Some (IMG_SUCCESS, w))"
        using that [rule_format, of "buf c" h5] w sides t2 by (auto simp: pool_took_def)
      ultimately show ?thesis using f6(2) by blast
    qed
  qed
qed

end

section \<open>Properties\<close>

lemma defaults_fields:
  "v_decode (img_io_register_defaults tj vt) = Some (img_decode_to_buffer tj True)"
  "v_encode (img_io_register_defaults tj vt) = Some (\<lambda>b. img_encode_from_buffer tj True (Some b) True)"
  "v_encode_pdf (img_io_register_defaults tj vt) = Some (\<lambda>fopen_ok b. img_encode_pdf tj fopen_ok (Some b) True)"
  by (simp_all add: img_io_register_defaults_def img_io_register_def)

lemma job_output_total:
  assumes "width b \<noteq> 0" and "height b \<noteq> 0"
  shows "job_output os (img_io_register_defaults tj vt) job outp b h \<noteq> None"
proof -
  obtain r f where "img_encode_pdf tj (can_write os outp) (Some b) True (dpi job) h = Some (r, f)"
    using encode_pdf_total [OF assms, of tj "can_write os outp" "dpi job" h] by auto
  then show ?thesis
    by (auto simp: job_output_def defaults_fields Let_def split: option.splits prod.splits)
qed

text \<open>
  The file of a successful output: the JPEG image of the canvas, in a PDF when the name asks for
  one. The disk has as much of it as the device took.
\<close>

definition page_file :: "turbojpeg \<Rightarrow> string \<Rightarrow> img_buffer \<Rightarrow> bytes \<Rightarrow> bytes \<Rightarrow> bool" where
  "page_file tj outp b t f \<longleftrightarrow>
     (\<exists>jpeg. tjCompress2 tj t (width b) (stride b) (height b) (if is_pdf_output outp then 92 else 85) = Some jpeg \<and>
        (if is_pdf_output outp then \<exists>pt_w pt_h. f = pdf_file (width b) (height b) pt_w pt_h jpeg else f = jpeg))"

lemma job_output_success:
  assumes "job_output os (img_io_register_defaults tj vt) job outp b h = Some (IMG_SUCCESS, out)"
  shows "\<exists>f. out = Some (on_disk os outp f) \<and> can_write os outp \<and> page_file tj outp b (h (data b)) f"
proof (cases "is_pdf_output outp")
  case True
  then obtain f where "img_encode_pdf tj (can_write os outp) (Some b) True (dpi job) h = Some (IMG_SUCCESS, f)"
    "out = map_option (on_disk os outp) f"
    using assms by (auto simp: job_output_def defaults_fields split: bind_splits)
  then show ?thesis
    using True by (auto simp: img_encode_pdf_def page_file_def split: if_splits option.splits bind_splits)
next
  case False
  then show ?thesis
    using assms
    by (auto simp: job_output_def defaults_fields img_encode_from_buffer_def result_of_int_def page_file_def Let_def
        split: if_splits option.splits)
qed

text \<open>A full device is not reported: the same output on a device without room has the same code.\<close>

lemma full_disk_unreported:
  assumes "job_output os vt job p b h = Some (IMG_SUCCESS, Some f)" and "can_write os p"
  shows "job_output (os\<lparr>disk_room := (disk_room os)(p \<mapsto> 0)\<rparr>) vt job p b h = Some (IMG_SUCCESS, Some [])"
proof -
  have "can_write (os\<lparr>disk_room := (disk_room os)(p \<mapsto> 0)\<rparr>) p" and "on_disk (os\<lparr>disk_room := (disk_room os)(p \<mapsto> 0)\<rparr>) p g = []" for g
    by (simp_all add: can_write_def on_disk_def)
  then show ?thesis
    using assms by (auto simp: job_output_def Let_def split: bind_splits prod.splits option.splits if_splits)
qed

definition scratch_ok :: "os_env \<Rightarrow> bool" where
  "scratch_ok os \<longleftrightarrow> (\<forall>n. arena_mem os n \<noteq> NULL \<longrightarrow> unat (arena_mem os n) + 2 ^ 20 < 2 ^ 64)"

lemma scratch_arena:
  assumes "scratch_ok os" and "img_arena_create (arena_hdr os) (arena_mem os) (1024 * 1024) = Some a"
  shows "arena_wf a"
proof -
  have "align64 (1024 * 1024) = 1048576" by (simp add: align64_def)
  then have a: "a = \<lparr>base = arena_mem os 1048576, asize = 1048576, offset = 0\<rparr>" "arena_mem os 1048576 \<noteq> NULL"
    using assms(2) by (auto simp: img_arena_create_def Let_def split: if_splits)
  then have "unat (arena_mem os 1048576) + 2 ^ 20 < 2 ^ 64" using assms(1) by (simp add: scratch_ok_def)
  then show ?thesis using a by (simp add: arena_wf_def)
qed

lemma run_job_early:
  assumes "img_job.abi_version job = IMG_JOB_ABI_VERSION"
  shows "(\<exists>r. img_api_run_job os vt (Some pool) (Some inp) (Some outp) (Some job) h = Some (r, None, pool, h) \<and> r \<noteq> IMG_SUCCESS) \<or>
    (\<exists>a bs arena. load_file_mmap os inp = (IMG_SUCCESS, Some (a, bs)) \<and>
       img_arena_create (arena_hdr os) (arena_mem os) (1024 * 1024) = Some arena \<and>
       img_api_run_job os vt (Some pool) (Some inp) (Some outp) (Some job) h = job_stages os vt outp job (a, bs) arena pool h)"
proof -
  obtain r m where l: "load_file_mmap os inp = (r, m)" by fastforce
  have "m = None \<and> r = IMG_ERR_IO \<or> m \<noteq> None \<and> r = IMG_SUCCESS"
    using l by (auto simp: load_file_mmap_def Let_def split: option.splits if_splits)
  then show ?thesis
    using l assms by (cases m; cases "img_arena_create (arena_hdr os) (arena_mem os) (1024 * 1024)")
      (auto simp: img_api_run_job_def Let_def)
qed

text \<open>
  C1. The print job as a whole, for a job whose grid fits the page and the standard codecs. It
  never runs into undefined behaviour, and whatever goes wrong every slab block it took is back
  in the pool. When it succeeds, the file written is the JPEG image (in a PDF if the name ends
  in \<open>.pdf\<close>), as far as the device takes its bytes, of a canvas on which every pixel is the finished page: the decoded photo in every
  cell and the background elsewhere, then the borders, the bleed of the bordered cells, and the
  crop marks on top.
\<close>

theorem run_job_correct:
  assumes "slab_wf h s xs" and "unat (block_size s) < 2 ^ 32" and "job_ok job" and "scratch_ok os"
  shows "\<exists>r out s' h' xs'. img_api_run_job os (img_io_register_defaults tj zero_vtable) (Some (Some s)) (Some inp) (Some outp) (Some job) h =
      Some (r, out, Some s', h') \<and> pool_kept h s xs h' s' xs' \<and>
    (r = IMG_SUCCESS \<longrightarrow> (\<exists>a bs photo s1 h1 c t f. load_file_mmap os inp = (IMG_SUCCESS, Some (a, bs)) \<and>
       img_decode_to_buffer tj True (Some (a, bs)) (Some empty_buffer) (Some s) h = Some (IMG_SUCCESS, Some photo, Some s1, h1) \<and>
       job_page job photo (h1 (data photo)) c t \<and> out = Some (on_disk os outp f) \<and> can_write os outp \<and> page_file tj outp (buf c) t f))"
proof -
  let ?vt = "img_io_register_defaults tj zero_vtable"
  have abi: "img_job.abi_version job = IMG_JOB_ABI_VERSION" using assms(3) by (simp add: job_ok_def)
  show ?thesis
    using run_job_early [OF abi, of os ?vt "Some s" inp outp h]
  proof (elim disjE exE conjE)
    fix r assume "img_api_run_job os ?vt (Some (Some s)) (Some inp) (Some outp) (Some job) h = Some (r, None, Some s, h)" "r \<noteq> IMG_SUCCESS"
    then show ?thesis using pool_kept_refl [OF assms(1)] by blast
  next
    fix a bs arena
    assume l: "load_file_mmap os inp = (IMG_SUCCESS, Some (a, bs))"
      and ar: "img_arena_create (arena_hdr os) (arena_mem os) (1024 * 1024) = Some arena"
      and eq: "img_api_run_job os ?vt (Some (Some s)) (Some inp) (Some outp) (Some job) h = job_stages os ?vt outp job (a, bs) arena (Some s) h"
    obtain r out s' h' xs' where st: "job_stages os ?vt outp job (a, bs) arena (Some s) h = Some (r, out, Some s', h')"
      "pool_kept h s xs h' s' xs'" "job_done os ?vt (img_decode_to_buffer tj True) outp job (a, bs) s h r out"
      using jpeg.job_stages_spec [OF assms(1-3) scratch_arena [OF assms(4) ar], of ?vt tj os outp "(a, bs)"] job_output_total
      by (auto simp: defaults_fields)
    have "r = IMG_SUCCESS \<longrightarrow> (\<exists>photo s1 h1 c t f.
       img_decode_to_buffer tj True (Some (a, bs)) (Some empty_buffer) (Some s) h = Some (IMG_SUCCESS, Some photo, Some s1, h1) \<and>
       job_page job photo (h1 (data photo)) c t \<and> out = Some (on_disk os outp f) \<and> can_write os outp \<and> page_file tj outp (buf c) t f)"
      using st(3) job_output_success unfolding job_done_def by fastforce
    then show ?thesis using eq st l by auto
  qed
qed

text \<open>A job and a system for the witnesses.\<close>

definition big_file :: bytes where "big_file = replicate 671089 9"

lemma length_big_file [simp]: "length big_file = 671089"
  by (simp only: big_file_def length_replicate)

definition demo_os :: os_env where
  "demo_os = \<lparr>read_file = (\<lambda>p. if p = ''in.jpg'' then Some big_file else if p = ''tiny.jpg'' then Some [9] else None),
     mmap_addr = (\<lambda>n. Some 4096), arena_hdr = True, arena_mem = (\<lambda>n. 1048576), disk_room = (\<lambda>p. Some 1048576)\<rparr>"

lemma tiny_geometry:
  "\<exists>c. canvas_geometry tiny_job zero_canvas = Some c \<and> photo_w_px c = 2 \<and> photo_h_px c = 1 \<and>
     page_w_px c = 8 \<and> page_h_px c = 12"
  by (simp add: canvas_geometry_def tiny_job_def img_job_defaults_def tiny_px Let_def zero_canvas_def gaps_def avail_def scale_down_def)

lemma tiny_ok: "job_ok tiny_job"
  using tiny_geometry tiny_fits
  by (auto simp: job_ok_def border_fits_def tiny_job_def img_job_defaults_def small_marks_def)

lemma demo_scratch: "scratch_ok demo_os"
  by (simp add: scratch_ok_def demo_os_def)

theorem run_job_correct_witness:
  "\<exists>r out s' h' xs'. img_api_run_job demo_os (img_io_register_defaults demo_tj zero_vtable) (Some (Some demo_pool)) (Some ''in.jpg'') (Some ''out.pdf'') (Some tiny_job) demo_heap =
      Some (r, out, Some s', h') \<and> pool_kept demo_heap demo_pool demo_free h' s' xs' \<and>
    (r = IMG_SUCCESS \<longrightarrow> (\<exists>a bs photo s1 h1 c t f. load_file_mmap demo_os ''in.jpg'' = (IMG_SUCCESS, Some (a, bs)) \<and>
       img_decode_to_buffer demo_tj True (Some (a, bs)) (Some empty_buffer) (Some demo_pool) demo_heap = Some (IMG_SUCCESS, Some photo, Some s1, h1) \<and>
       job_page tiny_job photo (h1 (data photo)) c t \<and> out = Some (on_disk demo_os ''out.pdf'' f) \<and> can_write demo_os ''out.pdf'' \<and> page_file demo_tj ''out.pdf'' (buf c) t f))"
  by (rule run_job_correct [OF demo_pool_wf(1) _ tiny_ok demo_scratch]) (simp add: demo_pool_wf)

text \<open>The security gate of a job, on the size of its file alone.\<close>

lemma job_gate:
  assumes "400 * length bs < 2 ^ 64"
  shows "img_security_validate_request 16384 16384 (of_nat (length bs)) =
    (if 671089 \<le> length bs then IMG_SUCCESS else IMG_ERR_SECURITY)"
proof -
  have "unat (of_nat (length bs) :: u64) = length bs" using assms by (simp add: unat_of_nat_small)
  then show ?thesis using validate_request_spec [of "of_nat (length bs)" 16384 16384] assms by auto
qed

lemma cells_fit_scratch:
  assumes "unat (cols job) * unat (rows job) < 2 ^ 16" and "asize a = 2 ^ 20" and "offset a = 0"
  shows "\<not> cells_too_big job a"
proof -
  define n where "n = cols job * rows job"
  have n: "unat n < 2 ^ 16" using assms(1) unat_mult_small [of "cols job" "rows job"] by (simp add: n_def)
  have "unat (sizeof_img_cell * ucast n :: u64) = 16 * unat n"
    using n unat_mult_small [of "16 :: u64" "ucast n"] by (simp add: sizeof_img_cell_def)
  moreover have "16 * unat n \<le> 16 * 65535" using n by simp
  ultimately have "unat (align64 (sizeof_img_cell * ucast n)) \<le> 2 ^ 20"
    by (subst unat_align64) simp_all
  then show ?thesis using assms(2,3) by (simp add: cells_too_big_def n_def)
qed

text \<open>
  C2. The print job succeeds. When the input can be read and has at least 671089 bytes, the
  decoder accepts it, four blocks are free, a block holds the page and the scaled photo, the
  grid has fewer than 65536 cells, the codec compresses every image and the output can be
  opened for writing, \<open>img_api_run_job\<close> returns \<open>IMG_SUCCESS\<close>: no other check of the pipeline can
  refuse the job.
\<close>

theorem run_job_succeeds:
  assumes "slab_wf h s xs" and "unat (block_size s) < 2 ^ 32" and "job_ok job" and "scratch_ok os"
    and "load_file_mmap os inp = (IMG_SUCCESS, Some (a, bs))" and "671089 \<le> length bs" and "400 * length bs < 2 ^ 64"
    and "arena_hdr os" and "arena_mem os (1024 * 1024) \<noteq> NULL" and "unat (cols job) * unat (rows job) < 2 ^ 16"
    and "img_decode_to_buffer tj True (Some (a, bs)) (Some empty_buffer) (Some s) h = Some (IMG_SUCCESS, Some photo, Some s1, h1)"
    and "4 \<le> length xs" and "canvas_room job \<le> unat (block_size s)" and "photo_room job photo \<le> unat (block_size s)"
    and "tjInitCompress tj" and "\<forall>px w st ht q. tjCompress2 tj px w st ht q \<noteq> None" and "can_write os outp"
  shows "\<exists>out s' h'. img_api_run_job os (img_io_register_defaults tj zero_vtable) (Some (Some s)) (Some inp) (Some outp) (Some job) h =
      Some (IMG_SUCCESS, Some out, Some s', h')"
proof -
  let ?vt = "img_io_register_defaults tj zero_vtable"
  have out: "\<exists>w. job_output os ?vt job outp b h = Some (IMG_SUCCESS, Some w)"
    if "width b \<noteq> 0" "height b \<noteq> 0" "data b \<noteq> NULL" for b h
  proof -
    note nz = that
    obtain j k where "tjCompress2 tj (h (data b)) (width b) (stride b) (height b) 92 = Some j"
      "tjCompress2 tj (h (data b)) (width b) (stride b) (height b) 85 = Some k"
      using assms(16) by blast
    moreover obtain pw ph where "fmt2 (fdiv (fmul (f_of_u32 (width b)) (Fin 72)) (f_of_u32 (dpi job))) = Some pw"
      "fmt2 (fdiv (fmul (f_of_u32 (height b)) (Fin 72)) (f_of_u32 (dpi job))) = Some ph"
      using points_print nz(1,2) by blast
    ultimately show ?thesis
      using nz(3) assms(15,17)
      by (auto simp: job_output_def defaults_fields img_encode_pdf_def img_encode_from_buffer_def result_of_int_def)
  qed
  obtain arena where ar: "img_arena_create (arena_hdr os) (arena_mem os) (1024 * 1024) = Some arena"
    "asize arena = 2 ^ 20" "offset arena = 0"
    using assms(8,9) by (auto simp: img_arena_create_def align64_def)
  have room: "roomy job photo s (length xs) arena"
    using assms(12-14) cells_fit_scratch [OF assms(10) ar(2,3)] by (simp add: roomy_def)
  have "img_api_run_job os ?vt (Some (Some s)) (Some inp) (Some outp) (Some job) h = job_stages os ?vt outp job (a, bs) arena (Some s) h"
    using assms(3,5) ar(1) job_gate [OF assms(7)] assms(6) by (simp add: img_api_run_job_def job_ok_def)
  moreover have "\<exists>r w s' h' xs'. job_stages os ?vt outp job (a, bs) arena (Some s) h = Some (r, w, Some s', h') \<and>
    pool_kept h s xs h' s' xs' \<and> job_done os ?vt (img_decode_to_buffer tj True) outp job (a, bs) s h r w \<and>
    (\<forall>photo s1 h1. img_decode_to_buffer tj True (Some (a, bs)) (Some empty_buffer) (Some s) h = Some (IMG_SUCCESS, Some photo, Some s1, h1) \<longrightarrow>
       roomy job photo s (length xs) arena \<longrightarrow>
       (\<forall>b h. width b \<noteq> 0 \<longrightarrow> height b \<noteq> 0 \<longrightarrow> data b \<noteq> NULL \<longrightarrow>
          (\<exists>w. job_output os ?vt job outp b h = Some (IMG_SUCCESS, w))) \<longrightarrow> r = IMG_SUCCESS)"
    using job_output_total
    by (intro jpeg.job_stages_spec [OF assms(1-3) scratch_arena [OF assms(4) ar(1)]]) (simp_all add: defaults_fields)
  then obtain r w s' h' where st: "job_stages os ?vt outp job (a, bs) arena (Some s) h = Some (r, w, Some s', h')"
    "job_done os ?vt (img_decode_to_buffer tj True) outp job (a, bs) s h r w" "r = IMG_SUCCESS"
    using assms(11) room out by blast
  moreover from this have "\<exists>f. w = Some f" using job_output_success unfolding job_done_def by fastforce
  ultimately show ?thesis by auto
qed

text \<open>The demonstration codec accepts the large file, and its photo needs six bytes.\<close>

lemma demo_decode:
  "\<exists>photo s1 h1. img_decode_to_buffer demo_tj True (Some (4096, big_file)) (Some empty_buffer) (Some demo_pool) demo_heap =
      Some (IMG_SUCCESS, Some photo, Some s1, h1) \<and> width photo = 2 \<and> height photo = 1"
proof -
  obtain mem xs where xs: "demo_free = mem # xs" using demo_pool_wf(4) by (cases demo_free) auto
  obtain q where al: "img_slab_alloc (Some demo_pool) demo_heap = Some (mem, Some (demo_pool\<lparr>free_list := q\<rparr>))"
    and mem: "mem \<noteq> NULL" "mem \<in> blocks demo_pool"
    by (rule slab_alloc_Cons [OF demo_pool_wf(1) [unfolded xs]])
  have len: "length (demo_heap mem) = 1024"
    using slab_wfD(6) [OF demo_pool_wf(1) mem(2)] by (simp add: demo_pool_wf)
  have v: "img_security_validate_request 2 1 (of_nat (length big_file)) = IMG_SUCCESS"
    using validate_request_spec [of "of_nat (length big_file)" 2 1] by simp
  have "safe_mul (scast (2 :: u32)) 3 = Some 6" "safe_mul 6 (scast (1 :: u32)) = Some 6"
    by (simp_all add: safe_mul_def SIZE_MAX_def)
  then show ?thesis
    using al mem len v
    by (simp add: img_decode_to_buffer_def demo_tj_def tj_write_def overlay_def demo_pool_wf img_slab_block_size_def bounds_check_self)
qed

lemma tiny_rooms:
  assumes "width photo = 2" and "height photo = 1"
  shows "canvas_room tiny_job = 288" and "photo_room tiny_job photo \<le> 1024"
proof -
  obtain c where c: "canvas_geometry tiny_job zero_canvas = Some c" "photo_w_px c = 2" "photo_h_px c = 1"
    "page_w_px c = 8" "page_h_px c = 12"
    using tiny_geometry by blast
  then show "canvas_room tiny_job = 288" by (simp add: canvas_room_def)
  have "cover_size (empty_buffer\<lparr>width := 2, height := 1\<rparr>) 2 1 = Some (2, 1)"
    by code_simp
  moreover have "cover_size photo 2 1 = cover_size (empty_buffer\<lparr>width := 2, height := 1\<rparr>) 2 1"
    by (simp add: cover_size_def assms)
  ultimately show "photo_room tiny_job photo \<le> 1024"
    using c by (simp add: photo_room_def cell_room_def fill_room_def tiny_job_def img_job_defaults_def)
qed

theorem run_job_succeeds_witness:
  "\<exists>out s' h'. img_api_run_job demo_os (img_io_register_defaults demo_tj zero_vtable) (Some (Some demo_pool)) (Some ''in.jpg'')
     (Some ''out.pdf'') (Some tiny_job) demo_heap = Some (IMG_SUCCESS, Some out, Some s', h')"
proof -
  obtain photo s1 h1 where d: "img_decode_to_buffer demo_tj True (Some (4096, big_file)) (Some empty_buffer) (Some demo_pool) demo_heap =
      Some (IMG_SUCCESS, Some photo, Some s1, h1)" "width photo = 2" "height photo = 1"
    using demo_decode by blast
  show ?thesis
    by (rule run_job_succeeds [OF demo_pool_wf(1) _ tiny_ok demo_scratch _ _ _ _ _ _ d(1)])
      (simp_all add: demo_pool_wf tiny_rooms [OF d(2,3)] load_file_mmap_def demo_os_def can_write_def demo_tj_def
        tiny_job_def [THEN arg_cong [where f = cols]] tiny_job_def [THEN arg_cong [where f = rows]] img_job_defaults_def)
qed

text \<open>
  C29. The security gate of the print job compares the file with an image of 16384 by 16384
  pixels, whatever the image in it: a file of fewer than 671089 bytes is refused with
  \<open>IMG_ERR_SECURITY\<close> before it is decoded, and nothing is written.
\<close>

theorem run_job_rejects_small:
  assumes "img_job.abi_version job = IMG_JOB_ABI_VERSION" and "load_file_mmap os inp = (IMG_SUCCESS, Some (a, bs))"
    and "length bs < 671089"
  shows "img_api_run_job os vt (Some pool) (Some inp) (Some outp) (Some job) h = Some (IMG_ERR_SECURITY, None, pool, h)"
  using assms job_gate [of bs] by (simp add: img_api_run_job_def)

theorem run_job_rejects_small_witness:
  "img_api_run_job demo_os zero_vtable (Some None) (Some ''tiny.jpg'') (Some ''out.jpg'') (Some tiny_job) demo_heap =
     Some (IMG_ERR_SECURITY, None, None, demo_heap)"
  by (rule run_job_rejects_small [where a = 4096 and bs = "[9]"])
    (simp_all add: load_file_mmap_def demo_os_def tiny_job_def img_job_defaults_def)

text \<open>The passes and the photos: a pixel belongs to one cell at most.\<close>

lemma cell_area_unique:
  assumes "apart g d e" and "0 \<le> g" and "cell_area d px py" and "cell_area e px py"
  shows "d = e"
proof -
  define dx dy dw dh ex ey ew eh where "dx = uint (cell_x d)" and "dy = uint (cell_y d)" and "dw = uint (cell_w d)"
    and "dh = uint (cell_h d)" and "ex = uint (cell_x e)" and "ey = uint (cell_y e)" and "ew = uint (cell_w e)"
    and "eh = uint (cell_h e)"
  note defs = this
  have in_d: "dx \<le> px" "px < dx + dw" "dy \<le> py" "py < dy + dh" and in_e: "ex \<le> px" "px < ex + ew" "ey \<le> py" "py < ey + eh"
    using assms(3,4) by (simp_all add: cell_area_def rect_def defs)
  have x: "cell_x d = cell_x e \<and> cell_w d = cell_w e \<or> dx + dw + g \<le> ex \<or> ex + ew + g \<le> dx"
    and y: "cell_y d = cell_y e \<and> cell_h d = cell_h e \<or> dy + dh + g \<le> ey \<or> ey + eh + g \<le> dy"
    using assms(1) by (simp_all add: apart_def defs)
  have "\<not> (dx + dw + g \<le> ex \<or> ex + ew + g \<le> dx)" "\<not> (dy + dh + g \<le> ey \<or> ey + eh + g \<le> dy)"
    using in_d in_e assms(2) by linarith+
  then show ?thesis using x y by (simp add: img_cell.equality)
qed

lemma page_in_cell:
  assumes ok: "page_ok job c" and room: "uint (crop_offset_px job) + thickness job \<le> uint (gap job)"
    and d: "d \<in> set (grid_cells job c)" "cell_area d px py"
  shows "marked job (grid_cells job c) (bled job (grid_cells job c) (bordered job (grid_cells job c) E)) px py k =
    (if border_px job > 0 \<and> frame (uint (border_px job)) d px py then 0 else E px py k)"
proof -
  have apart: "apart (uint (gap job)) a b" if "a \<in> set (grid_cells job c)" "b \<in> set (grid_cells job c)" for a b
    using that grid_cells_apart [OF page_okD(1) [OF ok]] by simp
  have "0 < thickness job" by (auto simp: thickness_def word_neq_0_conv word_less_def)
  then have "\<not> crop_marks_of job e px py" if "e \<in> set (grid_cells job c)" for e
    using marks_avoid_cell [OF apart [OF that d(1)] _ _ room] d(2) by (auto simp: crop_marks_of_def)
  moreover have "bleed_owner (uint (bleed_px job)) (grid_cells job c) px py = None"
    using ring_avoids_cells [OF apart [OF _ d(1)] page_okD(7) [OF ok]] d(2) by (auto simp: bleed_owner_def find_None_iff)
  moreover have "e = d" if "e \<in> set (grid_cells job c)" "frame (uint (border_px job)) e px py" for e
    by (rule cell_area_unique [OF apart [OF that(1) d(1)] _ _ d(2)]) (use that(2) in \<open>simp_all add: frame_def cell_area_def\<close>)
  then have "(\<exists>e \<in> set (grid_cells job c). frame (uint (border_px job)) e px py) \<longleftrightarrow> frame (uint (border_px job)) d px py"
    using d(1) by blast
  ultimately show ?thesis
    unfolding marked_def bled_def bordered_def by simp
qed

text \<open>
  C12. The three passes never damage a photo. On a page whose bleed and whose crop marks with
  their offset fit the gap, the passes succeed, and a pixel of a cell is black when it lies on the
  border of that very cell, and otherwise what the layout put there: neither the bleed, nor the
  marks, nor the border of another cell reach it.
\<close>

theorem passes_keep_photos:
  assumes "page_ok job c" and "rgb_view (buf c) (length s)"
    and "uint (crop_offset_px job) + thickness job \<le> uint (gap job)"
  shows "\<exists>t. job_passes job (buf c) (layout_of job (Some (map Some (grid_cells job c)))) s = Some (IMG_SUCCESS, t) \<and> length t = length s \<and>
    (\<forall>d \<in> set (grid_cells job c). \<forall>px py k. cell_area d px py \<longrightarrow> k < 3 \<longrightarrow>
       px_at (buf c) t px py k =
         (if border_px job > 0 \<and> frame (uint (border_px job)) d px py then 0 else px_at (buf c) s px py k))"
proof -
  obtain t where t: "job_passes job (buf c) (grid_layout job c) s = Some (IMG_SUCCESS, t)" "length t = length s"
    and eq: "same_on (buf c) (px_at (buf c) t)
      (marked job (grid_cells job c) (bled job (grid_cells job c) (bordered job (grid_cells job c) (px_at (buf c) s))))"
    using passes [OF assms(1,2)] by blast
  have "px_at (buf c) t px py k =
      (if border_px job > 0 \<and> frame (uint (border_px job)) d px py then 0 else px_at (buf c) s px py k)"
    if "d \<in> set (grid_cells job c)" "cell_area d px py" "k < 3" for d px py k
    using same_onD [OF eq cell_on_canvas that(3)] page_okD(4) [OF assms(1)] that page_in_cell [OF assms(1,3) that(1,2)] by metis
  with t show ?thesis using layout_of_grid(1) [OF page_okD(1) [OF assms(1)]] by auto
qed

definition tiny_canvas :: img_canvas where
  "tiny_canvas = \<lparr>buf = rgb_desc 4096 8 12, page_w_px = 8, page_h_px = 12, photo_w_px = 2, photo_h_px = 1, start_x = 3, start_y = 1\<rparr>"

lemma tiny_page: "page_ok tiny_job tiny_canvas"
  by (simp add: page_ok_def tiny_canvas_def tiny_job_def img_job_defaults_def grid_fits_def grid_cells_def grid_cell_def
      small_cell_def cell_fits_def fits_def border_fits_def small_marks_def)

theorem passes_keep_photos_witness:
  "\<exists>t. job_passes tiny_job (buf tiny_canvas) (layout_of tiny_job (Some (map Some (grid_cells tiny_job tiny_canvas)))) (replicate 288 7) =
      Some (IMG_SUCCESS, t) \<and> length t = length (replicate 288 (7 :: u8)) \<and>
    (\<forall>d \<in> set (grid_cells tiny_job tiny_canvas). \<forall>px py k. cell_area d px py \<longrightarrow> k < 3 \<longrightarrow>
       px_at (buf tiny_canvas) t px py k =
         (if border_px tiny_job > 0 \<and> frame (uint (border_px tiny_job)) d px py then 0 else px_at (buf tiny_canvas) (replicate 288 7) px py k))"
  by (rule passes_keep_photos [OF tiny_page])
    (simp_all add: tiny_canvas_def tiny_job_def img_job_defaults_def rgb_view_def thickness_def)

section \<open>Raw and fast processing, and an engine without codecs\<close>

text \<open>
  \<open>img_api_process_raw\<close> with the standard codecs, on any input: no undefined behaviour, no
  block lost, and a success is the JPEG encoding at quality 85 of the decoded image. Inputs of
  fewer than 41944 bytes are refused with \<open>IMG_ERR_SECURITY\<close> whatever their image.
\<close>

theorem process_raw_correct:
  assumes "slab_wf h s xs" and "400 * length bs < 2 ^ 64"
  shows "\<exists>r out s' h' xs'. img_api_process_raw (img_io_register_defaults tj zero_vtable) (Some (Some s)) (Some (a, bs)) True h =
      Some (r, out, Some s', h') \<and> pool_kept h s xs h' s' xs' \<and>
    (length bs < 41944 \<longrightarrow> r = IMG_ERR_SECURITY \<and> s' = s \<and> h' = h) \<and>
    (r = IMG_SUCCESS \<longrightarrow> (\<exists>photo s1 h1 jpeg.
       img_decode_to_buffer tj True (Some (a, bs)) (Some empty_buffer) (Some s) h = Some (IMG_SUCCESS, Some photo, Some s1, h1) \<and>
       tjCompress2 tj (h1 (data photo)) (width photo) (stride photo) (height photo) 85 = Some jpeg \<and> out = Some jpeg))"
proof -
  let ?vt = "img_io_register_defaults tj zero_vtable"
  have "unat (of_nat (length bs) :: u64) = length bs" using assms(2) by (simp add: unat_of_nat_small)
  then have sec: "img_security_validate_request 4096 4096 (of_nat (length bs)) =
      (if 41944 \<le> length bs then IMG_SUCCESS else IMG_ERR_SECURITY)"
    using validate_request_spec [of "of_nat (length bs)" 4096 4096] assms(2) by auto
  show ?thesis
  proof (cases "41944 \<le> length bs")
    case False
    then show ?thesis
      using sec pool_kept_refl [OF assms(1)] by (auto simp: img_api_process_raw_def)
  next
    case True
    show ?thesis
      using jpeg.decode_spec [OF assms(1), where inp = "(a, bs)" and out = empty_buffer and tj = tj]
    proof (elim disjE exE conjE)
      fix r s1 h1 xs1
      assume "img_decode_to_buffer tj True (Some (a, bs)) (Some empty_buffer) (Some s) h = Some (r, Some empty_buffer, Some s1, h1)"
        "r \<noteq> IMG_SUCCESS" "pool_kept h s xs h1 s1 xs1"
      then show ?thesis using True sec by (auto simp: img_api_process_raw_def defaults_fields)
    next
      fix photo s1 h1 xs1
      assume d: "img_decode_to_buffer tj True (Some (a, bs)) (Some empty_buffer) (Some s) h = Some (IMG_SUCCESS, Some photo, Some s1, h1)"
        and t: "pool_took (data photo) h s xs h1 s1 xs1"
      obtain s2 h2 where f: "img_slab_free (Some s1) (data photo) h1 = Some (Some s2, h2)" "pool_kept h s xs h2 s2 (data photo # xs1)"
        using pool_took_free [OF t] by blast
      obtain z out where e: "img_encode_from_buffer tj True (Some photo) True h1 = (z, out)" by fastforce
      then have "result_of_int z = IMG_SUCCESS \<Longrightarrow>
          \<exists>jpeg. tjCompress2 tj (h1 (data photo)) (width photo) (stride photo) (height photo) 85 = Some jpeg \<and> out = Some jpeg"
        by (cases "tjCompress2 tj (h1 (data photo)) (width photo) (stride photo) (height photo) 85")
          (auto simp: img_encode_from_buffer_def result_of_int_def split: if_splits)
      moreover have "img_api_process_raw ?vt (Some (Some s)) (Some (a, bs)) True h = Some (result_of_int z, out, Some s2, h2)"
        using True sec d f(1) e by (simp add: img_api_process_raw_def defaults_fields)
      ultimately show ?thesis using True d f(2) by auto
    qed
  qed
qed

theorem process_raw_correct_witness:
  "\<exists>r out s' h' xs'. img_api_process_raw (img_io_register_defaults demo_tj zero_vtable) (Some (Some demo_pool)) (Some (4096, big_file)) True demo_heap =
      Some (r, out, Some s', h') \<and> pool_kept demo_heap demo_pool demo_free h' s' xs' \<and>
    (length big_file < 41944 \<longrightarrow> r = IMG_ERR_SECURITY \<and> s' = demo_pool \<and> h' = demo_heap) \<and>
    (r = IMG_SUCCESS \<longrightarrow> (\<exists>photo s1 h1 jpeg.
       img_decode_to_buffer demo_tj True (Some (4096, big_file)) (Some empty_buffer) (Some demo_pool) demo_heap = Some (IMG_SUCCESS, Some photo, Some s1, h1) \<and>
       tjCompress2 demo_tj (h1 (data photo)) (width photo) (stride photo) (height photo) 85 = Some jpeg \<and> out = Some jpeg))"
  by (rule process_raw_correct [OF demo_pool_wf(1)]) simp

text \<open>
  The fast path never reports success: once the pipeline is compiled it is run through a cast
  to a type with another layout.
\<close>

lemma process_fast_never_succeeds:
  "img_api_process_fast vt t engine_given input pipe uninit out pool h \<noteq> Some (IMG_SUCCESS, out', pool', h')"
  by (auto simp: img_api_process_fast_def Let_def split: option.splits prod.splits if_splits bind_splits)

text \<open>
  A job needs the registered codecs. With the table of function pointers as the program
  starts with it, every job that passes the security gate and gets its scratch arena calls a
  null pointer.
\<close>

theorem run_job_unregistered:
  assumes "img_job.abi_version job = IMG_JOB_ABI_VERSION" and "load_file_mmap os inp = (IMG_SUCCESS, Some (a, bs))"
    and "671089 \<le> length bs" and "400 * length bs < 2 ^ 64"
    and "arena_hdr os" and "arena_mem os (1024 * 1024) \<noteq> NULL"
  shows "img_api_run_job os zero_vtable (Some pool) (Some inp) (Some outp) (Some job) h = None"
proof -
  obtain arena where "img_arena_create (arena_hdr os) (arena_mem os) (1024 * 1024) = Some arena"
    using assms(5,6) by (auto simp: img_arena_create_def align64_def)
  then show ?thesis
    using assms job_gate [OF assms(4)] by (simp add: img_api_run_job_def job_stages_def zero_vtable_def)
qed

theorem run_job_unregistered_witness:
  "img_api_run_job demo_os zero_vtable (Some None) (Some ''in.jpg'') (Some ''out.jpg'') (Some tiny_job) demo_heap = None"
  by (rule run_job_unregistered [where a = 4096 and bs = big_file])
    (simp_all add: load_file_mmap_def demo_os_def tiny_job_def img_job_defaults_def)

end
