(* ===== verification/Engine.thy ===== *)
theory Engine
  imports Print_Job
begin

text \<open>
  The life of the engine in \<open>api/api.c\<close>: \<open>img_api_init\<close>, \<open>img_submit_task\<close>, the worker threads it
  starts, and \<open>img_api_shutdown\<close>.
\<close>

section \<open>State\<close>

record img_engine =
  e_worker_count :: u32
  e_caps :: cpu_caps
  e_global_pool :: "img_slab_pool option"

text \<open>
  The file-scope variables: the engine, the 64 workers (\<open>wthread\<close> of each is whether its thread was
  created and not yet joined), the task queue, the jump tables and the I/O table; and whether the
  memory of the pool is still there.
\<close>

record img_globals =
  g_engine :: img_engine
  g_workers :: "img_worker list"
  g_task_queue :: "ptr img_mpmc_queue"
  g_tables :: img_tables
  g_io_vtable :: img_io_vtable
  g_pool_live :: bool

definition program_start :: img_globals where
  "program_start =
     \<lparr>g_engine = \<lparr>e_worker_count = 0, e_caps = 0, e_global_pool = None\<rparr>,
      g_workers = replicate 64 zero_worker, g_task_queue = blank_mpmc,
      g_tables = \<lparr>g_jump_table = replicate 256 None, g_batch_jump_table = replicate 256 None\<rparr>,
      g_io_vtable = zero_vtable, g_pool_live = False\<rparr>"

text \<open>
  What the start asks of the system; \<open>worker_mem i\<close> are the two allocations of the queue of worker
  \<open>i\<close>, and \<open>thread_ok i\<close> is whether \<open>pthread_create\<close> creates its thread, a result the code ignores.
\<close>

record init_env =
  sb_enabled :: bool
  sb_no_new_privs :: int
  sb_set_seccomp :: "sock_filter list \<Rightarrow> int"
  sb_sys :: "string \<Rightarrow> u32"
  cpuid_max_leaf :: u32
  cpuid_ebx :: u32
  slab_hdr :: bool
  slab_node :: int
  slab_mem :: "u64 \<Rightarrow> ptr"
  worker_mem :: "nat \<Rightarrow> bool \<times> bool"
  thread_ok :: "nat \<Rightarrow> bool"
  queue_mem :: "u64 \<Rightarrow> bool"

section \<open>Operations\<close>

text \<open>The start of worker \<open>i\<close>: no scheduler, its own context.\<close>

definition start_worker :: "init_env \<Rightarrow> nat \<Rightarrow> img_globals \<Rightarrow> img_globals option" where
  "start_worker env i g = do {
     (_, w) \<leftarrow> img_worker_init (fst (worker_mem env i)) (snd (worker_mem env i)) (thread_ok env i)
       (Some (g_workers g ! i)) (of_nat i) False True;
     Some (g\<lparr>g_workers := (g_workers g)[i := the w]\<rparr>) }"

text \<open>The first component of the result: whether an engine is returned.\<close>

definition img_api_init :: "init_env \<Rightarrow> u32 \<Rightarrow> img_globals \<Rightarrow> heap \<Rightarrow> (bool \<times> img_globals \<times> heap) option" where
  "img_api_init env n g h =
     (if \<not> fst (img_security_enter_sandbox (sb_enabled env) (sb_no_new_privs env) (sb_set_seccomp env) (sb_sys env))
      then Some (False, g, h)
      else if n = 0 \<or> n > 64 then Some (False, g, h)
      else do {
        let caps = img_cpu_detect_caps (cpuid_max_leaf env) (cpuid_ebx env);
        (pool, h) \<leftarrow> img_slab_create (slab_hdr env) (slab_node env) (slab_mem env) (512 * 1024 * 1024) (32 * 1024 * 1024) h;
        let g = g\<lparr>g_engine := \<lparr>e_worker_count = n, e_caps = caps, e_global_pool = pool\<rparr>, g_pool_live := pool \<noteq> None\<rparr>;
        if pool = None then Some (False, g, h)
        else do {
          let g = g\<lparr>g_tables := img_hw_register_kernels caps (img_jump_table_init caps)\<rparr>;
          g \<leftarrow> foreach [0..<unat n] (start_worker env) g;
          (_, q) \<leftarrow> img_mpmc_init (queue_mem env) (Some (g_task_queue g)) 1024;
          Some (True, g\<lparr>g_task_queue := the q\<rparr>, h) } })"

definition img_submit_task :: "ptr \<Rightarrow> img_globals \<Rightarrow> (int \<times> img_globals) option" where
  "img_submit_task task g =
     (if task = NULL then Some (0, g)
      else do {
        (r, q) \<leftarrow> img_mpmc_push (g_task_queue g) task;
        Some (r, g\<lparr>g_task_queue := q\<rparr>) })"

text \<open>
  Stopping and joining worker \<open>i\<close>; joining a thread that was not created or was joined before is
  undefined.
\<close>

definition stop_worker :: "nat \<Rightarrow> img_globals \<Rightarrow> img_globals option" where
  "stop_worker i g =
     (if i < length (g_workers g) \<and> wthread (g_workers g ! i)
      then Some (g\<lparr>g_workers := (g_workers g)[i := (the (img_worker_stop (Some (g_workers g ! i))))\<lparr>wthread := False\<rparr>]\<rparr>)
      else None)"

text \<open>The pool is destroyed and the pointer to it kept; destroying it again is undefined.\<close>

definition img_api_shutdown :: "bool \<Rightarrow> img_globals \<Rightarrow> img_globals option" where
  "img_api_shutdown engine_given g =
     (if \<not> engine_given then Some g
      else do {
        g \<leftarrow> foreach [0..<unat (e_worker_count (g_engine g))] stop_worker g;
        if e_global_pool (g_engine g) = None then Some g
        else if \<not> g_pool_live g then None
        else Some (g\<lparr>g_pool_live := False\<rparr>) })"

section \<open>The threads\<close>

text \<open>
  The workers run \<open>worker_loop\<close>, on the workers of the engine. The loop reaches a global queue
  only through a scheduler.
\<close>

definition worker_view :: "img_globals \<Rightarrow> img_scheduler" where
  "worker_view g = \<lparr>worker_count = e_worker_count (g_engine g), workers = g_workers g, global_queue = g_task_queue g\<rparr>"

definition engine_iter ::
  "(ptr \<Rightarrow> 's \<Rightarrow> 's option) \<Rightarrow> nat \<Rightarrow> img_globals \<times> 's \<times> (ptr \<Rightarrow> int) \<Rightarrow>
   (ptr option \<times> img_globals \<times> 's \<times> (ptr \<Rightarrow> int)) option" where
  "engine_iter exec i st =
     (case st of (g, env, status) \<Rightarrow> do {
        (t, s, env, status) \<leftarrow> worker_iter exec i (worker_view g, env, status);
        Some (t, g\<lparr>g_workers := workers s, g_task_queue := global_queue s\<rparr>, env, status) })"

text \<open>Submissions and iterations of the threads in any order: the tasks that were handled.\<close>

datatype engine_op = Submit_Task ptr | Run_Worker nat

fun engine_run ::
  "(ptr \<Rightarrow> 's \<Rightarrow> 's option) \<Rightarrow> engine_op list \<Rightarrow> img_globals \<times> 's \<times> (ptr \<Rightarrow> int) \<Rightarrow>
   (ptr list \<times> img_globals \<times> 's \<times> (ptr \<Rightarrow> int)) option" where
  "engine_run exec [] st = Some ([], st)"
| "engine_run exec (Submit_Task t # os) (g, env, status) = do {
     (_, g) \<leftarrow> img_submit_task t g;
     engine_run exec os (g, env, status) }"
| "engine_run exec (Run_Worker i # os) (g, env, status) = do {
     (t, st) \<leftarrow> engine_iter exec i (g, env, status);
     (ts, st) \<leftarrow> engine_run exec os st;
     Some ((case t of None \<Rightarrow> ts | Some t \<Rightarrow> t # ts), st) }"

section \<open>After the start\<close>

text \<open>The tasks of the operations that a full queue refuses or not, and the null ones.\<close>

fun submitted :: "engine_op list \<Rightarrow> ptr list" where
  "submitted [] = []"
| "submitted (Submit_Task t # os) = (if t = NULL then submitted os else t # submitted os)"
| "submitted (Run_Worker i # os) = submitted os"

definition idle_engine :: "nat \<Rightarrow> img_globals \<Rightarrow> bool" where
  "idle_engine n g \<longleftrightarrow> m_wf n (g_task_queue g) \<and> length (g_workers g) = 64 \<and> unat (e_worker_count (g_engine g)) \<le> 64 \<and>
     (\<forall>i < unat (e_worker_count (g_engine g)). \<not> wsched (g_workers g ! i) \<and>
        (\<exists>q. wqueue (g_workers g ! i) = Some q \<and> q_wf q \<and> q_contents q = []))"

lemma engine_iter_idle:
  assumes ok: "idle_engine n g" and i: "i < unat (e_worker_count (g_engine g))"
  shows "\<exists>g'. engine_iter exec i (g, env, status) = Some (None, g', env, status) \<and> idle_engine n g' \<and>
    g_task_queue g' = g_task_queue g \<and> g_engine g' = g_engine g"
proof -
  obtain q where q: "wqueue (g_workers g ! i) = Some q" "q_wf q" "q_contents q = []" "\<not> wsched (g_workers g ! i)"
    and len: "i < length (g_workers g)"
    using ok i unfolding idle_engine_def by force
  obtain q' where q': "img_queue_pop q = Some (NULL, q')" "q_wf q'" "q_contents q' = []"
    using pop_spec [OF q(2)] q(3) by auto
  let ?ws = "(g_workers g)[i := (g_workers g ! i)\<lparr>wqueue := Some q'\<rparr>]"
  have "engine_iter exec i (g, env, status) = Some (None, g\<lparr>g_workers := ?ws\<rparr>, env, status)"
    using q q' len by (simp add: engine_iter_def worker_iter_def worker_pop_def worker_view_def Let_def)
  moreover have "\<not> wsched (?ws ! j) \<and> (\<exists>q. wqueue (?ws ! j) = Some q \<and> q_wf q \<and> q_contents q = [])"
    if "j < unat (e_worker_count (g_engine g))" for j
    using ok that q q' len unfolding idle_engine_def by (cases "j = i") auto
  then have "idle_engine n (g\<lparr>g_workers := ?ws\<rparr>)"
    using ok by (simp add: idle_engine_def)
  ultimately show ?thesis by auto
qed

lemma m_contents_room: "m_wf n q \<Longrightarrow> length (m_contents q) \<le> length (mcells q)"
  unfolding m_wf_def m_contents_def by auto

lemma m_wf_Suc: "m_wf (Suc n) q \<Longrightarrow> m_wf n q"
  by (simp add: m_wf_def)

lemma submit_task_spec:
  assumes "idle_engine (Suc n) g" and "t \<noteq> NULL"
  shows "\<exists>r g'. img_submit_task t g = Some (r, g') \<and> idle_engine n g' \<and> g_engine g' = g_engine g \<and>
    length (mcells (g_task_queue g')) = length (mcells (g_task_queue g)) \<and>
    m_contents (g_task_queue g') = take (length (mcells (g_task_queue g))) (m_contents (g_task_queue g) @ [t])"
proof -
  let ?q = "g_task_queue g"
  have wf: "m_wf (Suc n) ?q" using assms(1) by (simp add: idle_engine_def)
  obtain q' where q': "map_option (\<lambda>(r, q). (r = 0, q)) (img_mpmc_push ?q t) = Some (length (m_contents ?q) < length (mcells ?q), q')"
    "m_wf n q'" "length (mcells q') = length (mcells ?q)"
    "m_contents q' = (if length (m_contents ?q) < length (mcells ?q) then m_contents ?q @ [t] else m_contents ?q)"
    using mpmc_push_spec [OF wf, of t] by blast
  obtain r where "img_mpmc_push ?q t = Some (r, q')"
    using q'(1) by (cases "img_mpmc_push ?q t") (auto split: prod.splits)
  then have "img_submit_task t g = Some (r, g\<lparr>g_task_queue := q'\<rparr>)"
    using assms(2) by (simp add: img_submit_task_def)
  moreover have "m_contents q' = take (length (mcells ?q)) (m_contents ?q @ [t])"
    using q'(4) m_contents_room [OF wf] by auto
  moreover have "idle_engine n (g\<lparr>g_task_queue := q'\<rparr>)"
    using assms(1) q'(2) by (simp add: idle_engine_def)
  ultimately show ?thesis using q'(3) by auto
qed

lemma take_take_snoc: "take n (take n (xs @ [x]) @ ys) = take n (xs @ x # ys)"
proof -
  have "take n (take n zs @ ys) = take n (zs @ ys)" for zs
    by (simp add: min_def)
  from this [of "xs @ [x]"] show ?thesis by simp
qed

lemma engine_run_submit:
  assumes "idle_engine (Suc n) g" and "t \<noteq> NULL"
  obtains g1 where "engine_run exec (Submit_Task t # os) (g, env, status) = engine_run exec os (g1, env, status)"
    and "idle_engine n g1" and "g_engine g1 = g_engine g"
    and "length (mcells (g_task_queue g1)) = length (mcells (g_task_queue g))"
    and "m_contents (g_task_queue g1) = take (length (mcells (g_task_queue g))) (m_contents (g_task_queue g) @ [t])"
proof -
  from submit_task_spec [OF assms] obtain r g1 where g1: "img_submit_task t g = Some (r, g1)" "idle_engine n g1"
    "g_engine g1 = g_engine g" "length (mcells (g_task_queue g1)) = length (mcells (g_task_queue g))"
    "m_contents (g_task_queue g1) = take (length (mcells (g_task_queue g))) (m_contents (g_task_queue g) @ [t])"
    by (elim exE conjE)
  have "engine_run exec (Submit_Task t # os) (g, env, status) = engine_run exec os (g1, env, status)"
    by (simp add: g1(1))
  from that [OF this g1(2-5)] show thesis .
qed

lemma engine_run_worker:
  assumes "idle_engine n g" and "i < unat (e_worker_count (g_engine g))"
  obtains g1 where "engine_iter exec i (g, env, status) = Some (None, g1, env, status)"
    and "idle_engine n g1" and "g_task_queue g1 = g_task_queue g" and "g_engine g1 = g_engine g"
  using engine_iter_idle [OF assms, of exec env status] that by (elim exE conjE)

definition queue_grew :: "img_globals \<Rightarrow> ptr list \<Rightarrow> img_globals \<Rightarrow> bool" where
  "queue_grew g ts g' \<longleftrightarrow>
     m_contents (g_task_queue g') = take (length (mcells (g_task_queue g))) (m_contents (g_task_queue g) @ ts)"

lemma queue_grew_snoc:
  assumes "length (mcells (g_task_queue g1)) = length (mcells (g_task_queue g))" and "queue_grew g [t] g1" and "queue_grew g1 ts g'"
  shows "queue_grew g (t # ts) g'"
  using assms(2,3) unfolding queue_grew_def assms(1) by (simp only: take_take_snoc)

lemma engine_run_idle:
  assumes "idle_engine (length os) g" and "\<forall>i. Run_Worker i \<in> set os \<longrightarrow> i < unat (e_worker_count (g_engine g))"
  shows "\<exists>g'. engine_run exec os (g, env, status) = Some ([], g', env, status) \<and> queue_grew g (submitted os) g'"
  using assms
proof (induction os arbitrary: g)
  case Nil
  then have "length (m_contents (g_task_queue g)) \<le> length (mcells (g_task_queue g))"
    by (intro m_contents_room [of 0]) (simp add: idle_engine_def)
  then show ?case by (simp add: queue_grew_def)
next
  case (Cons op os)
  have ok: "idle_engine (Suc (length os)) g" using Cons.prems(1) by simp
  then have weak: "idle_engine (length os) g" using m_wf_Suc [of _ "g_task_queue g"] by (simp add: idle_engine_def)
  have more: "\<forall>i. Run_Worker i \<in> set os \<longrightarrow> i < unat (e_worker_count (g_engine g))" using Cons.prems(2) by simp
  show ?case
  proof (cases op)
    case (Submit_Task t)
    show ?thesis
    proof (cases "t = NULL")
      case True
      from Cons.IH [OF weak more] show ?thesis by (simp add: Submit_Task True img_submit_task_def)
    next
      case False
      show ?thesis
        using ok False
      proof (rule engine_run_submit)
        fix g1
        assume g1: "engine_run exec (Submit_Task t # os) (g, env, status) = engine_run exec os (g1, env, status)"
          "idle_engine (length os) g1" "g_engine g1 = g_engine g" "length (mcells (g_task_queue g1)) = length (mcells (g_task_queue g))"
          "m_contents (g_task_queue g1) = take (length (mcells (g_task_queue g))) (m_contents (g_task_queue g) @ [t])"
        have "queue_grew g [t] g1" using g1(5) by (simp add: queue_grew_def)
        moreover from Cons.IH [OF g1(2)] more obtain g' where "engine_run exec os (g1, env, status) = Some ([], g', env, status)"
          "queue_grew g1 (submitted os) g'"
          by (auto simp only: g1(3))
        ultimately show ?thesis
          using queue_grew_snoc [OF g1(4)] False by (intro exI [of _ g']) (simp only: Submit_Task g1(1) submitted.simps if_False simp_thms)
      qed
    qed
  next
    case (Run_Worker i)
    then have "i < unat (e_worker_count (g_engine g))" using Cons.prems(2) by simp
    with weak show ?thesis
    proof (rule engine_run_worker)
      fix g1
      assume g1: "engine_iter exec i (g, env, status) = Some (None, g1, env, status)" "idle_engine (length os) g1"
        "g_task_queue g1 = g_task_queue g" "g_engine g1 = g_engine g"
      from Cons.IH [OF g1(2)] more obtain g' where "engine_run exec os (g1, env, status) = Some ([], g', env, status)"
        "queue_grew g1 (submitted os) g'"
        by (auto simp only: g1(4))
      then show ?thesis by (intro exI [of _ g']) (simp add: Run_Worker g1(1,3) queue_grew_def)
    qed
  qed
qed

text \<open>
  The workers after the start: no scheduler and a context; an empty queue when its memory was
  there, and a thread when moreover the system created it.
\<close>

definition started_worker :: "init_env \<Rightarrow> nat \<Rightarrow> img_worker \<Rightarrow> bool" where
  "started_worker env i w \<longleftrightarrow> wid w = of_nat i \<and> \<not> wsched w \<and> wctx w \<and> running w \<and>
     (wqueue w \<noteq> None \<longleftrightarrow> fst (worker_mem env i)) \<and> (wthread w \<longleftrightarrow> fst (worker_mem env i) \<and> thread_ok env i) \<and>
     (worker_mem env i = (True, True) \<longrightarrow> (\<exists>q. wqueue w = Some q \<and> q_wf q \<and> q_contents q = []))"

lemma start_worker_spec:
  assumes "i < length (g_workers g)" and "g_workers g ! i = zero_worker"
  shows "\<exists>w. start_worker env i g = Some (g\<lparr>g_workers := (g_workers g)[i := w]\<rparr>) \<and> started_worker env i w"
proof -
  obtain a b where m: "worker_mem env i = (a, b)" by (cases "worker_mem env i")
  obtain q0 where "img_queue_create True True 10 = Some (Some q0)" "q_wf q0" "q_contents q0 = []"
    using create_wf [of 10] by auto
  then obtain q where q: "img_queue_create a b 10 = Some q" "q \<noteq> None \<longleftrightarrow> a"
    "a \<and> b \<longrightarrow> (\<exists>q'. q = Some q' \<and> q_wf q' \<and> q_contents q' = [])"
    by (cases a; cases b) (simp_all add: img_queue_create_def Let_def)
  show ?thesis
    using assms m q by (cases q) (auto simp: start_worker_def img_worker_init_def started_worker_def zero_worker_def Let_def)
qed

lemma start_workers:
  assumes n: "n \<le> 64" and g: "g_workers g = replicate 64 zero_worker"
  shows "\<exists>ws. foreach [0..<n] (start_worker env) g = Some (g\<lparr>g_workers := ws\<rparr>) \<and> length ws = 64 \<and>
    (\<forall>i < n. started_worker env i (ws ! i))"
proof -
  have "\<exists>g'. foreach [0..<n] (start_worker env) g = Some g' \<and> (\<exists>ws. g' = g\<lparr>g_workers := ws\<rparr> \<and>
    length ws = 64 \<and> (\<forall>i < n. started_worker env i (ws ! i)) \<and> (\<forall>i < 64. n \<le> i \<longrightarrow> ws ! i = zero_worker))"
  proof (rule foreach_upt_invariant [where I = "\<lambda>k g'. \<exists>ws. g' = g\<lparr>g_workers := ws\<rparr> \<and> length ws = 64 \<and>
      (\<forall>i < k. started_worker env i (ws ! i)) \<and> (\<forall>i < 64. k \<le> i \<longrightarrow> ws ! i = zero_worker)"], goal_cases)
    case 1
    show ?case using g by (intro exI [of _ "g_workers g"]) (simp add: nth_replicate)
  next
    case (2 k g')
    then obtain ws where st: "g' = g\<lparr>g_workers := ws\<rparr>" "length ws = 64" "\<forall>i < k. started_worker env i (ws ! i)"
      "\<forall>i < 64. k \<le> i \<longrightarrow> ws ! i = zero_worker" by blast
    have k: "k < 64" using \<open>k < n\<close> n by simp
    from start_worker_spec [of k g' env] st k obtain w where
      w: "start_worker env k g' = Some (g'\<lparr>g_workers := (g_workers g')[k := w]\<rparr>)" "started_worker env k w"
      by auto
    have "\<forall>i < Suc k. started_worker env i (ws[k := w] ! i)" and "\<forall>i < 64. Suc k \<le> i \<longrightarrow> ws[k := w] ! i = zero_worker"
      using st(2-4) w(2) k by (auto simp: nth_list_update less_Suc_eq)
    then show ?case
      using w(1) st(1,2) by (intro exI [of _ "g\<lparr>g_workers := ws[k := w]\<rparr>"] conjI exI [of _ "ws[k := w]"]) auto
  qed
  then show ?thesis by blast
qed

text \<open>The state a successful start leaves, whatever the allocations of the queues and the threads answer.\<close>

lemma api_init_started:
  assumes init: "img_api_init env n program_start h = Some (True, g, h')"
  obtains "1 \<le> unat n" and "unat n \<le> 64" and "e_worker_count (g_engine g) = n" and "length (g_workers g) = 64"
    and "\<forall>i < unat n. started_worker env i (g_workers g ! i)" and "g_io_vtable g = zero_vtable"
    and "e_global_pool (g_engine g) \<noteq> None" and "g_pool_live g"
    and "\<exists>r. img_mpmc_init (queue_mem env) (Some blank_mpmc) 1024 = Some (r, Some (g_task_queue g))"
proof -
  let ?caps = "img_cpu_detect_caps (cpuid_max_leaf env) (cpuid_ebx env)"
  obtain pool where n: "n \<noteq> 0" "\<not> n > 64"
    and pool: "img_slab_create (slab_hdr env) (slab_node env) (slab_mem env) (512 * 1024 * 1024) (32 * 1024 * 1024) h = Some (Some pool, h')"
    using init by (auto simp: img_api_init_def Let_def split: if_splits bind_splits)
  define g0 where "g0 = program_start\<lparr>g_engine := \<lparr>e_worker_count = n, e_caps = ?caps, e_global_pool = Some pool\<rparr>, g_pool_live := True,
    g_tables := img_hw_register_kernels ?caps (img_jump_table_init ?caps)\<rparr>"
  have le: "unat n \<le> 64" using n(2) by (simp add: word_less_nat_alt)
  have "g_workers g0 = replicate 64 zero_worker" "g_task_queue g0 = blank_mpmc" by (simp_all add: g0_def program_start_def)
  with start_workers [OF le this(1), of env] obtain ws where
    w: "foreach [0..<unat n] (start_worker env) g0 = Some (g0\<lparr>g_workers := ws\<rparr>)" "length ws = 64"
      "\<forall>i < unat n. started_worker env i (ws ! i)"
    by blast
  obtain r q where q: "img_mpmc_init (queue_mem env) (Some blank_mpmc) 1024 = Some (r, q)"
    "g = g0\<lparr>g_workers := ws, g_task_queue := the q\<rparr>"
    using init n pool w(1) by (auto simp: img_api_init_def Let_def g0_def program_start_def split: if_splits bind_splits)
  have "q \<noteq> None" using q(1) by (auto simp: img_mpmc_init_def Let_def split: if_splits bind_splits)
  with q w le n(1) unat_gt_0 [of n] show thesis
    by (intro that) (auto simp: g0_def program_start_def Suc_le_eq)
qed

text \<open>And when none of the allocations fails.\<close>

lemma api_init_state:
  assumes init: "img_api_init env n program_start h = Some (True, g, h')"
    and mem: "\<forall>i. worker_mem env i = (True, True)" "queue_mem env = (\<lambda>_. True)"
  shows "unat n \<le> 64" "e_worker_count (g_engine g) = n" "length (g_workers g) = 64"
    "\<forall>i < unat n. \<not> wsched (g_workers g ! i) \<and> (\<exists>q. wqueue (g_workers g ! i) = Some q \<and> q_wf q \<and> q_contents q = [])"
    "m_wf (2 ^ 61) (g_task_queue g)" "m_contents (g_task_queue g) = []" "length (mcells (g_task_queue g)) = 1024"
proof -
  obtain q j where q: "img_mpmc_init (\<lambda>_. True) (Some blank_mpmc) 1024 = Some (0, Some q)" "m_wf (2 ^ 61) q"
    "m_contents q = []" "length (mcells q) = 2 ^ j" "1024 \<le> (2 :: nat) ^ j" "(2 :: nat) ^ j < 2048"
    using mpmc_init_wf [of 1024 blank_mpmc] by auto
  have "(2 :: nat) ^ 10 \<le> 2 ^ j" "(2 :: nat) ^ j < 2 ^ 11" using q(5,6) by simp_all
  then have "j = 10" by (simp only: power_increasing_iff power_strict_increasing_iff one_less_numeral_iff semiring_norm)
  then have "length (mcells q) = 1024" using q(4) by simp
  moreover have "g_task_queue g = q" using q(1) mem(2) api_init_started [OF init] by auto
  moreover have st: "unat n \<le> 64" "e_worker_count (g_engine g) = n" "length (g_workers g) = 64"
    "\<forall>i < unat n. started_worker env i (g_workers g ! i)"
    by (rule api_init_started [OF init], assumption)+
  then have w: "\<forall>i < unat n. \<not> wsched (g_workers g ! i) \<and> (\<exists>q. wqueue (g_workers g ! i) = Some q \<and> q_wf q \<and> q_contents q = [])"
    using mem(1) by (simp add: started_worker_def)
  ultimately show "unat n \<le> 64" "e_worker_count (g_engine g) = n" "length (g_workers g) = 64"
    "\<forall>i < unat n. \<not> wsched (g_workers g ! i) \<and> (\<exists>q. wqueue (g_workers g ! i) = Some q \<and> q_wf q \<and> q_contents q = [])"
    "m_wf (2 ^ 61) (g_task_queue g)" "m_contents (g_task_queue g) = []" "length (mcells (g_task_queue g)) = 1024"
    using q(2,3) w st by auto
qed

section \<open>Properties\<close>

text \<open>
  C30. Tasks given to \<open>img_submit_task\<close> are never run. After a successful start, whatever is
  submitted and however the worker threads run, no thread takes up a task, no state of the
  program and no status word changes, and the first 1024 submitted tasks stay in the queue: the
  workers have no scheduler, and nothing else takes from the queue.
\<close>

theorem submitted_tasks_never_run:
  assumes "img_api_init env n program_start h = Some (True, g, h')"
    and "\<forall>i. worker_mem env i = (True, True)" and "queue_mem env = (\<lambda>_. True)"
    and "length os \<le> 2 ^ 61" and "\<forall>i. Run_Worker i \<in> set os \<longrightarrow> i < unat n"
  shows "\<exists>g'. engine_run exec os (g, s, status) = Some ([], g', s, status) \<and>
    m_contents (g_task_queue g') = take 1024 (submitted os)"
proof -
  note st = api_init_state [OF assms(1-3)]
  have "m_wf (length os) (g_task_queue g)"
    using st(5) assms(4) by (auto simp: m_wf_def)
  then have ok: "idle_engine (length os) g"
    using st(1-4) by (auto simp: idle_engine_def)
  have "\<forall>i. Run_Worker i \<in> set os \<longrightarrow> i < unat (e_worker_count (g_engine g))" using assms(5) st(2) by simp
  from engine_run_idle [OF ok this] show ?thesis by (simp add: queue_grew_def st(6,7))
qed

text \<open>Stopping and joining the first \<open>n\<close> workers needs a thread in each of them.\<close>

lemma stop_workers:
  assumes "n \<le> length (g_workers g)"
  shows "foreach [0..<n] stop_worker g =
    (if \<forall>i < n. wthread (g_workers g ! i)
     then Some (g\<lparr>g_workers := map (\<lambda>w. w\<lparr>running := False, wthread := False\<rparr>) (take n (g_workers g)) @ List.drop n (g_workers g)\<rparr>)
     else None)"
  using assms
proof (induction n)
  case 0
  show ?case by simp
next
  case (Suc n)
  let ?stopped = "\<lambda>k. map (\<lambda>w. w\<lparr>running := False, wthread := False\<rparr>) (take k (g_workers g)) @ List.drop k (g_workers g)"
  have n: "n < length (g_workers g)" using Suc.prems by simp
  then have at: "?stopped n ! n = g_workers g ! n" by (simp add: nth_append)
  have "(?stopped n)[n := (g_workers g ! n)\<lparr>running := False, wthread := False\<rparr>] = ?stopped (Suc n)"
    using n by (intro nth_equalityI) (auto simp: nth_append nth_list_update less_Suc_eq)
  then have "stop_worker n (g\<lparr>g_workers := ?stopped n\<rparr>) =
      (if wthread (g_workers g ! n) then Some (g\<lparr>g_workers := ?stopped (Suc n)\<rparr>) else None)"
    using n by (simp add: stop_worker_def img_worker_stop_def at)
  then show ?case using Suc by (auto simp: foreach_append less_Suc_eq)
qed

lemma shutdown_defined:
  assumes "img_api_init env n program_start h = Some (True, g, h')"
  shows "img_api_shutdown True g = None \<longleftrightarrow> \<not> (\<forall>i < unat n. fst (worker_mem env i) \<and> thread_ok env i)"
proof (rule api_init_started [OF assms])
  assume "unat n \<le> 64" and "e_worker_count (g_engine g) = n" and "length (g_workers g) = 64" and "g_pool_live g"
    and "\<forall>i < unat n. started_worker env i (g_workers g ! i)"
  then show ?thesis
    using stop_workers [of "unat n" g] by (auto simp: img_api_shutdown_def started_worker_def)
qed

text \<open>
  C31. The life of an engine, with no assumption on the memory for the queues or on
  \<open>pthread_create\<close>. A successful start has between 1 and 64 workers, each with its number, its
  context, no scheduler and the flag \<open>running\<close>; worker \<open>i\<close> has a queue exactly when its memory was
  there, and a thread exactly when moreover the system created one, so a success does not mean
  that any worker runs. The I/O table is empty and the pool live. \<open>img_api_shutdown\<close> is defined
  exactly when every worker has a thread; then it stops and joins every worker and destroys the
  pool, and a second shutdown is undefined.
\<close>

theorem engine_lifecycle:
  assumes "img_api_init env n program_start h = Some (True, g, h')"
  shows "1 \<le> unat n \<and> unat n \<le> 64 \<and> (\<forall>i < unat n. started_worker env i (g_workers g ! i)) \<and>
    g_io_vtable g = zero_vtable \<and> g_pool_live g \<and>
    (if \<forall>i < unat n. fst (worker_mem env i) \<and> thread_ok env i
     then \<exists>g'. img_api_shutdown True g = Some g' \<and> \<not> g_pool_live g' \<and>
       (\<forall>i < unat n. \<not> running (g_workers g' ! i) \<and> \<not> wthread (g_workers g' ! i)) \<and> img_api_shutdown True g' = None
     else img_api_shutdown True g = None)"
proof (rule api_init_started [OF assms])
  assume n: "1 \<le> unat n" "unat n \<le> 64" and g: "e_worker_count (g_engine g) = n" "length (g_workers g) = 64"
    and ws: "\<forall>i < unat n. started_worker env i (g_workers g ! i)" and v: "g_io_vtable g = zero_vtable"
    and pool: "e_global_pool (g_engine g) \<noteq> None" "g_pool_live g"
  have threads: "wthread (g_workers g ! i) \<longleftrightarrow> fst (worker_mem env i) \<and> thread_ok env i" if "i < unat n" for i
    using ws that by (simp add: started_worker_def)
  show ?thesis
  proof (cases "\<forall>i < unat n. fst (worker_mem env i) \<and> thread_ok env i")
    case False
    then have "foreach [0..<unat n] stop_worker g = None" using stop_workers [of "unat n" g] n g threads by auto
    then show ?thesis using n ws v pool False g by (simp add: img_api_shutdown_def)
  next
    case True
    define us where "us = map (\<lambda>w. w\<lparr>running := False, wthread := False\<rparr>) (take (unat n) (g_workers g)) @ List.drop (unat n) (g_workers g)"
    have us: "\<forall>i < unat n. \<not> running (us ! i) \<and> \<not> wthread (us ! i)" "length us = 64" using n g by (simp_all add: us_def nth_append)
    have "foreach [0..<unat n] stop_worker g = Some (g\<lparr>g_workers := us\<rparr>)"
      using stop_workers [of "unat n" g] True n g threads by (simp add: us_def)
    then have "img_api_shutdown True g = Some (g\<lparr>g_workers := us, g_pool_live := False\<rparr>)"
      using g pool by (auto simp: img_api_shutdown_def)
    moreover have "foreach [0..<unat n] stop_worker (g\<lparr>g_workers := us, g_pool_live := False\<rparr>) = None"
      using stop_workers [of "unat n" "g\<lparr>g_workers := us, g_pool_live := False\<rparr>"] us n
      by (auto simp: Suc_le_eq)
    then have "img_api_shutdown True (g\<lparr>g_workers := us, g_pool_live := False\<rparr>) = None"
      using g by (simp add: img_api_shutdown_def)
    ultimately show ?thesis using n ws v pool True us(1) by auto
  qed
qed

text \<open>A start that succeeds, for the witnesses.\<close>

definition demo_env :: init_env where
  "demo_env = \<lparr>sb_enabled = False, sb_no_new_privs = 0, sb_set_seccomp = (\<lambda>_. 0), sb_sys = (\<lambda>_. 0),
     cpuid_max_leaf = 7, cpuid_ebx = 32, slab_hdr = True, slab_node = 0, slab_mem = (\<lambda>_. 65536),
     worker_mem = (\<lambda>_. (True, True)), thread_ok = (\<lambda>_. True), queue_mem = (\<lambda>_. True)\<rparr>"

definition demo_mem :: heap where "demo_mem = (\<lambda>_. replicate 33554432 0)"

lemma demo_init: "\<exists>g h'. img_api_init demo_env 2 program_start demo_mem = Some (True, g, h')"
proof -
  have a: "align64 33554432 = 33554432" "align64 536870912 = 536870912" by (simp_all add: align64_def)
  have "fresh_region demo_mem 65536 (align64 536870912) (align64 33554432)"
    unfolding a by (simp add: fresh_region_def demo_mem_def del: replicate.simps)
  then obtain p h' where pool: "img_slab_create True 0 (\<lambda>_. 65536) 536870912 33554432 demo_mem = Some (Some p, h')"
    by (rule slab_create_wf [of 65536 33554432 demo_mem 536870912 0, rotated 2]) (simp_all add: a)
  define g0 where "g0 = program_start\<lparr>g_engine := \<lparr>e_worker_count = 2, e_caps = img_cpu_detect_caps 7 32, e_global_pool = Some p\<rparr>,
    g_pool_live := True, g_tables := img_hw_register_kernels (img_cpu_detect_caps 7 32) (img_jump_table_init (img_cpu_detect_caps 7 32))\<rparr>"
  have "g_workers g0 = replicate 64 zero_worker" by (simp add: g0_def program_start_def)
  from start_workers [OF _ this, of 2 demo_env] obtain ws where
    w: "foreach [0..<2] (start_worker demo_env) g0 = Some (g0\<lparr>g_workers := ws\<rparr>)"
    by auto
  obtain q where q: "img_mpmc_init (\<lambda>_. True) (Some (g_task_queue g0)) 1024 = Some (0, Some q)"
    using mpmc_init_wf [of 1024 "g_task_queue g0"] by auto
  have "fst (img_security_enter_sandbox False 0 (\<lambda>_. 0) (\<lambda>_. 0))" by (simp add: img_security_enter_sandbox_def)
  then have "img_api_init demo_env 2 program_start demo_mem = Some (True, g0\<lparr>g_workers := ws, g_task_queue := q\<rparr>, h')"
    using pool w q by (simp add: img_api_init_def Let_def demo_env_def g0_def)
  then show ?thesis by blast
qed

theorem submitted_tasks_never_run_witness:
  "\<exists>g h' g'. img_api_init demo_env 2 program_start demo_mem = Some (True, g, h') \<and>
    engine_run (\<lambda>t s. Some (t # s)) [Submit_Task 4096, Run_Worker 0, Run_Worker 1, Submit_Task 8192] (g, [], \<lambda>_. 0) =
      Some ([], g', [], \<lambda>_. 0) \<and> m_contents (g_task_queue g') = take 1024 (submitted [Submit_Task 4096, Run_Worker 0, Run_Worker 1, Submit_Task 8192])"
proof -
  obtain g h' where i: "img_api_init demo_env 2 program_start demo_mem = Some (True, g, h')" using demo_init by blast
  have o: "length [Submit_Task 4096, Run_Worker 0, Run_Worker 1, Submit_Task 8192] \<le> 2 ^ 61"
    "\<forall>i. Run_Worker i \<in> set [Submit_Task 4096, Run_Worker 0, Run_Worker 1, Submit_Task 8192] \<longrightarrow> i < unat (2 :: u32)"
    by auto
  have m: "\<forall>i. worker_mem demo_env i = (True, True)" "queue_mem demo_env = (\<lambda>_. True)" by (simp_all add: demo_env_def)
  show ?thesis
    using i submitted_tasks_never_run [OF i m o, where exec = "\<lambda>t s. Some (t # s)" and s = "[]" and status = "\<lambda>_. 0"]
    by (elim exE, intro exI conjI) (assumption, (elim conjE, assumption)+)
qed

theorem engine_lifecycle_witness:
  "\<exists>g h'. img_api_init demo_env 2 program_start demo_mem = Some (True, g, h') \<and>
    1 \<le> unat (2 :: u32) \<and> unat (2 :: u32) \<le> 64 \<and> (\<forall>i < unat (2 :: u32). started_worker demo_env i (g_workers g ! i)) \<and>
    g_io_vtable g = zero_vtable \<and> g_pool_live g \<and>
    (if \<forall>i < unat (2 :: u32). fst (worker_mem demo_env i) \<and> thread_ok demo_env i
     then \<exists>g'. img_api_shutdown True g = Some g' \<and> \<not> g_pool_live g' \<and>
       (\<forall>i < unat (2 :: u32). \<not> running (g_workers g' ! i) \<and> \<not> wthread (g_workers g' ! i)) \<and> img_api_shutdown True g' = None
     else img_api_shutdown True g = None)"
proof -
  obtain g h' where i: "img_api_init demo_env 2 program_start demo_mem = Some (True, g, h')" using demo_init by blast
  from engine_lifecycle [OF i] i show ?thesis by blast
qed

end
