(* ===== verification/Cli.thy ===== *)
theory Cli
  imports Engine
begin

text \<open>
  The command line program of \<open>cmd/imgengine\<close>: \<open>getopt_long\<close> as \<open>args.c\<close> uses it, the C
  conversions of numbers, the options, the job built from them, and \<open>main\<close>.
\<close>

section \<open>The scanner of options\<close>

text \<open>
  \<open>getopt_long\<close> of the GNU C library with its default permutation: words that are not options
  are skipped, \<open>--\<close> ends the options, long options may be abbreviated as long as only one name
  starts that way, and an error is reported as the option \<open>?\<close>. An option is its number (or its
  character code) with its argument.
\<close>

type_synonym opt_event = "nat \<times> string option"

definition long_opts :: "(string \<times> bool \<times> nat) list" where
  "long_opts =
     [(''input'', True, of_char CHR ''i''), (''output'', True, of_char CHR ''o''),
      (''cols'', True, 1), (''rows'', True, 2), (''gap'', True, 3), (''padding'', True, 4),
      (''width'', True, 5), (''height'', True, 6), (''dpi'', True, 7), (''border'', True, 8),
      (''bleed'', True, 9), (''crop-mark'', True, 10), (''crop-thickness'', True, 11), (''crop-offset'', True, 12),
      (''threads'', True, of_char CHR ''t''), (''verbose'', False, of_char CHR ''v'')]"

definition short_arg :: "char list" where "short_arg = ''iowht''"
definition short_flag :: "char list" where "short_flag = ''bv?''"

definition question :: opt_event where "question = (of_char CHR ''?'', None)"

text \<open>What a word of the command line is: the end mark, no option, options, or options of which the last wants the next word.\<close>

datatype word_class = End_Mark | Operand | Opts "opt_event list" | Opts_Needs "opt_event list" nat

definition find_long :: "string \<Rightarrow> (bool \<times> nat) option" where
  "find_long name =
     (case filter (\<lambda>e. fst e = name) long_opts of
        e # _ \<Rightarrow> Some (snd e)
      | [] \<Rightarrow>
          (case filter (\<lambda>e. take (length name) (fst e) = name) long_opts of
             [e] \<Rightarrow> Some (snd e)
           | _ \<Rightarrow> None))"

definition classify_long :: "string \<Rightarrow> word_class" where
  "classify_long w =
     (let name = takeWhile (\<lambda>c. c \<noteq> CHR ''='') w;
          val = (if CHR ''='' \<in> set w then Some (tl (dropWhile (\<lambda>c. c \<noteq> CHR ''='') w)) else None) in
      case find_long name of
        None \<Rightarrow> Opts [question]
      | Some (True, n) \<Rightarrow> (case val of Some v \<Rightarrow> Opts [(n, Some v)] | None \<Rightarrow> Opts_Needs [] n)
      | Some (False, n) \<Rightarrow> (case val of Some v \<Rightarrow> Opts [question] | None \<Rightarrow> Opts [(n, None)]))"

fun classify_short :: "string \<Rightarrow> word_class" where
  "classify_short [] = Opts []"
| "classify_short (c # cs) =
     (if c \<in> set short_arg
      then (if cs = [] then Opts_Needs [] (of_char c) else Opts [(of_char c, Some cs)])
      else (let ev = (if c \<in> set short_flag then (of_char c, None) else question) in
        case classify_short cs of
          Opts evs \<Rightarrow> Opts (ev # evs)
        | Opts_Needs evs n \<Rightarrow> Opts_Needs (ev # evs) n
        | w \<Rightarrow> w))"

fun classify :: "string \<Rightarrow> word_class" where
  "classify [] = Operand"
| "classify (c # w) =
     (if c \<noteq> CHR ''-'' \<or> w = [] then Operand
      else if hd w = CHR ''-'' then (if tl w = [] then End_Mark else classify_long (tl w))
      else classify_short w)"

fun getopt_events :: "string list \<Rightarrow> opt_event list" where
  "getopt_events [] = []"
| "getopt_events (w # ws) =
     (case classify w of
        End_Mark \<Rightarrow> []
      | Operand \<Rightarrow> getopt_events ws
      | Opts evs \<Rightarrow> evs @ getopt_events ws
      | Opts_Needs evs n \<Rightarrow>
          (case ws of
             [] \<Rightarrow> evs @ [question]
           | a # vs \<Rightarrow> evs @ (n, Some a) # getopt_events vs))"

section \<open>Numbers\<close>

definition is_space :: "char \<Rightarrow> bool" where
  "is_space c \<longleftrightarrow> c = CHR '' '' \<or> (9 \<le> (of_char c :: nat) \<and> (of_char c :: nat) \<le> 13)"

definition is_dec :: "char \<Rightarrow> bool" where
  "is_dec c \<longleftrightarrow> 48 \<le> (of_char c :: nat) \<and> (of_char c :: nat) \<le> 57"

definition dec_value :: "string \<Rightarrow> nat" where
  "dec_value s = foldl (\<lambda>a c. 10 * a + (of_char c - 48)) 0 s"

definition split_sign :: "string \<Rightarrow> bool \<times> string" where
  "split_sign s = (case s of
     [] \<Rightarrow> (False, [])
   | c # cs \<Rightarrow> if c = CHR ''-'' then (True, cs) else if c = CHR ''+'' then (False, cs) else (False, s))"

text \<open>\<open>atoi\<close>; a value outside \<open>int\<close> is undefined.\<close>

definition atoi :: "string \<Rightarrow> int option" where
  "atoi s =
     (let (neg, t) = split_sign (dropWhile is_space s);
          n = int (dec_value (takeWhile is_dec t)); z = (if neg then - n else n) in
      if - (2 ^ 31) \<le> z \<and> z < 2 ^ 31 then Some z else None)"

text \<open>The rounding of a rational to \<open>double\<close>, of 53 bits, and from there to \<open>float\<close>.\<close>

definition round53 :: "rat \<Rightarrow> rat" where
  "round53 x = (if x = 0 then 0 else
     let u = pow2 (max (exponent x - 52) (- 1074)) in of_int (round_even (x / u)) * u)"

definition double_to_float :: "rat \<Rightarrow> f32" where
  "double_to_float x = (let d = round53 x in
     if d \<ge> 2 ^ 1024 then PInf else if d \<le> - (2 ^ 1024) then NInf else fround d)"

definition hex_digit :: "char \<Rightarrow> nat option" where
  "hex_digit c = (let n = (of_char c :: nat) in
     if 48 \<le> n \<and> n \<le> 57 then Some (n - 48)
     else if 97 \<le> n \<and> n \<le> 102 then Some (n - 87)
     else if 65 \<le> n \<and> n \<le> 70 then Some (n - 55) else None)"

definition dec_digit :: "char \<Rightarrow> nat option" where
  "dec_digit c = (if is_dec c then Some (of_char c - 48) else None)"

text \<open>The digits of a numeral, before and after the point: mantissa, number of fractional digits, rest.\<close>

definition mantissa :: "(char \<Rightarrow> nat option) \<Rightarrow> nat \<Rightarrow> string \<Rightarrow> (nat \<times> nat \<times> string) option" where
  "mantissa dig b s =
     (let isd = (\<lambda>c. dig c \<noteq> None); ip = takeWhile isd s; r = dropWhile isd s;
          (fp, r) = (case r of c # r' \<Rightarrow> if c = CHR ''.'' then (takeWhile isd r', dropWhile isd r') else ([], r) | [] \<Rightarrow> ([], r)) in
      if ip = [] \<and> fp = [] then None
      else Some (foldl (\<lambda>a c. b * a + the (dig c)) 0 (ip @ fp), length fp, r))"

definition exponent_part :: "char list \<Rightarrow> string \<Rightarrow> int" where
  "exponent_part ms s =
     (case s of
        c # r \<Rightarrow>
          if c \<in> set ms then (let (neg, t) = split_sign r; n = int (dec_value (takeWhile is_dec t)) in if neg then - n else n)
          else 0
      | [] \<Rightarrow> 0)"

definition rat_pow :: "rat \<Rightarrow> int \<Rightarrow> rat" where
  "rat_pow b k = (if 0 \<le> k then b ^ nat k else 1 / b ^ nat (- k))"

definition lower :: "char \<Rightarrow> nat" where
  "lower c = (let n = (of_char c :: nat) in if 65 \<le> n \<and> n \<le> 90 then n + 32 else n)"

definition starts_word :: "string \<Rightarrow> string \<Rightarrow> bool" where
  "starts_word w s \<longleftrightarrow> map lower (take (length w) s) = map of_char w"

text \<open>\<open>atof\<close>, with the value stored in a \<open>float\<close>.\<close>

definition atof_float :: "string \<Rightarrow> f32" where
  "atof_float s =
     (let (neg, t) = split_sign (dropWhile is_space s); sg = (if neg then - 1 else 1 :: rat) in
      if starts_word ''inf'' t then f_inf sg
      else if starts_word ''nan'' t then NaN
      else (case (if starts_word ''0x'' t then mantissa hex_digit 16 (tl (tl t)) else None) of
          Some (m, k, r) \<Rightarrow> double_to_float (sg * of_nat m * rat_pow 2 (exponent_part ''pP'' r - 4 * int k))
        | None \<Rightarrow>
            (case mantissa dec_digit 10 t of
               Some (m, k, r) \<Rightarrow> double_to_float (sg * of_nat m * rat_pow 10 (exponent_part ''eE'' r - int k))
             | None \<Rightarrow> Fin 0)))"

section \<open>Options and job\<close>

record img_cli_options =
  o_input_path :: "string option"
  o_output_path :: "string option"
  o_cols :: u32
  o_rows :: u32
  o_gap :: u32
  o_padding :: u32
  o_photo_w_cm :: f32
  o_photo_h_cm :: f32
  o_dpi :: u32
  o_border :: u32
  o_bleed :: u32
  o_crop_mark :: u32
  o_crop_thickness :: u32
  o_crop_offset :: u32
  o_threads :: u32
  o_verbose :: bool

definition zero_options :: img_cli_options where
  "zero_options =
     \<lparr>o_input_path = None, o_output_path = None, o_cols = 0, o_rows = 0, o_gap = 0, o_padding = 0,
      o_photo_w_cm = Fin 0, o_photo_h_cm = Fin 0, o_dpi = 0, o_border = 0, o_bleed = 0, o_crop_mark = 0,
      o_crop_thickness = 0, o_crop_offset = 0, o_threads = 0, o_verbose = False\<rparr>"

definition atoi_u32 :: "string option \<Rightarrow> u32 option" where
  "atoi_u32 a = do { s \<leftarrow> a; z \<leftarrow> atoi s; Some (of_int z) }"

text \<open>The \<open>switch\<close>; an option without a case is skipped.\<close>

definition apply_option :: "opt_event \<Rightarrow> img_cli_options \<Rightarrow> img_cli_options option" where
  "apply_option ev opts =
     (case ev of (n, arg) \<Rightarrow>
        if n = of_char CHR ''i'' then Some (opts\<lparr>o_input_path := arg\<rparr>)
        else if n = of_char CHR ''o'' then Some (opts\<lparr>o_output_path := arg\<rparr>)
        else if n = 1 then map_option (\<lambda>v. opts\<lparr>o_cols := v\<rparr>) (atoi_u32 arg)
        else if n = 2 then map_option (\<lambda>v. opts\<lparr>o_rows := v\<rparr>) (atoi_u32 arg)
        else if n = 3 then map_option (\<lambda>v. opts\<lparr>o_gap := v\<rparr>) (atoi_u32 arg)
        else if n = 4 then map_option (\<lambda>v. opts\<lparr>o_padding := v\<rparr>) (atoi_u32 arg)
        else if n = 5 then map_option (\<lambda>s. opts\<lparr>o_photo_w_cm := atof_float s\<rparr>) arg
        else if n = 6 then map_option (\<lambda>s. opts\<lparr>o_photo_h_cm := atof_float s\<rparr>) arg
        else if n = 7 then map_option (\<lambda>v. opts\<lparr>o_dpi := v\<rparr>) (atoi_u32 arg)
        else if n = 8 then map_option (\<lambda>v. opts\<lparr>o_border := v\<rparr>) (atoi_u32 arg)
        else if n = 9 then map_option (\<lambda>v. opts\<lparr>o_bleed := v\<rparr>) (atoi_u32 arg)
        else if n = 10 then map_option (\<lambda>v. opts\<lparr>o_crop_mark := v\<rparr>) (atoi_u32 arg)
        else if n = 11 then map_option (\<lambda>v. opts\<lparr>o_crop_thickness := v\<rparr>) (atoi_u32 arg)
        else if n = 12 then map_option (\<lambda>v. opts\<lparr>o_crop_offset := v\<rparr>) (atoi_u32 arg)
        else if n = of_char CHR ''t'' then map_option (\<lambda>v. opts\<lparr>o_threads := v\<rparr>) (atoi_u32 arg)
        else if n = of_char CHR ''v'' then Some (opts\<lparr>o_verbose := True\<rparr>)
        else Some opts)"

definition img_parse_args :: "string list \<Rightarrow> img_cli_options option \<Rightarrow> (int \<times> img_cli_options option) option" where
  "img_parse_args argv opts =
     (case opts of
        None \<Rightarrow> Some (- 1, None)
      | Some _ \<Rightarrow> do {
          opts \<leftarrow> foreach (getopt_events (tl argv)) apply_option zero_options;
          if o_input_path opts = None \<or> o_output_path opts = None then Some (- 1, Some opts)
          else Some (0, Some (if o_threads opts = 0 then opts\<lparr>o_threads := 1\<rparr> else opts)) })"



section \<open>The program\<close>


section \<open>Writing options\<close>

text \<open>The decimal numeral of a number, and the command line that asks for given options.\<close>

fun dec :: "nat \<Rightarrow> string" where
  "dec n = (if n < 10 then [char_of (48 + n)] else dec (n div 10) @ [char_of (48 + n mod 10)])"

declare dec.simps [simp del]

definition render_args :: "string \<Rightarrow> string \<Rightarrow> img_cli_options \<Rightarrow> string list" where
  "render_args ws hs opts =
     [''imgengine'', ''--input'', the (o_input_path opts), ''--output'', the (o_output_path opts),
      ''--cols'', dec (unat (o_cols opts)), ''--rows'', dec (unat (o_rows opts)), ''--gap'', dec (unat (o_gap opts)),
      ''--padding'', dec (unat (o_padding opts)), ''--width'', ws, ''--height'', hs, ''--dpi'', dec (unat (o_dpi opts)),
      ''--border'', dec (unat (o_border opts)), ''--bleed'', dec (unat (o_bleed opts)),
      ''--crop-mark'', dec (unat (o_crop_mark opts)), ''--crop-thickness'', dec (unat (o_crop_thickness opts)),
      ''--crop-offset'', dec (unat (o_crop_offset opts)), ''--threads'', dec (unat (o_threads opts))] @
     (if o_verbose opts then [''--verbose''] else [])"

lemma dec_digit_char: "(n :: nat) < 10 \<Longrightarrow> is_dec (char_of (48 + n)) \<and> of_char (char_of (48 + n)) = 48 + n"
  by (simp add: is_dec_def)

lemma dec_not_empty: "dec n \<noteq> []"
  by (subst dec.simps) simp

lemma dec_is_dec: "c \<in> set (dec n) \<Longrightarrow> is_dec c"
proof (induction n rule: dec.induct)
  case (1 n)
  then show ?case
    using dec_digit_char [of n] dec_digit_char [of "n mod 10"] by (subst (asm) (2) dec.simps) (auto split: if_splits)
qed

lemma dec_value_dec: "dec_value (dec n) = n"
proof (induction n rule: dec.induct)
  case (1 n)
  show ?case
  proof (cases "n < 10")
    case True
    then show ?thesis using dec_digit_char [of n] by (subst dec.simps) (simp add: dec_value_def)
  next
    case False
    have "dec_value (xs @ [c]) = 10 * dec_value xs + (of_char c - 48)" for xs c by (simp add: dec_value_def)
    then show ?thesis
      using 1 False dec_digit_char [of "n mod 10"] by (subst dec.simps) simp
  qed
qed

lemma atoi_dec:
  assumes "n < 2 ^ 31"
  shows "atoi (dec n) = Some (int n)"
proof -
  obtain c cs where c: "dec n = c # cs" using dec_not_empty by (metis list.exhaust)
  then have d: "is_dec c" using dec_is_dec [of c n] by simp
  then have "\<not> is_space c" "c \<noteq> CHR ''-''" "c \<noteq> CHR ''+''" by (auto simp: is_dec_def is_space_def)
  then have "split_sign (dropWhile is_space (dec n)) = (False, dec n)" by (simp add: c split_sign_def)
  moreover have "takeWhile is_dec (dec n) = dec n" using dec_is_dec by (simp add: takeWhile_eq_all_conv)
  ultimately show ?thesis
    unfolding atoi_def Let_def by (simp only: prod.case) (simp only: dec_value_dec, use assms in simp)
qed

lemma atoi_u32_dec:
  assumes "unat (w :: u32) < 2 ^ 31"
  shows "atoi_u32 (Some (dec (unat w))) = Some w"
  using atoi_dec [OF assms] by (simp add: atoi_u32_def)

lemma classify_names:
  "classify ''--input'' = Opts_Needs [] 105" "classify ''--output'' = Opts_Needs [] 111"
  "classify ''--cols'' = Opts_Needs [] 1" "classify ''--rows'' = Opts_Needs [] 2" "classify ''--gap'' = Opts_Needs [] 3"
  "classify ''--padding'' = Opts_Needs [] 4" "classify ''--width'' = Opts_Needs [] 5" "classify ''--height'' = Opts_Needs [] 6"
  "classify ''--dpi'' = Opts_Needs [] 7" "classify ''--border'' = Opts_Needs [] 8" "classify ''--bleed'' = Opts_Needs [] 9"
  "classify ''--crop-mark'' = Opts_Needs [] 10" "classify ''--crop-thickness'' = Opts_Needs [] 11"
  "classify ''--crop-offset'' = Opts_Needs [] 12" "classify ''--threads'' = Opts_Needs [] 116"
  "classify ''--verbose'' = Opts [(118, None)]"
  by code_simp+

declare classify.simps [simp del]

section \<open>Properties\<close>

text \<open>
  C32. The command line and the parser fit together: the words that spell out given options, with
  every number below 2 to the 31 and at least one thread, are parsed to exactly these options,
  whatever the paths are and however the sizes in centimetres are written.
\<close>

theorem parse_render:
  assumes "o_input_path opts = Some p" and "o_output_path opts = Some q" and "o_threads opts \<noteq> 0"
    and "o_photo_w_cm opts = atof_float ws" and "o_photo_h_cm opts = atof_float hs"
    and "\<forall>v \<in> {o_cols opts, o_rows opts, o_gap opts, o_padding opts, o_dpi opts, o_border opts, o_bleed opts,
      o_crop_mark opts, o_crop_thickness opts, o_crop_offset opts, o_threads opts}. unat v < 2 ^ 31"
  shows "img_parse_args (render_args ws hs opts) (Some zero_options) = Some (0, Some opts)"
proof -
  have nums:
    "atoi_u32 (Some (dec (unat (o_cols opts)))) = Some (o_cols opts)" "atoi_u32 (Some (dec (unat (o_rows opts)))) = Some (o_rows opts)"
    "atoi_u32 (Some (dec (unat (o_gap opts)))) = Some (o_gap opts)" "atoi_u32 (Some (dec (unat (o_padding opts)))) = Some (o_padding opts)"
    "atoi_u32 (Some (dec (unat (o_dpi opts)))) = Some (o_dpi opts)" "atoi_u32 (Some (dec (unat (o_border opts)))) = Some (o_border opts)"
    "atoi_u32 (Some (dec (unat (o_bleed opts)))) = Some (o_bleed opts)" "atoi_u32 (Some (dec (unat (o_crop_mark opts)))) = Some (o_crop_mark opts)"
    "atoi_u32 (Some (dec (unat (o_crop_thickness opts)))) = Some (o_crop_thickness opts)"
    "atoi_u32 (Some (dec (unat (o_crop_offset opts)))) = Some (o_crop_offset opts)"
    "atoi_u32 (Some (dec (unat (o_threads opts)))) = Some (o_threads opts)"
    using assms(6) by (auto intro!: atoi_u32_dec)
  have "foreach (getopt_events (tl (render_args ws hs opts))) apply_option zero_options = Some opts"
    by (simp add: render_args_def classify_names apply_option_def zero_options_def assms(1,2) nums)
      (auto intro!: img_cli_options.equality simp: assms(1,2,4,5))
  then show ?thesis
    using assms(1-3) by (simp add: img_parse_args_def)
qed

definition demo_options :: img_cli_options where
  "demo_options = zero_options\<lparr>o_input_path := Some ''in.jpg'', o_output_path := Some ''--odd.pdf'', o_cols := 3, o_rows := 2,
     o_dpi := 600, o_photo_w_cm := atof_float ''3.5'', o_photo_h_cm := atof_float ''3'', o_threads := 4, o_verbose := True\<rparr>"

theorem parse_render_witness:
  "img_parse_args (render_args ''3.5'' ''3'' demo_options) (Some zero_options) = Some (0, Some demo_options)"
  by (rule parse_render [of _ "''in.jpg''" "''--odd.pdf''"])
    (simp_all add: demo_options_def zero_options_def)

text \<open>The start of the engine never fills the I/O table.\<close>

lemma start_workers_vtable:
  assumes "foreach is (start_worker env) g = Some g'"
  shows "g_io_vtable g' = g_io_vtable g"
  using assms
  by (induction "is" arbitrary: g) (auto simp: start_worker_def split: bind_splits)

lemma init_vtable:
  assumes "img_api_init env n g h = Some (ok, g', h')"
  shows "g_io_vtable g' = g_io_vtable g"
  using assms by (auto simp: img_api_init_def Let_def dest!: start_workers_vtable split: bind_splits if_splits)

text \<open>
  Whether a job gets as far as the decoder: its file can be read, it passes the security gate, and
  the scratch arena is there.
\<close>

definition reaches_decoder :: "os_env \<Rightarrow> string \<Rightarrow> bool" where
  "reaches_decoder os inp =
     (case snd (load_file_mmap os inp) of
        None \<Rightarrow> False
      | Some (_, bs) \<Rightarrow> img_security_validate_request 16384 16384 (of_nat (length bs)) = IMG_SUCCESS \<and>
          img_arena_create (arena_hdr os) (arena_mem os) (1024 * 1024) \<noteq> None)"



text \<open>How a run of the program ends. Of these only \<open>Exit\<close> is defined behaviour.\<close>

datatype main_end = Exit int | Number_Overflow | Start_Undefined | Null_Decoder | Bad_Join


text \<open>
  A number on the command line is outside \<open>int\<close>; the start is undefined (the memory of the
  pool is smaller than what was asked for); the job calls the decoder of an empty table; or the shutdown joins a thread that was
  never created. In every other case the program exits with 1.
\<close>

definition main_ends :: "init_env \<Rightarrow> os_env \<Rightarrow> string list \<Rightarrow> heap \<Rightarrow> main_end" where
  "main_ends env os argv h =
     (case img_parse_args argv (Some zero_options) of
        None \<Rightarrow> Number_Overflow
      | Some (r, opts) \<Rightarrow>
          if r \<noteq> 0 then Exit 1
          else (case img_api_init env (o_threads (the opts)) program_start h of
              None \<Rightarrow> Start_Undefined
            | Some (ok, g, _) \<Rightarrow>
                if \<not> ok then Exit 1
                else if reaches_decoder os (the (o_input_path (the opts))) \<and> v_decode (g_io_vtable g) = None then Null_Decoder
                else if \<forall>i < unat (o_threads (the opts)). fst (worker_mem env i) \<and> thread_ok env i then Exit 1
                else Bad_Join))"



text \<open>Of three runs the first calls the null decoder, the second exits with 1, and the third overflows.\<close>

lemma main_on_demo:
  "main_ends demo_env demo_os [''imgengine'', ''--input'', ''in.jpg'', ''--output'', ''out.pdf'', ''--threads'', ''2''] demo_mem = Null_Decoder"
    (is "main_ends _ _ ?big _ = _")
  "main_ends demo_env demo_os [''imgengine'', ''--input'', ''tiny.jpg'', ''--output'', ''out.pdf'', ''--threads'', ''2''] demo_mem = Exit 1"
    (is "main_ends _ _ ?tiny _ = _")
  "main_ends demo_env demo_os [''imgengine'', ''--cols'', ''99999999999''] demo_mem = Number_Overflow"
proof -
  have two: "atoi_u32 (Some ''2'') = Some 2" and big: "atoi_u32 (Some ''99999999999'') = None"
    by (simp_all add: atoi_u32_def atoi_def split_sign_def is_space_def is_dec_def dec_value_def)
  have parse: "\<exists>opts. img_parse_args [''imgengine'', ''--input'', p, ''--output'', ''out.pdf'', ''--threads'', ''2''] (Some zero_options) =
      Some (0, Some opts) \<and> o_threads opts = 2 \<and> o_input_path opts = Some p" for p
    by (simp add: img_parse_args_def classify_names apply_option_def zero_options_def two)
  obtain g h' where i: "img_api_init demo_env 2 program_start demo_mem = Some (True, g, h')" using demo_init by blast
  have v: "v_decode (g_io_vtable g) = None"
    using init_vtable [OF i] by (simp add: program_start_def zero_vtable_def)
  have threads: "\<forall>i. fst (worker_mem demo_env i) \<and> thread_ok demo_env i" by (simp add: demo_env_def)
  have ends: "main_ends demo_env demo_os [''imgengine'', ''--input'', p, ''--output'', ''out.pdf'', ''--threads'', ''2''] demo_mem =
      (if reaches_decoder demo_os p then Null_Decoder else Exit 1)" for p
    using parse [of p] threads by (auto simp: main_ends_def i v)
  have "reaches_decoder demo_os ''in.jpg''" and "\<not> reaches_decoder demo_os ''tiny.jpg''"
    using job_gate [of big_file] job_gate [of "[9]"]
    by (simp_all add: reaches_decoder_def load_file_mmap_def demo_os_def img_arena_create_def align64_def)
  then show "main_ends demo_env demo_os ?big demo_mem = Null_Decoder" and "main_ends demo_env demo_os ?tiny demo_mem = Exit 1"
    by (simp_all only: ends if_True if_False)
  show "main_ends demo_env demo_os [''imgengine'', ''--cols'', ''99999999999''] demo_mem = Number_Overflow"
    by (simp add: main_ends_def img_parse_args_def classify_names apply_option_def big)
qed

end
