(* ===== verification/Bench.thy ===== *)
theory Bench
  imports Cli
begin

text \<open>
  The latency benchmark \<open>cmd/bench/lat_bench.c\<close>: 100 runs to warm up, 1000 measured ones, and the
  report. The answers of the system and the readings of the cycle counter are arguments; the
  conversion to milliseconds and the messages are left out.
\<close>

record bench_stats =
  total_cycles :: u64
  min_cycles :: u64
  max_cycles :: u64

abbreviation (input) BENCH_ITERATIONS :: nat where "BENCH_ITERATIONS \<equiv> 1000"
abbreviation (input) BENCH_WARMUP :: nat where "BENCH_WARMUP \<equiv> 100"

fun warmup :: "('s \<Rightarrow> (img_result \<times> 's) option) \<Rightarrow> nat \<Rightarrow> 's \<Rightarrow> (img_result \<times> 's) option" where
  "warmup run 0 st = Some (IMG_SUCCESS, st)"
| "warmup run (Suc n) st = do {
     (r, st) \<leftarrow> run st;
     if r \<noteq> IMG_SUCCESS then Some (r, st) else warmup run n st }"

definition add_sample :: "u64 \<times> u64 \<Rightarrow> bench_stats \<Rightarrow> bench_stats" where
  "add_sample = (\<lambda>(start, stop) b.
     let cycles = stop - start in
     \<lparr>total_cycles = total_cycles b + cycles,
      min_cycles = (if cycles < min_cycles b then cycles else min_cycles b),
      max_cycles = (if cycles > max_cycles b then cycles else max_cycles b)\<rparr>)"

text \<open>The measured runs with the readings of the counter around each; a failed run ends the loop.\<close>

fun measure :: "('s \<Rightarrow> (img_result \<times> 's) option) \<Rightarrow> (u64 \<times> u64) list \<Rightarrow> bench_stats \<Rightarrow> 's \<Rightarrow> (bench_stats \<times> 's) option" where
  "measure run [] b st = Some (b, st)"
| "measure run (t # ts) b st = do {
     (r, st) \<leftarrow> run st;
     if r \<noteq> IMG_SUCCESS then Some (b, st) else measure run ts (add_sample t b) st }"

definition no_samples :: bench_stats where
  "no_samples = \<lparr>total_cycles = 0, min_cycles = - 1, max_cycles = 0\<rparr>"

text \<open>Average, minimum and maximum.\<close>

definition report :: "bench_stats \<Rightarrow> u64 \<times> u64 \<times> u64" where
  "report b = (total_cycles b div of_nat BENCH_ITERATIONS, min_cycles b, max_cycles b)"

record bench_os =
  b_file :: "string \<Rightarrow> (bool \<times> bytes) option"
  b_mmap :: "ptr option"
  b_clock :: "nat \<Rightarrow> u64 \<times> u64"

definition bench_run :: "img_globals \<Rightarrow> ptr \<times> bytes \<Rightarrow> img_slab_pool option \<times> heap \<Rightarrow> (img_result \<times> img_slab_pool option \<times> heap) option" where
  "bench_run g input = (\<lambda>(pool, h). do {
     (r, _, pool, h) \<leftarrow> img_api_process_raw (g_io_vtable g) (Some pool) (Some input) True h;
     Some (r, pool, h) })"

text \<open>The exit code and the report. \<open>b_file\<close> gives whether the file can be seeked, and its contents.\<close>

definition bench_main :: "init_env \<Rightarrow> bench_os \<Rightarrow> string list \<Rightarrow> heap \<Rightarrow> (int \<times> (u64 \<times> u64 \<times> u64) option) option" where
  "bench_main env os argv h =
     (let path = (if 1 < length argv then argv ! 1 else ''tests/samples/4k_test.jpg'') in
      case b_file os path of
        None \<Rightarrow> Some (1, None)
      | Some (seekable, bs) \<Rightarrow>
          if \<not> seekable \<or> bs = [] then Some (1, None)
          else (case b_mmap os of
              None \<Rightarrow> Some (1, None)
            | Some a \<Rightarrow> do {
                (ok, g, h) \<leftarrow> img_api_init env 1 program_start h;
                if \<not> ok then Some (1, None)
                else do {
                  let run = bench_run g (a, bs);
                  (r, pool, h) \<leftarrow> warmup run BENCH_WARMUP (e_global_pool (g_engine g), h);
                  if r \<noteq> IMG_SUCCESS then do {
                    _ \<leftarrow> img_api_shutdown True (g\<lparr>g_engine := (g_engine g)\<lparr>e_global_pool := pool\<rparr>\<rparr>);
                    Some (1, None) }
                  else do {
                    (b, pool, h) \<leftarrow> measure run (map (b_clock os) [0..<BENCH_ITERATIONS]) no_samples (pool, h);
                    _ \<leftarrow> img_api_shutdown True (g\<lparr>g_engine := (g_engine g)\<lparr>e_global_pool := pool\<rparr>\<rparr>);
                    Some (0, Some (report b)) } } }))"

section \<open>The report\<close>

definition cycles_of :: "u64 \<times> u64 \<Rightarrow> nat" where
  "cycles_of t = unat (snd t - fst t)"

lemma add_samples:
  assumes "unat (total_cycles b) + (\<Sum>t\<leftarrow>ts. cycles_of t) < 2 ^ 64"
  shows "unat (total_cycles (fold add_sample ts b)) = unat (total_cycles b) + (\<Sum>t\<leftarrow>ts. cycles_of t)"
    and "unat (min_cycles (fold add_sample ts b)) = fold (min \<circ> cycles_of) ts (unat (min_cycles b))"
    and "unat (max_cycles (fold add_sample ts b)) = fold (max \<circ> cycles_of) ts (unat (max_cycles b))"
proof -
  have "unat (total_cycles (fold add_sample ts b)) = unat (total_cycles b) + (\<Sum>t\<leftarrow>ts. cycles_of t) \<and>
     unat (min_cycles (fold add_sample ts b)) = fold (min \<circ> cycles_of) ts (unat (min_cycles b)) \<and>
     unat (max_cycles (fold add_sample ts b)) = fold (max \<circ> cycles_of) ts (unat (max_cycles b))"
    using assms
  proof (induction ts arbitrary: b)
    case (Cons t ts)
    have step: "unat (total_cycles (add_sample t b)) = unat (total_cycles b) + cycles_of t"
      "unat (min_cycles (add_sample t b)) = min (cycles_of t) (unat (min_cycles b))"
      "unat (max_cycles (add_sample t b)) = max (cycles_of t) (unat (max_cycles b))"
      using Cons.prems
      by (auto simp: add_sample_def cycles_of_def Let_def case_prod_beta min_def max_def word_less_nat_alt unat_add_small)
    show ?case using Cons.IH [of "add_sample t b"] Cons.prems step by (simp add: add.assoc)
  qed simp
  then show "unat (total_cycles (fold add_sample ts b)) = unat (total_cycles b) + (\<Sum>t\<leftarrow>ts. cycles_of t)"
    and "unat (min_cycles (fold add_sample ts b)) = fold (min \<circ> cycles_of) ts (unat (min_cycles b))"
    and "unat (max_cycles (fold add_sample ts b)) = fold (max \<circ> cycles_of) ts (unat (max_cycles b))"
    by auto
qed

lemma measure_all:
  assumes "\<forall>st. \<exists>st'. run st = Some (IMG_SUCCESS, st')"
  shows "\<exists>st'. measure run ts b st = Some (fold add_sample ts b, st')"
proof (induction ts arbitrary: b st)
  case (Cons t ts)
  obtain st1 where "run st = Some (IMG_SUCCESS, st1)" using assms by blast
  then show ?case using Cons.IH [of "add_sample t b" st1] by simp
qed simp

text \<open>
  When every run succeeds and the cycles fit a word, the report is the floor of the mean of the
  1000 samples, the smallest and the largest.
\<close>

lemma report_exact:
  assumes "\<forall>st. \<exists>st'. run st = Some (IMG_SUCCESS, st')" and "length ts = BENCH_ITERATIONS"
    and "(\<Sum>t\<leftarrow>ts. cycles_of t) < 2 ^ 64"
  shows "\<exists>b st'. measure run ts no_samples st = Some (b, st') \<and>
    unat (fst (report b)) = (\<Sum>t\<leftarrow>ts. cycles_of t) div BENCH_ITERATIONS \<and>
    unat (fst (snd (report b))) = Min (cycles_of ` set ts) \<and> unat (snd (snd (report b))) = Max (cycles_of ` set ts)"
proof -
  obtain t ts' where ts: "ts = t # ts'" using assms(2) by (cases ts) auto
  have le: "cycles_of x \<le> 2 ^ 64 - 1" for x using unsigned_less [of "snd x - fst x", where 'a = nat] by (simp add: cycles_of_def)
  have "fold (min \<circ> cycles_of) ts (2 ^ 64 - 1) = Min (insert (2 ^ 64 - 1) (cycles_of ` set ts))"
    using Min.set_eq_fold [of "2 ^ 64 - 1" "map cycles_of ts"] by (simp add: fold_map)
  also have "\<dots> = Min (cycles_of ` set ts)"
  proof -
    have "Min (cycles_of ` set ts) \<le> cycles_of t" by (rule Min_le) (simp_all add: ts)
    then have "Min (cycles_of ` set ts) \<le> 2 ^ 64 - 1" using le [of t] by (rule order_trans)
    then show ?thesis by (subst Min_insert) (simp_all add: ts min_absorb2)
  qed
  finally have lo: "fold (min \<circ> cycles_of) ts (2 ^ 64 - 1) = Min (cycles_of ` set ts)" .
  have "fold (max \<circ> cycles_of) ts 0 = Max (insert 0 (cycles_of ` set ts))"
    using Max.set_eq_fold [of 0 "map cycles_of ts"] by (simp add: fold_map)
  also have "\<dots> = Max (cycles_of ` set ts)" by (subst Max_insert) (auto simp: ts)
  finally have hi: "fold (max \<circ> cycles_of) ts 0 = Max (cycles_of ` set ts)" .
  obtain st' where "measure run ts no_samples st = Some (fold add_sample ts no_samples, st')"
    using measure_all [OF assms(1)] by blast
  moreover have "unat (- 1 :: u64) = 2 ^ 64 - 1" by (simp add: unsigned_minus_1_eq_mask mask_eq_exp_minus_1)
  ultimately show ?thesis
    using add_samples [of no_samples ts] assms(3) lo hi
    by (auto simp: report_def no_samples_def unat_div)
qed

text \<open>
  The benchmark never measures anything: it starts the engine with \<open>img_api_init\<close>, which does
  not register the codecs, so the first run to warm up is refused or calls a null pointer. For
  every file and system it exits with 1 and reports nothing, or its behaviour is undefined.
\<close>

theorem bench_never_measures: "bench_main env os argv h = Some (1, None) \<or> bench_main env os argv h = None"
proof -
  have raw: "img_api_process_raw zero_vtable (Some pool) (Some i) True h \<noteq> Some (IMG_SUCCESS, x)" for pool i h x
    by (auto simp: img_api_process_raw_def zero_vtable_def Let_def split: if_splits)
  have "warmup (bench_run g i) 100 st \<noteq> Some (IMG_SUCCESS, x)" if "g_io_vtable g = zero_vtable" for g i st x
  proof -
    have "bench_run g i st \<noteq> Some (IMG_SUCCESS, y)" for y
      using raw that by (auto simp: bench_run_def split: prod.splits bind_splits)
    then show ?thesis by (auto simp: numeral_eq_Suc split: bind_splits if_splits)
  qed
  moreover have "g_io_vtable g = zero_vtable" if "img_api_init env 1 program_start h = Some (ok, g, h')" for ok g h'
    using init_vtable [OF that] by (simp add: program_start_def)
  ultimately have "c = (1, None)" if "bench_main env os argv h = Some c" for c
    using that by (fastforce simp: bench_main_def Let_def split: option.splits prod.splits bind_splits if_splits)
  then show ?thesis by (cases "bench_main env os argv h") auto
qed

end
