(* ===== verification/Simd.thy ===== *)
theory Simd
  imports Blit
begin

text \<open>
  The AVX2 intrinsics the kernels use, on vectors of 32 bytes or 16 words as lists, and kernels
  that transform the bytes of a row in place: 32 at a time and the rest one by one.
\<close>

section \<open>Intrinsics\<close>

text \<open>The unpack and pack instructions work on the two 128-bit halves separately.\<close>

definition mm256_unpacklo_epi8 :: "bytes \<Rightarrow> u16 list" where
  "mm256_unpacklo_epi8 v = map (\<lambda>i. ucast (v ! (16 * (i div 8) + i mod 8))) [0..<16]"

definition mm256_unpackhi_epi8 :: "bytes \<Rightarrow> u16 list" where
  "mm256_unpackhi_epi8 v = map (\<lambda>i. ucast (v ! (16 * (i div 8) + 8 + i mod 8))) [0..<16]"

definition mm256_mullo_epi16 :: "u16 list \<Rightarrow> u16 \<Rightarrow> u16 list" where
  "mm256_mullo_epi16 v k = map (\<lambda>x. x * k) v"

definition mm256_srli_epi16 :: "u16 list \<Rightarrow> nat \<Rightarrow> u16 list" where
  "mm256_srli_epi16 v n = map (drop_bit n) v"

definition adds_u16 :: "u16 \<Rightarrow> u16 \<Rightarrow> u16" where
  "adds_u16 x k = (if unat x + unat k \<ge> 65536 then 65535 else x + k)"

definition mm256_adds_epu16 :: "u16 list \<Rightarrow> u16 \<Rightarrow> u16 list" where
  "mm256_adds_epu16 v k = map (\<lambda>x. adds_u16 x k) v"

text \<open>Packing saturates the words as signed numbers to the range of a byte.\<close>

definition sat_u8 :: "u16 \<Rightarrow> u8" where
  "sat_u8 x = (if sint x < 0 then 0 else if sint x > 255 then 255 else ucast x)"

definition mm256_packus_epi16 :: "u16 list \<Rightarrow> u16 list \<Rightarrow> bytes" where
  "mm256_packus_epi16 lo hi =
     map (\<lambda>i. sat_u8 (if i mod 16 < 8 then lo ! (8 * (i div 16) + i mod 16)
                      else hi ! (8 * (i div 16) + (i mod 16 - 8)))) [0..<32]"

definition avg_u8 :: "u8 \<Rightarrow> u8 \<Rightarrow> u8" where
  "avg_u8 a b = of_nat ((unat a + unat b + 1) div 2)"

definition mm256_avg_epu8_zero :: "bytes \<Rightarrow> bytes" where
  "mm256_avg_epu8_zero v = map (\<lambda>b. avg_u8 b 0) v"

lemma pack_unpack:
  assumes "length v = 32"
  shows "mm256_packus_epi16 (map g (mm256_unpacklo_epi8 v)) (map g (mm256_unpackhi_epi8 v)) =
    map (\<lambda>b. sat_u8 (g (ucast b))) v"
proof (rule nth_equalityI)
  fix i assume "i < length (mm256_packus_epi16 (map g (mm256_unpacklo_epi8 v)) (map g (mm256_unpackhi_epi8 v)))"
  then have i: "i < 32" by (simp add: mm256_packus_epi16_def)
  have d: "i div 16 < 2" "i mod 16 < 16" "16 * (i div 16) + i mod 16 = i" using i by simp_all
  show "mm256_packus_epi16 (map g (mm256_unpacklo_epi8 v)) (map g (mm256_unpackhi_epi8 v)) ! i =
      map (\<lambda>b. sat_u8 (g (ucast b))) v ! i"
  proof (cases "i mod 16 < 8")
    case True
    let ?j = "8 * (i div 16) + i mod 16"
    have j: "?j < 16" "?j div 8 = i div 16" "?j mod 8 = i mod 16" using d True by simp_all
    have "mm256_unpacklo_epi8 v ! ?j = ucast (v ! i)"
      unfolding mm256_unpacklo_epi8_def using j d(3) by simp
    then show ?thesis
      using True i j(1) assms by (simp add: mm256_packus_epi16_def) (simp add: mm256_unpacklo_epi8_def)
  next
    case False
    let ?j = "8 * (i div 16) + (i mod 16 - 8)"
    have c: "i mod 16 - 8 < 8" using d(2) by linarith
    have j: "?j < 16" "?j div 8 = i div 16" using d(1) c by simp_all
    have "?j mod 8 = (i mod 16 - 8) mod 8" by (simp only: mod_mult_self4)
    then have j3: "?j mod 8 = i mod 16 - 8" using c by simp
    have "16 * (i div 16) + 8 + (i mod 16 - 8) = i" using d(3) False by linarith
    then have "mm256_unpackhi_epi8 v ! ?j = ucast (v ! i)"
      unfolding mm256_unpackhi_epi8_def using j j3 by simp
    then show ?thesis
      using False i j(1) assms by (simp add: mm256_packus_epi16_def) (simp add: mm256_unpackhi_epi8_def)
  qed
qed (simp add: mm256_packus_epi16_def assms)

section \<open>Rows\<close>

definition map_byte :: "(u8 \<Rightarrow> u8) \<Rightarrow> nat \<Rightarrow> nat \<Rightarrow> bytes \<Rightarrow> bytes option" where
  "map_byte f row x s = do { v \<leftarrow> load s (row + x); store (row + x) (f v) s }"

text \<open>Load 32 bytes, transform the vector, store it back.\<close>

definition map_vec :: "(bytes \<Rightarrow> bytes) \<Rightarrow> nat \<Rightarrow> nat \<Rightarrow> bytes \<Rightarrow> bytes option" where
  "map_vec F row x s =
     (if row + x + 32 \<le> length s
      then Some (take (row + x) s @ F (take 32 (drop (row + x) s)) @ drop (row + x + 32) s) else None)"

lemma map_bytes_foreach:
  "foreach [0..<n] (map_byte f p) s =
    (if n = 0 then Some s
     else if p + n \<le> length s then Some (take p s @ map f (take n (drop p s)) @ drop (p + n) s) else None)"
proof (induction n)
  case (Suc n)
  define t where "t = take p s @ map f (take n (drop p s)) @ drop (p + n) s"
  have step: "foreach [0..<Suc n] (map_byte f p) s = Option.bind (foreach [0..<n] (map_byte f p) s) (map_byte f p n)"
    by (simp add: foreach_snoc)
  have n: "n = 0 \<Longrightarrow> t = s" and len: "p + n \<le> length s \<Longrightarrow> length t = length s"
    by (simp_all add: t_def)
  have upd: "t[p + n := f (t ! (p + n))] = take p s @ map f (take (Suc n) (drop p s)) @ drop (Suc (p + n)) s"
    if "p + n < length s"
  proof -
    have "drop (p + n) s = s ! (p + n) # drop (Suc (p + n)) s" using that by (simp add: Cons_nth_drop_Suc)
    moreover have "take (Suc n) (drop p s) = take n (drop p s) @ [s ! (p + n)]"
      using that by (simp add: take_Suc_conv_app_nth)
    ultimately show ?thesis using that by (simp add: t_def list_update_append nth_append)
  qed
  show ?case
    unfolding step Suc t_def [symmetric]
    using upd n len by (cases "n = 0") (auto simp: map_byte_def load_def store_def)
qed simp

lemma map_vec_map: "map_vec (map f) row x s = foreach [x..<x + 32] (map_byte f row) s"
proof -
  have "map_byte f row (x + j) = map_byte f (row + x) j" for j
    by (simp add: map_byte_def [abs_def] add.assoc)
  then show ?thesis
    by (simp add: foreach_shift map_bytes_foreach map_vec_def)
qed

interpretation pixel_row: simd_row 32 "map_vec (map f) row" "map_byte f row" for f row
  by unfold_locales (simp_all add: map_vec_map)

lemma map_vec_cong:
  assumes "\<And>v. length v = 32 \<Longrightarrow> F v = G v"
  shows "map_vec F row x s = map_vec G row x s"
  using assms [of "take 32 (drop (row + x) s)"] by (auto simp: map_vec_def)

text \<open>A vector function that is a byte function in every lane gives the scalar row loop.\<close>

lemma chunked_map_vec:
  assumes "\<And>v. length v = 32 \<Longrightarrow> F v = map f v"
  shows "chunked 32 (map_vec F row) (map_byte f row) n s = foreach [0..<n] (map_byte f row) s"
proof -
  have "map_vec F row = map_vec (map f) row"
    using map_vec_cong [of F "map f"] assms by (simp add: fun_eq_iff)
  then show ?thesis by (simp add: pixel_row.simd_eq_scalar)
qed

lemma sint_small16:
  fixes w :: u16
  assumes "unat w < 2 ^ 15"
  shows "sint w = int (unat w)"
proof -
  have "int (unat w) < int (2 ^ 15)" using assms by (simp only: of_nat_less_iff)
  then have "signed_take_bit 15 (uint w) = uint w"
    using order_trans [OF _ uint_ge_0 [of w], of "- 32768"]
    by (intro signed_take_bit_int_eq_self) simp_all
  then show ?thesis by (simp add: sint_uint)
qed

lemma unat_u16_of_u8 [simp]: "unat (ucast (b :: u8) :: u16) = unat b"
  using unat_lt_u8 [of b] by (simp add: unsigned_ucast_eq take_bit_nat_eq_self)

lemma unat_u32_of_u8 [simp]: "unat (ucast (b :: u8) :: u32) = unat b"
  using unat_lt_u8 [of b] by (simp add: unsigned_ucast_eq take_bit_nat_eq_self)

lemma sat_u8_small:
  assumes "unat x < 2 ^ 15"
  shows "sat_u8 x = of_nat (min 255 (unat x))"
proof -
  have s: "sint x = int (unat x)" by (rule sint_small16 [OF assms])
  have c: "sat_u8 x = (if unat x > 255 then 255 else ucast x)"
    using of_nat_less_iff [of 255 "unat x", where 'a = int]
    unfolding sat_u8_def s of_nat_numeral by (simp only: of_nat_less_0_iff if_False)
  show ?thesis
  proof (cases "unat x > 255")
    case False
    then have "min 255 (unat x) = unat x" by simp
    then show ?thesis using c False by simp
  qed (simp add: c)
qed

end
