(* ===== verification/Fusion.thy ===== *)
theory Fusion
  imports Simd Dispatch Slab
begin

text \<open>
  Pipeline fusion: \<open>pipeline/pipeline_fuse.c\<close>, \<open>pipeline/pipeline_signature.h\<close>,
  \<open>pipeline/fused_dispatch.c\<close>, the batch kernels of \<open>pipeline/fused_kernels.inc\<close> and the
  execution functions of \<open>pipeline/batch_exec.c\<close> and \<open>hot/pipeline_exec.c\<close>.
\<close>

section \<open>Signatures and the dispatch table\<close>

definition SIG_OP_GRAYSCALE :: u32 where "SIG_OP_GRAYSCALE = 1"
definition SIG_OP_BRIGHTNESS :: u32 where "SIG_OP_BRIGHTNESS = 2"
definition SIG_OP_RESIZE :: u32 where "SIG_OP_RESIZE = 4"

lemmas sig_defs = SIG_OP_GRAYSCALE_def SIG_OP_BRIGHTNESS_def SIG_OP_RESIZE_def

definition sig_op :: "u32 \<Rightarrow> u32 \<Rightarrow> u32" where
  "sig_op code sig =
     (if code = OP_GRAYSCALE then sig OR SIG_OP_GRAYSCALE
      else if code = OP_BRIGHTNESS then sig OR SIG_OP_BRIGHTNESS
      else if code = OP_RESIZE then sig OR SIG_OP_RESIZE
      else sig)"

definition img_pipeline_build_signature :: "img_pipeline_desc option \<Rightarrow> u32 option" where
  "img_pipeline_build_signature po =
     (case po of
        None \<Rightarrow> Some 0
      | Some p \<Rightarrow>
          if op_count p = 0 then Some 0
          else foreach [0..<unat (op_count p)] (\<lambda>i sig.
            if i < length (ops p) then Some (sig_op (op_code (ops p ! i)) sig) else None) 0)"

datatype img_fused_kernel =
  kernel_none | kernel_gray | kernel_bright | kernel_gray_bright | kernel_gray_resize | kernel_all

definition g_fused_dispatch :: "img_fused_kernel option list" where
  "g_fused_dispatch =
     [Some kernel_none, Some kernel_gray, Some kernel_bright, Some kernel_gray_bright,
      None, Some kernel_gray_resize, Some kernel_bright, Some kernel_all]"

definition img_get_fused_kernel :: "u32 \<Rightarrow> img_fused_kernel option" where
  "img_get_fused_kernel sig = (if sig \<ge> 8 then None else g_fused_dispatch ! unat sig)"

section \<open>Fusing\<close>

record img_fused_params =
  has_grayscale :: bool
  has_brightness :: bool
  has_resize :: bool
  brightness_value :: u16
  new_w :: u32
  new_h :: u32

datatype img_single_kernel = Fused_exec_avx2 | Fused_exec_scalar

record img_pipeline_fused =
  fcount :: u32
  fn :: img_single_kernel
  fn_batch :: "img_fused_kernel option"

definition zero_params :: img_fused_params where
  "zero_params = \<lparr>has_grayscale = False, has_brightness = False, has_resize = False,
     brightness_value = 0, new_w = 0, new_h = 0\<rparr>"

text \<open>\<open>rd16\<close> and \<open>rd32\<close> read the parameter blocks; an invalid pointer has no value.\<close>

definition fuse_op ::
  "(ptr \<Rightarrow> u16 option) \<Rightarrow> (ptr \<Rightarrow> nat \<Rightarrow> u32 option) \<Rightarrow> img_op_desc \<Rightarrow> img_fused_params \<times> u32 \<Rightarrow> (img_fused_params \<times> u32) option" where
  "fuse_op rd16 rd32 d st =
     (case st of (p, sig) \<Rightarrow>
        if op_code d = OP_GRAYSCALE then Some (p\<lparr>has_grayscale := True\<rparr>, sig OR SIG_OP_GRAYSCALE)
        else if op_code d = OP_BRIGHTNESS then do {
          let p = p\<lparr>has_brightness := True\<rparr>;
          p \<leftarrow> (if op_params d \<noteq> NULL
               then do { v \<leftarrow> rd16 (op_params d); Some (p\<lparr>brightness_value := v\<rparr>) } else Some p);
          Some (p, sig OR SIG_OP_BRIGHTNESS) }
        else if op_code d = OP_RESIZE then do {
          let p = p\<lparr>has_resize := True\<rparr>;
          p \<leftarrow> (if op_params d \<noteq> NULL
               then do { a \<leftarrow> rd32 (op_params d) 0; b \<leftarrow> rd32 (op_params d) 1; Some (p\<lparr>new_w := a, new_h := b\<rparr>) }
               else Some p);
          Some (p, sig OR SIG_OP_RESIZE) }
        else Some (p, sig))"

text \<open>
  The first component of the result is the return code, the second the global
  \<open>g_fused_params\<close>; \<open>avx2\<close> is the build switch \<open>__AVX2__\<close>.
\<close>

definition img_pipeline_fuse ::
  "bool \<Rightarrow> (ptr \<Rightarrow> u16 option) \<Rightarrow> (ptr \<Rightarrow> nat \<Rightarrow> u32 option) \<Rightarrow> img_fused_params \<Rightarrow> img_pipeline_desc option \<Rightarrow>
   img_pipeline_fused option \<Rightarrow> (int \<times> img_fused_params \<times> img_pipeline_fused option) option" where
  "img_pipeline_fuse avx2 rd16 rd32 g inp out =
     (case (inp, out) of
        (Some d, Some _) \<Rightarrow> do {
          (g, sig) \<leftarrow> foreach [0..<unat (op_count d)] (\<lambda>i st.
            if i < length (ops d) then fuse_op rd16 rd32 (ops d ! i) st else None) (zero_params, 0);
          Some (0, g, Some \<lparr>fcount = op_count d, fn = (if avx2 then Fused_exec_avx2 else Fused_exec_scalar),
            fn_batch = img_get_fused_kernel sig\<rparr>) }
      | _ \<Rightarrow> Some (- 1, g, out))"

section \<open>Single images\<close>

definition gray_px :: "u8 \<Rightarrow> u8" where
  "gray_px px = ucast (drop_bit 8 (ucast px * 77 :: u32))"

definition bright_px :: "u16 \<Rightarrow> u8 \<Rightarrow> u8" where
  "bright_px v px = (let tmp = ucast px + ucast v :: u32 in if tmp > 255 then 255 else ucast tmp)"

definition fused_px :: "bool \<Rightarrow> bool \<Rightarrow> u16 \<Rightarrow> u8 \<Rightarrow> u8" where
  "fused_px gray bright v px =
     (let px = (if gray then gray_px px else px) in if bright then bright_px v px else px)"

definition scalar_px :: "img_fused_params \<Rightarrow> u8 \<Rightarrow> u8" where
  "scalar_px p = fused_px (has_grayscale p) (has_brightness p) (brightness_value p)"

definition fused_exec_scalar :: "img_fused_params \<Rightarrow> img_buffer \<Rightarrow> bytes \<Rightarrow> bytes option" where
  "fused_exec_scalar p buf s =
     foreach [0..<H buf] (\<lambda>y.
       foreach [0..<unat (width buf * channels buf)] (map_byte (scalar_px p) (y * unat (stride buf)))) s"

text \<open>One iteration of the vector loop.\<close>

definition fused_vec :: "img_fused_params \<Rightarrow> bytes \<Rightarrow> bytes" where
  "fused_vec p v =
     (let lo = mm256_unpacklo_epi8 v; hi = mm256_unpackhi_epi8 v;
          lo = (if has_grayscale p then mm256_srli_epi16 (mm256_mullo_epi16 lo 77) 8 else lo);
          hi = (if has_grayscale p then mm256_srli_epi16 (mm256_mullo_epi16 hi 77) 8 else hi);
          lo = (if has_brightness p then mm256_adds_epu16 lo (brightness_value p) else lo);
          hi = (if has_brightness p then mm256_adds_epu16 hi (brightness_value p) else hi)
      in mm256_packus_epi16 lo hi)"

text \<open>A row within 32 bytes of \<open>2\<^sup>3\<^sup>2\<close> makes the test \<open>x + 32 <= len\<close> wrap around: no result.\<close>

definition fused_exec_avx2 :: "img_fused_params \<Rightarrow> img_buffer \<Rightarrow> bytes \<Rightarrow> bytes option" where
  "fused_exec_avx2 p buf s =
     foreach [0..<H buf] (\<lambda>y s.
       let n = unat (width buf * channels buf); row = y * unat (stride buf) in
       if n \<ge> 2 ^ 32 - 32 then None
       else chunked 32 (map_vec (fused_vec p) row) (map_byte (scalar_px p) row) n s) s"

section \<open>Batches\<close>

text \<open>
  A batch holds up to 64 buffer pointers; the buffers are distinct structures here. Their
  pixels are in the heap, and the resize kernels also change the dimensions.
\<close>

record img_batch =
  bufs :: "img_buffer option list"
  bcount :: u32

definition IMG_BATCH_MAX :: nat where "IMG_BATCH_MAX = 64"

definition kernel_flags :: "img_fused_kernel \<Rightarrow> bool \<times> bool \<times> bool" where
  "kernel_flags k = (case k of
      kernel_none \<Rightarrow> (False, False, False)
    | kernel_gray \<Rightarrow> (True, False, False)
    | kernel_bright \<Rightarrow> (False, True, False)
    | kernel_gray_bright \<Rightarrow> (True, True, False)
    | kernel_gray_resize \<Rightarrow> (True, False, True)
    | kernel_all \<Rightarrow> (True, True, True))"

definition kernel_buf ::
  "bool \<times> bool \<times> bool \<Rightarrow> img_fused_params \<Rightarrow> img_buffer \<Rightarrow> bytes \<Rightarrow> (img_buffer \<times> bytes) option" where
  "kernel_buf fl p buf s =
     (case fl of (do_gray, do_bright, do_resize) \<Rightarrow> do {
        s \<leftarrow> foreach [0..<unat (width buf * height buf * channels buf)]
          (map_byte (fused_px do_gray do_bright (brightness_value p)) 0) s;
        Some (if do_resize then buf\<lparr>width := new_w p, height := new_h p\<rparr> else buf, s) })"

definition define_kernel ::
  "bool \<times> bool \<times> bool \<Rightarrow> img_batch option \<Rightarrow> img_fused_params option \<Rightarrow> heap \<Rightarrow> (img_batch option \<times> heap) option" where
  "define_kernel fl bo po h =
     (case (bo, po) of
        (Some batch, Some p) \<Rightarrow> do {
          (bs, h) \<leftarrow> foreach [0..<unat (bcount batch)] (\<lambda>b (bs, h).
            if b < length bs then
              (case bs ! b of
                 None \<Rightarrow> Some (bs, h)
               | Some buf \<Rightarrow> do {
                   (buf', s) \<leftarrow> kernel_buf fl p buf (h (data buf));
                   Some (bs[b := Some buf'], h(data buf := s)) })
            else None) (bufs batch, h);
          Some (Some (batch\<lparr>bufs := bs\<rparr>), h) }
      | _ \<Rightarrow> Some (bo, h))"

definition run_single :: "img_single_kernel \<Rightarrow> img_fused_params option \<Rightarrow> img_buffer \<Rightarrow> heap \<Rightarrow> heap option" where
  "run_single k po buf h = do {
     p \<leftarrow> po;
     s \<leftarrow> (case k of Fused_exec_avx2 \<Rightarrow> fused_exec_avx2 | Fused_exec_scalar \<Rightarrow> fused_exec_scalar) p buf (h (data buf));
     Some (h(data buf := s)) }"

text \<open>The fallback loop over single images that both batch functions share.\<close>

definition batch_singles :: "img_single_kernel \<Rightarrow> img_fused_params option \<Rightarrow> img_batch \<Rightarrow> heap \<Rightarrow> heap option" where
  "batch_singles k po batch h =
     foreach [0..<unat (bcount batch)] (\<lambda>i h.
       if i < length (bufs batch) then
         (case bufs batch ! i of None \<Rightarrow> Some h | Some buf \<Rightarrow> run_single k po buf h)
       else None) h"

text \<open>
  \<open>img_pipeline_execute_fused_batch\<close> sets \<open>ctx->fused_params\<close> to the global block; the new value
  is the first component of the result.
\<close>

definition img_pipeline_execute_fused_batch ::
  "img_fused_params \<Rightarrow> img_fused_params option \<Rightarrow> img_pipeline_fused option \<Rightarrow> img_batch option \<Rightarrow> heap \<Rightarrow>
   (img_fused_params option \<times> img_batch option \<times> heap) option" where
  "img_pipeline_execute_fused_batch g ctx_params pipe bo h =
     (case (pipe, bo) of
        (Some pp, Some batch) \<Rightarrow>
          if bcount batch = 0 then Some (ctx_params, bo, h)
          else (case fn_batch pp of
              Some k \<Rightarrow> do { (bo, h) \<leftarrow> define_kernel (kernel_flags k) bo (Some g) h; Some (Some g, bo, h) }
            | None \<Rightarrow> do { h \<leftarrow> batch_singles (fn pp) (Some g) batch h; Some (Some g, bo, h) })
      | _ \<Rightarrow> Some (ctx_params, bo, h))"

text \<open>\<open>img_batch_execute_fused\<close> (without its profiling) uses what \<open>ctx->fused_params\<close> holds.\<close>

definition img_batch_execute_fused ::
  "img_fused_params option \<Rightarrow> img_batch option \<Rightarrow> img_pipeline_fused option \<Rightarrow> heap \<Rightarrow> (img_batch option \<times> heap) option" where
  "img_batch_execute_fused ctx_params bo pipe h =
     (case bo of
        None \<Rightarrow> Some (bo, h)
      | Some batch \<Rightarrow>
          if bcount batch = 0 then Some (bo, h)
          else (case pipe of
              None \<Rightarrow> Some (bo, h)
            | Some pp \<Rightarrow>
                (case fn_batch pp of
                   Some k \<Rightarrow> define_kernel (kernel_flags k) bo ctx_params h
                 | None \<Rightarrow> do { h \<leftarrow> batch_singles (fn pp) ctx_params batch h; Some (bo, h) })))"

definition img_pipeline_execute_fused ::
  "img_single_kernel \<Rightarrow> img_fused_params option \<Rightarrow> img_buffer \<Rightarrow> heap \<Rightarrow> (img_fused_params option \<times> heap) option" where
  "img_pipeline_execute_fused k params buf h = do { h \<leftarrow> run_single k params buf h; Some (params, h) }"

section \<open>Bytes\<close>

lemma unat_u32_of_u16 [simp]: "unat (ucast (v :: u16) :: u32) = unat v"
  using unsigned_less [of v, where 'a = nat] by (simp add: unsigned_ucast_eq take_bit_nat_eq_self)

lemma gray_px_nat: "gray_px px = of_nat (unat px * 77 div 256)" "unat px * 77 div 256 < 256"
proof -
  have lt: "unat px < 256" using unat_lt_u8 [of px] by simp
  then have "unat (ucast px * 77 :: u32) = unat px * 77"
    using unat_mult_small [of "ucast px :: u32" 77] by simp
  then have "unat (drop_bit 8 (ucast px * 77 :: u32)) = unat px * 77 div 256"
    by (simp add: unat_drop_bit_eq drop_bit_eq_div unat_div)
  then show "gray_px px = of_nat (unat px * 77 div 256)"
    unfolding gray_px_def by (metis of_nat_unat)
  show "unat px * 77 div 256 < 256" using lt by simp
qed

lemma bright_px_nat: "bright_px v px = of_nat (min 255 (unat px + unat v))"
proof -
  have "unat px < 256" "unat v < 65536"
    using unat_lt_u8 [of px] unsigned_less [of v, where 'a = nat] by simp_all
  then have s: "unat (ucast px + ucast v :: u32) = unat px + unat v"
    by (simp add: unat_add_small)
  have "(ucast (ucast px + ucast v :: u32) :: u8) = of_nat (unat px + unat v)"
    by (metis s of_nat_unat)
  then show ?thesis
    using s by (auto simp: bright_px_def word_less_nat_alt min_def)
qed

text \<open>The word lane of the vector code.\<close>

definition lane :: "img_fused_params \<Rightarrow> u16 \<Rightarrow> u16" where
  "lane p x =
     (let x = (if has_grayscale p then drop_bit 8 (x * 77) else x)
      in if has_brightness p then adds_u16 x (brightness_value p) else x)"

lemma fused_vec_lane:
  assumes "length v = 32"
  shows "fused_vec p v = map (\<lambda>b. sat_u8 (lane p (ucast b))) v"
proof -
  have "fused_vec p v = mm256_packus_epi16 (map (lane p) (mm256_unpacklo_epi8 v)) (map (lane p) (mm256_unpackhi_epi8 v))"
    by (cases "has_grayscale p"; cases "has_brightness p")
       (simp_all add: fused_vec_def lane_def [abs_def] mm256_srli_epi16_def mm256_mullo_epi16_def mm256_adds_epu16_def
          Let_def comp_def)
  then show ?thesis by (simp add: pack_unpack [OF assms])
qed

lemma lane_byte:
  assumes "has_brightness p \<Longrightarrow> unat (brightness_value p) \<le> 32512"
  shows "sat_u8 (lane p (ucast b)) = scalar_px p b"
proof -
  define g where "g = (if has_grayscale p then unat b * 77 div 256 else unat b)"
  have b: "unat b < 256" using unat_lt_u8 [of b] by simp
  then have "unat (ucast b * 77 :: u16) = unat b * 77"
    using unat_mult_small [of "ucast b :: u16" 77] by simp
  then have x: "unat (if has_grayscale p then drop_bit 8 (ucast b * 77) else ucast b :: u16) = g"
    by (simp add: g_def unat_drop_bit_eq drop_bit_eq_div unat_div)
  have g: "g < 256" using b gray_px_nat(2) [of b] by (simp add: g_def)
  have gp: "(if has_grayscale p then gray_px b else b) = of_nat g"
    by (simp add: g_def gray_px_nat(1))
  have gu: "unat (of_nat g :: u8) = g" using g by (simp add: unat_of_nat_small)
  show ?thesis
  proof (cases "has_brightness p")
    case True
    then have v: "g + unat (brightness_value p) < 32768" using assms g by simp
    then have "unat (lane p (ucast b)) = g + unat (brightness_value p)"
      using x True unat_add_small [of "if has_grayscale p then drop_bit 8 (ucast b * 77) else ucast b :: u16" "brightness_value p"]
      by (simp add: lane_def adds_u16_def Let_def)
    then show ?thesis
      using v True gp gu by (simp add: sat_u8_small scalar_px_def fused_px_def bright_px_nat)
  next
    case False
    then have "unat (lane p (ucast b)) = g" using x by (simp add: lane_def)
    then show ?thesis
      using g False gp by (simp add: sat_u8_small scalar_px_def fused_px_def min_absorb2)
  qed
qed

section \<open>Properties\<close>

text \<open>
  C9. The AVX2 kernel of a fused pipeline computes, byte for byte, what the scalar kernel
  computes, on every buffer and also when it faults, as long as the brightness offset is at
  most 32512 and a row is shorter than \<open>2\<^sup>3\<^sup>2 - 32\<close> bytes: unpacking, 16-bit arithmetic,
  saturating packing, the chunk loop and the tail are right together.
\<close>

theorem fused_avx2_eq_scalar:
  assumes "has_brightness p \<longrightarrow> unat (brightness_value p) \<le> 32512"
    and "unat (width buf * channels buf) < 2 ^ 32 - 32"
  shows "fused_exec_avx2 p buf s = fused_exec_scalar p buf s"
proof -
  have "fused_vec p v = map (scalar_px p) v" if "length v = 32" for v
    using lane_byte [of p] assms(1) by (simp add: fused_vec_lane [OF that])
  then have "chunked 32 (map_vec (fused_vec p) row) (map_byte (scalar_px p) row) n s =
      foreach [0..<n] (map_byte (scalar_px p) row) s" for row n s
    by (rule chunked_map_vec)
  then show ?thesis
    using assms(2) by (simp add: fused_exec_avx2_def fused_exec_scalar_def Let_def)
qed

theorem fused_avx2_eq_scalar_witness:
  "fused_exec_avx2 (zero_params\<lparr>has_brightness := True, brightness_value := 100\<rparr>) demo_canvas (replicate 108 200) =
   fused_exec_scalar (zero_params\<lparr>has_brightness := True, brightness_value := 100\<rparr>) demo_canvas (replicate 108 200)"
  by (rule fused_avx2_eq_scalar) (simp_all add: zero_params_def demo_canvas_def)

text \<open>
  Above the bound the vector code goes wrong: the sum is negative as a signed word, and the
  byte becomes 0 where the scalar code saturates to 255.
\<close>

lemma fused_avx2_bright_overflow:
  assumes "p = zero_params\<lparr>has_brightness := True, brightness_value := 40000\<rparr>"
  shows "sat_u8 (lane p (ucast (0 :: u8))) = 0" and "scalar_px p 0 = 255"
  by (simp_all add: assms lane_def adds_u16_def sat_u8_def scalar_px_def fused_px_def bright_px_def zero_params_def)

text \<open>The order of the operations is lost: brightness before grayscale is fused as grayscale first.\<close>

lemma fuse_ignores_order: "fused_px True True 100 200 \<noteq> gray_px (bright_px 100 200)"
  by (simp add: fused_px_def gray_px_def bright_px_def)

text \<open>Rows without padding are one run of bytes.\<close>

lemma rows_flat:
  "foreach [0..<h] (\<lambda>y. foreach [0..<n] (map_byte f (y * n))) s = foreach [0..<h * n] (map_byte f 0) s"
proof (induction h)
  case (Suc h)
  have "[0..<Suc h * n] = [0..<h * n] @ [h * n..<h * n + n]"
    by (simp only: mult_Suc add.commute [of n] upt_add_eq_append [of 0, OF le0])
  moreover have "foreach [h * n..<h * n + n] (map_byte f 0) = foreach [0..<n] (map_byte f (h * n))"
    by (simp add: fun_eq_iff foreach_shift map_byte_def [abs_def])
  moreover have "foreach [0..<Suc h] (\<lambda>y. foreach [0..<n] (map_byte f (y * n))) s =
      Option.bind (foreach [0..<h * n] (map_byte f 0) s) (foreach [0..<n] (map_byte f (h * n)))"
    using Suc by (simp add: foreach_snoc)
  ultimately show ?case by (simp only: foreach_append)
qed simp

text \<open>
  A batch kernel generated from \<open>fused_kernels.inc\<close> whose switches match the fused
  parameters treats a buffer without row padding exactly as the single-image kernel does, and
  in addition sets the new dimensions when it resizes.
\<close>

theorem batch_kernel_eq_single:
  assumes "unat (stride buf) = W buf * unat (channels buf)" and "W buf * H buf * unat (channels buf) < 2 ^ 32"
  shows "kernel_buf (has_grayscale p, has_brightness p, r) p buf s =
    map_option (Pair (if r then buf\<lparr>width := new_w p, height := new_h p\<rparr> else buf)) (fused_exec_scalar p buf s)"
proof (cases "H buf = 0")
  case True
  then have "height buf = 0" by (simp add: unat_eq_zero)
  then show ?thesis by (simp add: kernel_buf_def fused_exec_scalar_def)
next
  case False
  have "W buf * unat (channels buf) * 1 \<le> W buf * unat (channels buf) * H buf"
    using False by (intro mult_le_mono2) simp
  also have "\<dots> = W buf * H buf * unat (channels buf)" by (simp add: ac_simps)
  also note assms(2)
  finally have wc: "unat (width buf * channels buf) = W buf * unat (channels buf)" by (simp add: unat_mult_small)
  have "H buf * unat (width buf * channels buf) < 2 ^ 32"
    using assms(2) by (simp only: wc mult.commute [of "H buf"] mult.assoc mult.left_commute)
  then have "unat (height buf * (width buf * channels buf)) = H buf * unat (width buf * channels buf)"
    by (simp add: unat_mult_small)
  then have whc: "unat (width buf * height buf * channels buf) = H buf * (W buf * unat (channels buf))"
    by (simp only: wc mult.commute [of "height buf"] mult.assoc mult.left_commute)
  have "fused_exec_scalar p buf s = foreach [0..<H buf * (W buf * unat (channels buf))] (map_byte (scalar_px p) 0) s"
    by (simp only: fused_exec_scalar_def wc assms(1) rows_flat)
  then show ?thesis
    by (simp only: kernel_buf_def whc scalar_px_def prod.case map_conv_bind_option comp_def)
qed

theorem batch_kernel_eq_single_witness:
  "kernel_buf (has_grayscale zero_params, has_brightness zero_params, True) zero_params demo_canvas (replicate 108 7) =
    map_option (Pair (demo_canvas\<lparr>width := 0, height := 0\<rparr>)) (fused_exec_scalar zero_params demo_canvas (replicate 108 7))"
  using batch_kernel_eq_single [of demo_canvas zero_params True "replicate 108 7"]
  by (simp add: demo_canvas_def zero_params_def)

definition sig_of :: "bool \<Rightarrow> bool \<Rightarrow> bool \<Rightarrow> u32" where
  "sig_of g b r = (if g then SIG_OP_GRAYSCALE else 0) OR (if b then SIG_OP_BRIGHTNESS else 0) OR (if r then SIG_OP_RESIZE else 0)"

lemma sig_of_or:
  "sig_of g b r OR SIG_OP_GRAYSCALE = sig_of True b r" "sig_of g b r OR SIG_OP_BRIGHTNESS = sig_of g True r"
  "sig_of g b r OR SIG_OP_RESIZE = sig_of g b True" "sig_of False False False = 0"
  by (cases g; cases b; cases r; simp add: sig_of_def sig_defs)+

definition uses :: "u32 \<Rightarrow> img_op_desc list \<Rightarrow> bool" where
  "uses code ds \<longleftrightarrow> (\<exists>d \<in> set ds. op_code d = code)"

lemma opcodes_distinct:
  "OP_GRAYSCALE \<noteq> OP_BRIGHTNESS" "OP_GRAYSCALE \<noteq> OP_RESIZE" "OP_BRIGHTNESS \<noteq> OP_RESIZE"
  by (simp_all add: OP_GRAYSCALE_def OP_BRIGHTNESS_def OP_RESIZE_def)

lemma fuse_op_spec:
  assumes "\<forall>a. rd16 a \<noteq> None" and "\<forall>a i. rd32 a i \<noteq> None"
  shows "\<exists>p' sig'. fuse_op rd16 rd32 d (p, sig_of (has_grayscale p) (has_brightness p) (has_resize p)) = Some (p', sig') \<and>
    has_grayscale p' = (has_grayscale p \<or> op_code d = OP_GRAYSCALE) \<and>
    has_brightness p' = (has_brightness p \<or> op_code d = OP_BRIGHTNESS) \<and>
    has_resize p' = (has_resize p \<or> op_code d = OP_RESIZE) \<and>
    sig' = sig_of (has_grayscale p') (has_brightness p') (has_resize p') \<and>
    sig' = sig_op (op_code d) (sig_of (has_grayscale p) (has_brightness p) (has_resize p))"
proof -
  obtain v a b where "rd16 (op_params d) = Some v" "rd32 (op_params d) 0 = Some a" "rd32 (op_params d) 1 = Some b"
    using assms by (metis not_None_eq)
  then show ?thesis
    using opcodes_distinct by (auto simp: fuse_op_def sig_op_def sig_of_or Let_def)
qed

lemma fuse_loop:
  assumes "\<forall>a. rd16 a \<noteq> None" and "\<forall>a i. rd32 a i \<noteq> None" and "n \<le> length ds"
  shows "\<exists>p. foreach [0..<n] (\<lambda>i st. if i < length ds then fuse_op rd16 rd32 (ds ! i) st else None) (zero_params, 0) =
      Some (p, sig_of (has_grayscale p) (has_brightness p) (has_resize p)) \<and>
    foreach [0..<n] (\<lambda>i sig. if i < length ds then Some (sig_op (op_code (ds ! i)) sig) else None) 0 =
      Some (sig_of (has_grayscale p) (has_brightness p) (has_resize p)) \<and>
    has_grayscale p = uses OP_GRAYSCALE (take n ds) \<and> has_brightness p = uses OP_BRIGHTNESS (take n ds) \<and>
    has_resize p = uses OP_RESIZE (take n ds)"
  using assms(3)
proof (induction n)
  case 0
  then show ?case by (simp add: zero_params_def uses_def sig_of_or)
next
  case (Suc n)
  then obtain p where p: "foreach [0..<n] (\<lambda>i st. if i < length ds then fuse_op rd16 rd32 (ds ! i) st else None) (zero_params, 0) =
      Some (p, sig_of (has_grayscale p) (has_brightness p) (has_resize p))"
    "foreach [0..<n] (\<lambda>i sig. if i < length ds then Some (sig_op (op_code (ds ! i)) sig) else None) 0 =
      Some (sig_of (has_grayscale p) (has_brightness p) (has_resize p))"
    "has_grayscale p = uses OP_GRAYSCALE (take n ds)" "has_brightness p = uses OP_BRIGHTNESS (take n ds)"
    "has_resize p = uses OP_RESIZE (take n ds)"
    by auto
  have n: "n < length ds" using Suc.prems by simp
  obtain p' sig' where "fuse_op rd16 rd32 (ds ! n) (p, sig_of (has_grayscale p) (has_brightness p) (has_resize p)) = Some (p', sig')"
    "has_grayscale p' = (has_grayscale p \<or> op_code (ds ! n) = OP_GRAYSCALE)"
    "has_brightness p' = (has_brightness p \<or> op_code (ds ! n) = OP_BRIGHTNESS)"
    "has_resize p' = (has_resize p \<or> op_code (ds ! n) = OP_RESIZE)"
    "sig' = sig_of (has_grayscale p') (has_brightness p') (has_resize p')"
    "sig' = sig_op (op_code (ds ! n)) (sig_of (has_grayscale p) (has_brightness p) (has_resize p))"
    using fuse_op_spec [OF assms(1,2)] by blast
  then show ?case
    using p n by (intro exI [of _ p']) (auto simp: foreach_snoc uses_def take_Suc_conv_app_nth)
qed

text \<open>
  C27. \<open>img_pipeline_fuse\<close> agrees with \<open>img_pipeline_build_signature\<close>: its flags say which of the
  three operations occur, and the batch kernel it selects has the grayscale and brightness
  switches of these flags. A resize without grayscale is the exception: alone it has no batch
  kernel, and together with brightness the selected kernel does not resize.
\<close>

theorem fuse_selects_kernel:
  assumes "\<forall>a. rd16 a \<noteq> None" and "\<forall>a i. rd32 a i \<noteq> None"
    and "op_count d \<noteq> 0" and "unat (op_count d) \<le> length (ops d)"
  shows "\<exists>p f sig. img_pipeline_fuse avx2 rd16 rd32 g (Some d) (Some f0) = Some (0, p, Some f) \<and>
    img_pipeline_build_signature (Some d) = Some sig \<and> fn_batch f = img_get_fused_kernel sig \<and>
    has_grayscale p = uses OP_GRAYSCALE (take (unat (op_count d)) (ops d)) \<and>
    has_brightness p = uses OP_BRIGHTNESS (take (unat (op_count d)) (ops d)) \<and>
    has_resize p = uses OP_RESIZE (take (unat (op_count d)) (ops d)) \<and>
    map_option kernel_flags (fn_batch f) =
      (if has_resize p \<and> \<not> has_grayscale p \<and> \<not> has_brightness p then None
       else Some (has_grayscale p, has_brightness p, has_resize p \<and> has_grayscale p))"
proof -
  obtain p where p: "foreach [0..<unat (op_count d)] (\<lambda>i st. if i < length (ops d) then fuse_op rd16 rd32 (ops d ! i) st else None)
        (zero_params, 0) = Some (p, sig_of (has_grayscale p) (has_brightness p) (has_resize p))"
    "foreach [0..<unat (op_count d)] (\<lambda>i sig. if i < length (ops d) then Some (sig_op (op_code (ops d ! i)) sig) else None) 0 =
      Some (sig_of (has_grayscale p) (has_brightness p) (has_resize p))"
    "has_grayscale p = uses OP_GRAYSCALE (take (unat (op_count d)) (ops d))"
    "has_brightness p = uses OP_BRIGHTNESS (take (unat (op_count d)) (ops d))"
    "has_resize p = uses OP_RESIZE (take (unat (op_count d)) (ops d))"
    using fuse_loop [OF assms(1,2,4)] by blast
  have "map_option kernel_flags (img_get_fused_kernel (sig_of x y z)) =
      (if z \<and> \<not> x \<and> \<not> y then None else Some (x, y, z \<and> x))" for x y z
    by (cases x; cases y; cases z)
       (simp_all add: sig_of_def sig_defs img_get_fused_kernel_def g_fused_dispatch_def kernel_flags_def word_le_nat_alt)
  then show ?thesis
    using p assms(3) by (simp add: img_pipeline_fuse_def img_pipeline_build_signature_def)
qed

theorem fuse_selects_kernel_witness:
  "\<exists>p f sig. img_pipeline_fuse True (\<lambda>_. Some 7) (\<lambda>_ _. Some 9) zero_params (Some demo_pipe)
      (Some \<lparr>fcount = 0, fn = Fused_exec_scalar, fn_batch = None\<rparr>) = Some (0, p, Some f) \<and>
    img_pipeline_build_signature (Some demo_pipe) = Some sig \<and> fn_batch f = img_get_fused_kernel sig \<and>
    map_option kernel_flags (fn_batch f) = Some (False, True, False)"
  using fuse_selects_kernel [of "\<lambda>_. Some 7" "\<lambda>_ _. Some 9" demo_pipe True zero_params
      "\<lparr>fcount = 0, fn = Fused_exec_scalar, fn_batch = None\<rparr>"]
  by (auto simp: demo_pipe_def uses_def OP_RESIZE_def OP_GRAYSCALE_def OP_BRIGHTNESS_def)

end
