(* ===== verification/Queue_Concurrent.thy ===== *)
theory Queue_Concurrent
  imports Queue_MPMC "HOL-Library.Multiset"
begin

text \<open>
  Any number of threads on the queue of \<open>runtime/queue_mpmc.c\<close>: every load, store and exchange of
  shared memory is a step of its own, and the steps of the threads interleave in every way. A
  relaxed load followed by an acquire load and a release store after plain accesses are taken to
  be seen in this order by all threads. The exchange is the weak one, which may fail at any time.

  The invariant is proved for positions that are natural numbers; the words of the program are
  related to them as long as the counters do not reach \<open>2\<^sup>6\<^sup>2\<close>.
\<close>

section \<open>Threads\<close>

text \<open>
  Where a thread is in \<open>img_mpmc_push\<close> or \<open>img_mpmc_pop\<close>, with its local \<open>pos\<close> and its datum: the
  position is loaded; the sequence number was right; the exchange succeeded; the datum is
  written or read.
\<close>

datatype 'p mpc =
    Idle
  | PLoaded 'p ptr | PChecked 'p ptr | PClaimed 'p ptr | PWritten 'p ptr
  | CLoaded 'p | CChecked 'p | CClaimed 'p | CRead 'p ptr

text \<open>
  The system: the queue, the threads, and two logs of the past: the elements in the order in
  which positions were claimed for them, and what the pops returned, with its position.
\<close>

record mpmc_sys =
  mq :: "ptr img_mpmc_queue"
  thr :: "nat \<Rightarrow> u64 mpc"
  claims :: "ptr list"
  takes :: "(u64 \<times> ptr) list"

definition set_cell :: "nat \<Rightarrow> (ptr cell_t \<Rightarrow> ptr cell_t) \<Rightarrow> ptr img_mpmc_queue \<Rightarrow> ptr img_mpmc_queue" where
  "set_cell i f q = q\<lparr>mcells := (mcells q)[i := f (mcells q ! i)]\<rparr>"

inductive mpmc_step :: "mpmc_sys \<Rightarrow> mpmc_sys \<Rightarrow> bool" where
  push_start: "thr s t = Idle \<Longrightarrow> mpmc_step s (s\<lparr>thr := (thr s)(t := PLoaded (mtail (mq s)) x)\<rparr>)"
| push_check: "thr s t = PLoaded pos x \<Longrightarrow> cell_index (mq s) pos = Some i \<Longrightarrow>
    idiff (seq (mcells (mq s) ! i)) pos = Some 0 \<Longrightarrow> mpmc_step s (s\<lparr>thr := (thr s)(t := PChecked pos x)\<rparr>)"
| push_full: "thr s t = PLoaded pos x \<Longrightarrow> cell_index (mq s) pos = Some i \<Longrightarrow>
    idiff (seq (mcells (mq s) ! i)) pos = Some d \<Longrightarrow> d < 0 \<Longrightarrow> mpmc_step s (s\<lparr>thr := (thr s)(t := Idle)\<rparr>)"
| push_spin: "thr s t = PLoaded pos x \<Longrightarrow> cell_index (mq s) pos = Some i \<Longrightarrow>
    idiff (seq (mcells (mq s) ! i)) pos = Some d \<Longrightarrow> d > 0 \<Longrightarrow>
    mpmc_step s (s\<lparr>thr := (thr s)(t := PLoaded (mtail (mq s)) x)\<rparr>)"
| push_claim: "thr s t = PChecked pos x \<Longrightarrow> mtail (mq s) = pos \<Longrightarrow>
    mpmc_step s (s\<lparr>mq := (mq s)\<lparr>mtail := pos + 1\<rparr>, thr := (thr s)(t := PClaimed pos x), claims := claims s @ [x]\<rparr>)"
| push_retry: "thr s t = PChecked pos x \<Longrightarrow> mpmc_step s (s\<lparr>thr := (thr s)(t := PLoaded (mtail (mq s)) x)\<rparr>)"
| push_write: "thr s t = PClaimed pos x \<Longrightarrow> cell_index (mq s) pos = Some i \<Longrightarrow>
    mpmc_step s (s\<lparr>mq := set_cell i (cdata_update (\<lambda>_. x)) (mq s), thr := (thr s)(t := PWritten pos x)\<rparr>)"
| push_publish: "thr s t = PWritten pos x \<Longrightarrow> cell_index (mq s) pos = Some i \<Longrightarrow>
    mpmc_step s (s\<lparr>mq := set_cell i (seq_update (\<lambda>_. pos + 1)) (mq s), thr := (thr s)(t := Idle)\<rparr>)"
| pop_start: "thr s t = Idle \<Longrightarrow> mpmc_step s (s\<lparr>thr := (thr s)(t := CLoaded (mhead (mq s)))\<rparr>)"
| pop_check: "thr s t = CLoaded pos \<Longrightarrow> cell_index (mq s) pos = Some i \<Longrightarrow>
    idiff (seq (mcells (mq s) ! i)) (pos + 1) = Some 0 \<Longrightarrow> mpmc_step s (s\<lparr>thr := (thr s)(t := CChecked pos)\<rparr>)"
| pop_empty: "thr s t = CLoaded pos \<Longrightarrow> cell_index (mq s) pos = Some i \<Longrightarrow>
    idiff (seq (mcells (mq s) ! i)) (pos + 1) = Some d \<Longrightarrow> d < 0 \<Longrightarrow> mpmc_step s (s\<lparr>thr := (thr s)(t := Idle)\<rparr>)"
| pop_spin: "thr s t = CLoaded pos \<Longrightarrow> cell_index (mq s) pos = Some i \<Longrightarrow>
    idiff (seq (mcells (mq s) ! i)) (pos + 1) = Some d \<Longrightarrow> d > 0 \<Longrightarrow>
    mpmc_step s (s\<lparr>thr := (thr s)(t := CLoaded (mhead (mq s)))\<rparr>)"
| pop_claim: "thr s t = CChecked pos \<Longrightarrow> mhead (mq s) = pos \<Longrightarrow>
    mpmc_step s (s\<lparr>mq := (mq s)\<lparr>mhead := pos + 1\<rparr>, thr := (thr s)(t := CClaimed pos)\<rparr>)"
| pop_retry: "thr s t = CChecked pos \<Longrightarrow> mpmc_step s (s\<lparr>thr := (thr s)(t := CLoaded (mhead (mq s)))\<rparr>)"
| pop_read: "thr s t = CClaimed pos \<Longrightarrow> cell_index (mq s) pos = Some i \<Longrightarrow>
    mpmc_step s (s\<lparr>thr := (thr s)(t := CRead pos (cdata (mcells (mq s) ! i)))\<rparr>)"
| pop_free: "thr s t = CRead pos v \<Longrightarrow> cell_index (mq s) pos = Some i \<Longrightarrow>
    mpmc_step s (s\<lparr>mq := set_cell i (seq_update (\<lambda>_. pos + mmask (mq s) + 1)) (mq s), thr := (thr s)(t := Idle),
      takes := takes s @ [(pos, v)]\<rparr>)"

text \<open>The states after \<open>n\<close> steps.\<close>

inductive mpmc_steps :: "ptr img_mpmc_queue \<Rightarrow> nat \<Rightarrow> mpmc_sys \<Rightarrow> bool" for q where
  start: "mpmc_steps q 0 \<lparr>mq = q, thr = (\<lambda>_. Idle), claims = [], takes = []\<rparr>"
| step: "mpmc_steps q n s \<Longrightarrow> mpmc_step s s' \<Longrightarrow> mpmc_steps q (Suc n) s'"

section \<open>The same over natural numbers\<close>

record ring =
  rhead :: nat
  rtail :: nat
  rseq :: "nat \<Rightarrow> nat"
  rdata :: "nat \<Rightarrow> ptr"
  rthr :: "nat \<Rightarrow> nat mpc"
  rclaims :: "ptr list"
  rtakes :: "(nat \<times> ptr) list"

text \<open>Positions \<open>i\<close> use the cell \<open>i mod N\<close>.\<close>

inductive ring_step :: "nat \<Rightarrow> ring \<Rightarrow> ring \<Rightarrow> bool" for N where
  nop: "rthr s t = Idle \<or> rthr s t = PLoaded p x \<or> rthr s t = PChecked p x \<or> rthr s t = CLoaded p \<or> rthr s t = CChecked p \<Longrightarrow>
    c = Idle \<or> c = PLoaded (rtail s) y \<or> c = CLoaded (rhead s) \<Longrightarrow> ring_step N s (s\<lparr>rthr := (rthr s)(t := c)\<rparr>)"
| p_check: "rthr s t = PLoaded p x \<Longrightarrow> rseq s (p mod N) = p \<Longrightarrow> ring_step N s (s\<lparr>rthr := (rthr s)(t := PChecked p x)\<rparr>)"
| p_claim: "rthr s t = PChecked (rtail s) x \<Longrightarrow>
    ring_step N s (s\<lparr>rtail := rtail s + 1, rthr := (rthr s)(t := PClaimed (rtail s) x), rclaims := rclaims s @ [x]\<rparr>)"
| p_write: "rthr s t = PClaimed p x \<Longrightarrow>
    ring_step N s (s\<lparr>rdata := (rdata s)(p mod N := x), rthr := (rthr s)(t := PWritten p x)\<rparr>)"
| p_publish: "rthr s t = PWritten p x \<Longrightarrow>
    ring_step N s (s\<lparr>rseq := (rseq s)(p mod N := p + 1), rthr := (rthr s)(t := Idle)\<rparr>)"
| c_check: "rthr s t = CLoaded p \<Longrightarrow> rseq s (p mod N) = p + 1 \<Longrightarrow> ring_step N s (s\<lparr>rthr := (rthr s)(t := CChecked p)\<rparr>)"
| c_claim: "rthr s t = CChecked (rhead s) \<Longrightarrow>
    ring_step N s (s\<lparr>rhead := rhead s + 1, rthr := (rthr s)(t := CClaimed (rhead s))\<rparr>)"
| c_read: "rthr s t = CClaimed p \<Longrightarrow> ring_step N s (s\<lparr>rthr := (rthr s)(t := CRead p (rdata s (p mod N)))\<rparr>)"
| c_free: "rthr s t = CRead p v \<Longrightarrow>
    ring_step N s (s\<lparr>rseq := (rseq s)(p mod N := p + N), rthr := (rthr s)(t := Idle), rtakes := rtakes s @ [(p, v)]\<rparr>)"

text \<open>The position a thread has claimed for writing, or for reading.\<close>

fun writes :: "'p mpc \<Rightarrow> 'p option" where
  "writes (PClaimed p x) = Some p"
| "writes (PWritten p x) = Some p"
| "writes _ = None"

fun reads :: "'p mpc \<Rightarrow> 'p option" where
  "reads (CClaimed p) = Some p"
| "reads (CRead p v) = Some p"
| "reads _ = None"

definition writing :: "ring \<Rightarrow> nat \<Rightarrow> bool" where
  "writing s i \<longleftrightarrow> (\<exists>a. writes (rthr s a) = Some i)"

definition reading :: "ring \<Rightarrow> nat \<Rightarrow> bool" where
  "reading s i \<longleftrightarrow> (\<exists>a. reads (rthr s a) = Some i)"

section \<open>The invariant\<close>

text \<open>What holds for a thread, by the point it has reached.\<close>

fun thread_ok :: "nat \<Rightarrow> ring \<Rightarrow> nat mpc \<Rightarrow> bool" where
  "thread_ok N s Idle = True"
| "thread_ok N s (PLoaded p x) = (p \<le> rtail s)"
| "thread_ok N s (PChecked p x) = (p \<le> rtail s \<and> (p = rtail s \<longrightarrow> rseq s (p mod N) = p))"
| "thread_ok N s (PClaimed p x) = (rhead s \<le> p \<and> p < rtail s \<and> rseq s (p mod N) = p \<and> rclaims s ! p = x)"
| "thread_ok N s (PWritten p x) =
    (rhead s \<le> p \<and> p < rtail s \<and> rseq s (p mod N) = p \<and> rclaims s ! p = x \<and> rdata s (p mod N) = x)"
| "thread_ok N s (CLoaded p) = (p \<le> rhead s)"
| "thread_ok N s (CChecked p) = (p \<le> rhead s \<and> (p = rhead s \<longrightarrow> rseq s (p mod N) = p + 1))"
| "thread_ok N s (CClaimed p) =
    (p < rhead s \<and> rtail s \<le> p + N \<and> rseq s (p mod N) = p + 1 \<and> rdata s (p mod N) = rclaims s ! p)"
| "thread_ok N s (CRead p v) = (p < rhead s \<and> rtail s \<le> p + N \<and> rseq s (p mod N) = p + 1 \<and> v = rclaims s ! p)"

definition owners_ok :: "ring \<Rightarrow> bool" where
  "owners_ok s \<longleftrightarrow> (\<forall>a b i. writes (rthr s a) = Some i \<longrightarrow> writes (rthr s b) = Some i \<longrightarrow> a = b) \<and>
     (\<forall>a b i. reads (rthr s a) = Some i \<longrightarrow> reads (rthr s b) = Some i \<longrightarrow> a = b)"

text \<open>A cell is full, free again after a lap, or was never used.\<close>

definition cells_ok :: "nat \<Rightarrow> ring \<Rightarrow> bool" where
  "cells_ok N s \<longleftrightarrow>
     (\<forall>i. rhead s \<le> i \<longrightarrow> i < rtail s \<longrightarrow> \<not> writing s i \<longrightarrow> rseq s (i mod N) = i + 1 \<and> rdata s (i mod N) = rclaims s ! i) \<and>
     (\<forall>i < rhead s. rtail s \<le> i + N \<longrightarrow> \<not> reading s i \<longrightarrow> rseq s (i mod N) = i + N) \<and>
     (\<forall>j < N. rtail s \<le> j \<longrightarrow> rseq s j = j)"

definition takes_ok :: "ring \<Rightarrow> bool" where
  "takes_ok s \<longleftrightarrow> distinct (map fst (rtakes s)) \<and> (\<forall>(i, v) \<in> set (rtakes s). i < rhead s \<and> \<not> reading s i \<and> v = rclaims s ! i) \<and>
     (\<forall>i < rhead s. reading s i \<or> i \<in> fst ` set (rtakes s))"

definition ring_inv :: "nat \<Rightarrow> ring \<Rightarrow> bool" where
  "ring_inv N s \<longleftrightarrow> 2 \<le> N \<and> rhead s \<le> rtail s \<and> rtail s \<le> rhead s + N \<and> length (rclaims s) = rtail s \<and>
     (\<forall>a. thread_ok N s (rthr s a)) \<and> owners_ok s \<and> cells_ok N s \<and> takes_ok s"

lemma ring_invD:
  assumes "ring_inv N s"
  shows "2 \<le> N" "rhead s \<le> rtail s" "rtail s \<le> rhead s + N" "length (rclaims s) = rtail s" "thread_ok N s (rthr s a)"
    "owners_ok s" "cells_ok N s" "takes_ok s"
  using assms by (simp_all add: ring_inv_def)

lemma writesE: "writes c = Some i \<Longrightarrow> thread_ok N s c \<Longrightarrow> rhead s \<le> i \<and> i < rtail s \<and> rseq s (i mod N) = i \<and> (\<exists>x. rclaims s ! i = x)"
  by (cases c) auto

lemma readsE: "reads c = Some i \<Longrightarrow> thread_ok N s c \<Longrightarrow> i < rhead s \<and> rtail s \<le> i + N \<and> rseq s (i mod N) = i + 1"
  by (cases c) auto

lemma writing_pos:
  assumes "ring_inv N s" and "writing s i"
  shows "rhead s \<le> i \<and> i < rtail s \<and> rseq s (i mod N) = i"
  using assms writesE [OF _ ring_invD(5) [OF assms(1)]] by (auto simp: writing_def)

lemma reading_pos:
  assumes "ring_inv N s" and "reading s i"
  shows "i < rhead s \<and> rtail s \<le> i + N \<and> rseq s (i mod N) = i + 1"
  using assms readsE [OF _ ring_invD(5) [OF assms(1)]] by (auto simp: reading_def)

text \<open>A sequence number equal to the tail: the cell is free.\<close>

lemma tail_cell_free:
  assumes "ring_inv N s" and "rseq s (rtail s mod N) = rtail s"
  shows "rtail s < rhead s + N" and "\<not> (N \<le> rtail s \<and> reading s (rtail s - N))"
proof -
  note d = ring_invD [OF assms(1)]
  have lap: "(rtail s - N) mod N = rtail s mod N" if "N \<le> rtail s" using that by (simp add: le_mod_geq)
  show "\<not> (N \<le> rtail s \<and> reading s (rtail s - N))"
    using reading_pos [OF assms(1), of "rtail s - N"] lap assms(2) d(1) by auto
  have "rtail s \<noteq> rhead s + N"
  proof
    assume eq: "rtail s = rhead s + N"
    then have "rseq s (rhead s mod N) = rhead s \<or> rseq s (rhead s mod N) = rhead s + 1"
      using d(1,7) writing_pos [OF assms(1), of "rhead s"] by (cases "writing s (rhead s)") (auto simp: cells_ok_def)
    then show False using assms(2) eq d(1) by auto
  qed
  then show "rtail s < rhead s + N" using d(3) by simp
qed

text \<open>A sequence number one above the head: the cell is full.\<close>

lemma head_cell_full:
  assumes "ring_inv N s" and "rseq s (rhead s mod N) = rhead s + 1"
  shows "rhead s < rtail s" and "\<not> writing s (rhead s)"
proof -
  note d = ring_invD [OF assms(1)]
  show "\<not> writing s (rhead s)" using writing_pos [OF assms(1), of "rhead s"] assms(2) by auto
  have "rhead s \<noteq> rtail s"
  proof
    assume eq: "rhead s = rtail s"
    show False
    proof (cases "rhead s < N")
      case True
      then show False using d(7) eq assms(2) by (auto simp: cells_ok_def)
    next
      case False
      then have lap: "(rhead s - N) mod N = rhead s mod N" by (simp add: le_mod_geq)
      have "rseq s ((rhead s - N) mod N) = rhead s - N + 1 \<or> rseq s ((rhead s - N) mod N) = rhead s - N + N"
        using d(1,7) reading_pos [OF assms(1), of "rhead s - N"] False eq
        by (cases "reading s (rhead s - N)") (auto simp: cells_ok_def)
      then show False using lap assms(2) d(1) False by auto
    qed
  qed
  then show "rhead s < rtail s" using d(2) by simp
qed

section \<open>Every step keeps it\<close>

text \<open>A step of a thread that claims and releases nothing.\<close>

lemma quiet_step:
  assumes "rthr s' = (rthr s)(t := c)" and "writes c = writes (rthr s t)" and "reads c = reads (rthr s t)"
  shows "writing s' = writing s" and "reading s' = reading s" and "owners_ok s \<Longrightarrow> owners_ok s'"
proof -
  have w: "writes (rthr s' a) = writes (rthr s a)" and r: "reads (rthr s' a) = reads (rthr s a)" for a
    using assms by auto
  show "writing s' = writing s" "reading s' = reading s" by (auto simp: writing_def reading_def fun_eq_iff w r)
  show "owners_ok s \<Longrightarrow> owners_ok s'" by (simp add: owners_ok_def w r)
qed

lemma window_inj:
  fixes i p N m :: nat
  assumes "i \<noteq> p" and "i < m" "m \<le> i + N" and "p < m" "m \<le> p + N"
  shows "i mod N \<noteq> p mod N"
proof (cases "N \<le> m")
  case True
  have "i = p" if "i mod N = p mod N"
    using assms True that by (intro lap_inj [of "m - N" i N p]) linarith+
  then show ?thesis using assms(1) by blast
next
  case False
  then show ?thesis using assms by simp
qed

lemma thread_ok_frame:
  assumes "thread_ok N s c" and "rhead s' = rhead s" "rtail s' = rtail s" "rseq s' = rseq s" "rdata s' = rdata s" "rclaims s' = rclaims s"
  shows "thread_ok N s' c"
  using assms by (cases c) auto

lemma local_step:
  assumes inv: "ring_inv N s" and s': "s' = s\<lparr>rthr := (rthr s)(t := c)\<rparr>"
    and wr: "writes c = writes (rthr s t)" "reads c = reads (rthr s t)" and ok: "thread_ok N s c"
  shows "ring_inv N s'"
proof -
  note d = ring_invD [OF inv]
  have q: "writing s' = writing s" "reading s' = reading s" "owners_ok s'"
    using quiet_step [of s' s t c] s' wr d(6) by auto
  have "thread_ok N s' (rthr s' a)" for a
    using thread_ok_frame [of N s "if a = t then c else rthr s a" s'] s' ok d(5) [of a] by auto
  moreover have "cells_ok N s'" using d(7) q s' by (simp add: cells_ok_def)
  moreover have "takes_ok s'" using d(8) q s' by (simp add: takes_ok_def)
  ultimately show ?thesis using d q s' by (simp add: ring_inv_def)
qed

lemma claim_tail:
  assumes inv: "ring_inv N s" and t: "rthr s t = PChecked (rtail s) x"
    and s': "s' = s\<lparr>rtail := rtail s + 1, rthr := (rthr s)(t := PClaimed (rtail s) x), rclaims := rclaims s @ [x]\<rparr>"
  shows "ring_inv N s'"
proof -
  note d = ring_invD [OF inv]
  have free: "rseq s (rtail s mod N) = rtail s" using d(5) [of t] t by simp
  note room = tail_cell_free [OF inv free]
  have ws: "writes (rthr s' a) = (if a = t then Some (rtail s) else writes (rthr s a))" for a using s' by simp
  have wt: "writes (rthr s t) = None" using t by simp
  have w: "writing s' i \<longleftrightarrow> writing s i \<or> i = rtail s" for i
    unfolding writing_def ws using wt by (metis option.distinct(1) option.inject)
  have rs: "reads (rthr s' a) = reads (rthr s a)" for a using s' t by simp
  have r: "reading s' = reading s" by (simp add: reading_def fun_eq_iff rs)
  have old: "rclaims s' ! i = rclaims s ! i" if "i < rtail s" for i using that d(4) s' by (simp add: nth_append)
  have "thread_ok N s' (rthr s' a)" for a
  proof (cases "a = t")
    case True
    then show ?thesis using s' free d by (simp add: nth_append)
  next
    case False
    have "rtail s + 1 \<le> p + N" if "reads (rthr s a) = Some p" for p
    proof -
      have "reading s p" using that by (auto simp: reading_def)
      then show ?thesis using reading_pos [OF inv, of p] room(2) by (cases "rtail s = p + N") auto
    qed
    then show ?thesis
      using d(5) [of a] False s' old d(2) by (cases "rthr s a") simp_all
  qed
  moreover have "owners_ok s'"
  proof -
    have "writes (rthr s a) \<noteq> Some (rtail s)" for a
      using writing_pos [OF inv, of "rtail s"] by (auto simp: writing_def)
    then show ?thesis using d(6) unfolding owners_ok_def ws rs by (metis option.inject)
  qed
  moreover have "cells_ok N s'"
  proof -
    have "rseq s (i mod N) = i + N" if "i < rhead s" "rtail s + 1 \<le> i + N" "\<not> reading s i" for i
      using d(7) that by (simp add: cells_ok_def)
    moreover have "rseq s (i mod N) = i + 1 \<and> rdata s (i mod N) = rclaims s ! i"
      if "rhead s \<le> i" "i < rtail s" "\<not> writing s i" for i
      using d(7) that by (simp add: cells_ok_def)
    moreover have "rseq s j = j" if "j < N" "rtail s \<le> j" for j
      using d(7) that by (simp add: cells_ok_def)
    ultimately show ?thesis using w r old s' by (simp add: cells_ok_def less_Suc_eq)
  qed
  moreover have "takes_ok s'"
    using d(8) r old s' d(2) by (fastforce simp: takes_ok_def)
  ultimately show ?thesis using d room s' by (simp add: ring_inv_def)
qed

lemma claim_head:
  assumes inv: "ring_inv N s" and t: "rthr s t = CChecked (rhead s)"
    and s': "s' = s\<lparr>rhead := rhead s + 1, rthr := (rthr s)(t := CClaimed (rhead s))\<rparr>"
  shows "ring_inv N s'"
proof -
  note d = ring_invD [OF inv]
  have full: "rseq s (rhead s mod N) = rhead s + 1" using d(5) [of t] t by simp
  note item = head_cell_full [OF inv full]
  have rs: "reads (rthr s' a) = (if a = t then Some (rhead s) else reads (rthr s a))" for a using s' by simp
  have rt: "reads (rthr s t) = None" using t by simp
  have r: "reading s' i \<longleftrightarrow> reading s i \<or> i = rhead s" for i
    unfolding reading_def rs using rt by (metis option.distinct(1) option.inject)
  have ws: "writes (rthr s' a) = writes (rthr s a)" for a using s' t by simp
  have w: "writing s' = writing s" by (simp add: writing_def fun_eq_iff ws)
  have data: "rdata s (i mod N) = rclaims s ! i \<and> rseq s (i mod N) = i + 1"
    if "rhead s \<le> i" "i < rtail s" "\<not> writing s i" for i
    using d(7) that by (simp add: cells_ok_def)
  have "thread_ok N s' (rthr s' a)" for a
  proof (cases "a = t")
    case True
    then show ?thesis using s' full item data [of "rhead s"] d(3) by simp
  next
    case False
    have "rhead s \<noteq> p" if "writes (rthr s a) = Some p" for p using item(2) that by (auto simp: writing_def)
    then show ?thesis using d(5) [of a] False s' by (cases "rthr s a") (auto simp: le_Suc_eq Suc_le_eq le_neq_implies_less)
  qed
  moreover have "owners_ok s'"
  proof -
    have "reads (rthr s a) \<noteq> Some (rhead s)" for a
      using reading_pos [OF inv, of "rhead s"] by (auto simp: reading_def)
    then show ?thesis using d(6) unfolding owners_ok_def ws rs by (metis option.inject)
  qed
  moreover have "cells_ok N s'"
  proof -
    have "rseq s (i mod N) = i + N" if "i < rhead s" "rtail s \<le> i + N" "\<not> reading s i" for i
      using d(7) that by (simp add: cells_ok_def)
    moreover have "rseq s j = j" if "j < N" "rtail s \<le> j" for j
      using d(7) that by (simp add: cells_ok_def)
    ultimately show ?thesis using w r data s' by (simp add: cells_ok_def less_Suc_eq)
  qed
  moreover have "takes_ok s'"
    using d(8) r s' by (fastforce simp: takes_ok_def less_Suc_eq)
  ultimately show ?thesis using d item s' by (simp add: ring_inv_def)
qed

text \<open>A thread changes only the cell of the position it owns.\<close>

lemma owned_cell:
  assumes inv: "ring_inv N s" and p: "writing s p \<or> reading s p"
  shows "i < rtail s \<Longrightarrow> rtail s \<le> i + N \<Longrightarrow> i \<noteq> p \<Longrightarrow> i mod N \<noteq> p mod N"
    and "rseq s (rtail s mod N) = rtail s \<Longrightarrow> rtail s mod N \<noteq> p mod N"
    and "rseq s (rhead s mod N) = rhead s + 1 \<Longrightarrow> rhead s mod N \<noteq> p mod N"
proof -
  note d = ring_invD [OF inv]
  have pos: "p < rtail s" "rtail s \<le> p + N" "rseq s (p mod N) = p \<or> rseq s (p mod N) = p + 1"
    using p writing_pos [OF inv, of p] reading_pos [OF inv, of p] d(2,3) by auto
  show other: "i < rtail s \<Longrightarrow> rtail s \<le> i + N \<Longrightarrow> i \<noteq> p \<Longrightarrow> i mod N \<noteq> p mod N" for i
    using window_inj [of i p "rtail s" N] pos(1,2) by blast
  show "rtail s mod N \<noteq> p mod N" if "rseq s (rtail s mod N) = rtail s"
  proof
    assume eq: "rtail s mod N = p mod N"
    then have "rtail s = p + 1" using that pos by auto
    then have "(p + 1) mod N = p mod N" using eq by simp
    then show False using d(1) by (auto simp: mod_Suc split: if_splits)
  qed
  show "rhead s mod N \<noteq> p mod N" if full: "rseq s (rhead s mod N) = rhead s + 1"
  proof -
    have "rhead s \<noteq> p" using head_cell_full [OF inv full] p reading_pos [OF inv, of p] by auto
    then show ?thesis using other [of "rhead s"] head_cell_full [OF inv full] d(3) by simp
  qed
qed

lemma owners_distinct:
  assumes inv: "ring_inv N s" and p: "writes (rthr s t) = Some p \<or> reads (rthr s t) = Some p"
    and q: "writes (rthr s a) = Some q \<or> reads (rthr s a) = Some q" and a: "a \<noteq> t"
  shows "q mod N \<noteq> p mod N"
proof -
  note d = ring_invD [OF inv]
  have own: "writing s p \<or> reading s p" "writing s q \<or> reading s q" using p q by (auto simp: writing_def reading_def)
  have "q \<noteq> p"
  proof
    assume "q = p"
    then have "writes (rthr s a) = Some p \<and> writes (rthr s t) = Some p \<or> reads (rthr s a) = Some p \<and> reads (rthr s t) = Some p"
      using p q writesE [OF _ d(5)] readsE [OF _ d(5)] by (metis leD)
    then show False using d(6) a by (auto simp: owners_ok_def)
  qed
  moreover have "q < rtail s" "rtail s \<le> q + N"
    using own(2) writing_pos [OF inv, of q] reading_pos [OF inv, of q] d(2,3) by auto
  ultimately show ?thesis using owned_cell(1) [OF inv own(1), of q] by simp
qed

lemma cell_step_threads:
  assumes inv: "ring_inv N s" and p: "writes (rthr s t) = Some p \<or> reads (rthr s t) = Some p"
    and same: "rhead s' = rhead s" "rtail s' = rtail s" "rclaims s' = rclaims s"
    and cells: "\<And>c. c \<noteq> p mod N \<Longrightarrow> rseq s' c = rseq s c \<and> rdata s' c = rdata s c"
    and a: "a \<noteq> t"
  shows "thread_ok N s' (rthr s a)"
proof -
  note d = ring_invD [OF inv]
  have own: "writing s p \<or> reading s p" using p by (auto simp: writing_def reading_def)
  have "rseq s' (q mod N) = rseq s (q mod N) \<and> rdata s' (q mod N) = rdata s (q mod N)"
    if "writes (rthr s a) = Some q \<or> reads (rthr s a) = Some q" for q
    using cells owners_distinct [OF inv p that a] by blast
  then show ?thesis
    using d(5) [of a] same owned_cell(2,3) [OF inv own] cells by (cases "rthr s a") auto
qed

lemma cell_step_cells:
  assumes inv: "ring_inv N s" and own: "writing s p \<or> reading s p"
    and cells: "\<And>c. c \<noteq> p mod N \<Longrightarrow> rseq s' c = rseq s c \<and> rdata s' c = rdata s c"
  shows "rhead s \<le> i \<Longrightarrow> i < rtail s \<Longrightarrow> \<not> writing s i \<Longrightarrow> i \<noteq> p \<Longrightarrow>
      rseq s' (i mod N) = i + 1 \<and> rdata s' (i mod N) = rclaims s ! i"
    and "i < rhead s \<Longrightarrow> rtail s \<le> i + N \<Longrightarrow> \<not> reading s i \<Longrightarrow> i \<noteq> p \<Longrightarrow> rseq s' (i mod N) = i + N"
    and "i < N \<Longrightarrow> rtail s \<le> i \<Longrightarrow> rseq s' i = i"
proof -
  note d = ring_invD [OF inv]
  show "rhead s \<le> i \<Longrightarrow> i < rtail s \<Longrightarrow> \<not> writing s i \<Longrightarrow> i \<noteq> p \<Longrightarrow>
      rseq s' (i mod N) = i + 1 \<and> rdata s' (i mod N) = rclaims s ! i"
    using d(3,7) owned_cell(1) [OF inv own, of i] cells [of "i mod N"] by (auto simp: cells_ok_def)
  show "i < rhead s \<Longrightarrow> rtail s \<le> i + N \<Longrightarrow> \<not> reading s i \<Longrightarrow> i \<noteq> p \<Longrightarrow> rseq s' (i mod N) = i + N"
    using d(2,7) owned_cell(1) [OF inv own, of i] cells [of "i mod N"] by (auto simp: cells_ok_def)
  assume i: "i < N" "rtail s \<le> i"
  have "p < rtail s" using own writing_pos [OF inv, of p] reading_pos [OF inv, of p] d(2) by auto
  then have "i \<noteq> p mod N" using i by simp
  then show "rseq s' i = i" using d(7) i cells by (simp add: cells_ok_def)
qed

lemma cells_okI:
  assumes "\<And>i. rhead s \<le> i \<Longrightarrow> i < rtail s \<Longrightarrow> \<not> writing s i \<Longrightarrow> rseq s (i mod N) = i + 1 \<and> rdata s (i mod N) = rclaims s ! i"
    and "\<And>i. i < rhead s \<Longrightarrow> rtail s \<le> i + N \<Longrightarrow> \<not> reading s i \<Longrightarrow> rseq s (i mod N) = i + N"
    and "\<And>i. i < N \<Longrightarrow> rtail s \<le> i \<Longrightarrow> rseq s i = i"
  shows "cells_ok N s"
  using assms by (simp add: cells_ok_def)

lemma write_datum:
  assumes inv: "ring_inv N s" and t: "rthr s t = PClaimed p x"
    and s': "s' = s\<lparr>rdata := (rdata s)(p mod N := x), rthr := (rthr s)(t := PWritten p x)\<rparr>"
  shows "ring_inv N s'"
proof -
  note d = ring_invD [OF inv]
  have own: "writing s p" using t by (auto simp: writing_def intro!: exI [of _ t])
  have q: "writing s' = writing s" "reading s' = reading s" "owners_ok s'"
    using quiet_step [of s' s t "PWritten p x"] s' t d(6) by auto
  have cells: "rseq s' c = rseq s c \<and> rdata s' c = rdata s c" if "c \<noteq> p mod N" for c using s' that by simp
  have "thread_ok N s' (rthr s' a)" for a
    using cell_step_threads [OF inv _ _ _ _ cells, of t p a] d(5) [of t] t s' by (cases "a = t") auto
  moreover have "cells_ok N s'"
  proof (rule cells_okI)
    have eq: "rhead s' = rhead s" "rtail s' = rtail s" "rclaims s' = rclaims s" using s' by simp_all
    note c = cell_step_cells [OF inv disjI1 [OF own] cells, simplified]
    show "rseq s' (i mod N) = i + 1 \<and> rdata s' (i mod N) = rclaims s' ! i"
      if "rhead s' \<le> i" "i < rtail s'" "\<not> writing s' i" for i
      using c(1) [of i] that own unfolding eq q by (cases "i = p") simp_all
    show "rseq s' (i mod N) = i + N" if "i < rhead s'" "rtail s' \<le> i + N" "\<not> reading s' i" for i
      using c(2) [of i] that writing_pos [OF inv own] unfolding eq q by (cases "i = p") simp_all
    show "rseq s' i = i" if "i < N" "rtail s' \<le> i" for i using c(3) [of i] that unfolding eq by simp
  qed
  moreover have "takes_ok s'" using d(8) q s' by (simp add: takes_ok_def)
  ultimately show ?thesis using d q s' by (simp add: ring_inv_def)
qed

lemma publish_cell:
  assumes inv: "ring_inv N s" and t: "rthr s t = PWritten p x"
    and s': "s' = s\<lparr>rseq := (rseq s)(p mod N := p + 1), rthr := (rthr s)(t := Idle)\<rparr>"
  shows "ring_inv N s'"
proof -
  note d = ring_invD [OF inv]
  have own: "writing s p" using t by (auto simp: writing_def intro!: exI [of _ t])
  have ws: "writes (rthr s' a) = (if a = t then None else writes (rthr s a))" for a using s' by simp
  have w: "writing s' i \<longleftrightarrow> writing s i \<and> i \<noteq> p" for i
  proof -
    have "writes (rthr s t) = Some p" using t by simp
    then show ?thesis using d(6) unfolding writing_def ws owners_ok_def by (metis option.distinct(1) option.inject)
  qed
  have rs: "reads (rthr s' a) = reads (rthr s a)" for a using s' t by simp
  have r: "reading s' = reading s" by (simp add: reading_def fun_eq_iff rs)
  have cells: "rseq s' c = rseq s c \<and> rdata s' c = rdata s c" if "c \<noteq> p mod N" for c using s' that by simp
  have "thread_ok N s' (rthr s' a)" for a
    using cell_step_threads [OF inv _ _ _ _ cells, of t p a] t s' by (cases "a = t") auto
  moreover have "owners_ok s'" using d(6) unfolding owners_ok_def ws rs by (metis option.distinct(1))
  moreover have "cells_ok N s'"
  proof (rule cells_okI)
    have eq: "rhead s' = rhead s" "rtail s' = rtail s" "rclaims s' = rclaims s" using s' by simp_all
    have cell: "rseq s' (p mod N) = p + 1" "rdata s' (p mod N) = rclaims s ! p" using s' d(5) [of t] t by simp_all
    note c = cell_step_cells [OF inv disjI1 [OF own] cells, simplified]
    show "rseq s' (i mod N) = i + 1 \<and> rdata s' (i mod N) = rclaims s' ! i"
      if "rhead s' \<le> i" "i < rtail s'" "\<not> writing s' i" for i
      using c(1) [of i] that cell unfolding eq w by (cases "i = p") simp_all
    show "rseq s' (i mod N) = i + N" if "i < rhead s'" "rtail s' \<le> i + N" "\<not> reading s' i" for i
      using c(2) [of i] that writing_pos [OF inv own] unfolding eq r by (cases "i = p") simp_all
    show "rseq s' i = i" if "i < N" "rtail s' \<le> i" for i using c(3) [of i] that unfolding eq by simp
  qed
  moreover have "takes_ok s'" using d(8) r s' by (simp add: takes_ok_def)
  ultimately show ?thesis using d s' by (simp add: ring_inv_def)
qed

lemma free_cell:
  assumes inv: "ring_inv N s" and t: "rthr s t = CRead p v"
    and s': "s' = s\<lparr>rseq := (rseq s)(p mod N := p + N), rthr := (rthr s)(t := Idle), rtakes := rtakes s @ [(p, v)]\<rparr>"
  shows "ring_inv N s'"
proof -
  note d = ring_invD [OF inv]
  have own: "reading s p" using t by (auto simp: reading_def intro!: exI [of _ t])
  have rs: "reads (rthr s' a) = (if a = t then None else reads (rthr s a))" for a using s' by simp
  have r: "reading s' i \<longleftrightarrow> reading s i \<and> i \<noteq> p" for i
  proof -
    have "reads (rthr s t) = Some p" using t by simp
    then show ?thesis using d(6) unfolding reading_def rs owners_ok_def by (metis option.distinct(1) option.inject)
  qed
  have ws: "writes (rthr s' a) = writes (rthr s a)" for a using s' t by simp
  have w: "writing s' = writing s" by (simp add: writing_def fun_eq_iff ws)
  have cells: "rseq s' c = rseq s c \<and> rdata s' c = rdata s c" if "c \<noteq> p mod N" for c using s' that by simp
  have "thread_ok N s' (rthr s' a)" for a
    using cell_step_threads [OF inv _ _ _ _ cells, of t p a] t s' by (cases "a = t") auto
  moreover have "owners_ok s'" using d(6) unfolding owners_ok_def ws rs by (metis option.distinct(1))
  moreover have "cells_ok N s'"
  proof (rule cells_okI)
    have eq: "rhead s' = rhead s" "rtail s' = rtail s" "rclaims s' = rclaims s" using s' by simp_all
    have cell: "rseq s' (p mod N) = p + N" using s' by simp
    note c = cell_step_cells [OF inv disjI2 [OF own] cells, simplified]
    show "rseq s' (i mod N) = i + 1 \<and> rdata s' (i mod N) = rclaims s' ! i"
      if "rhead s' \<le> i" "i < rtail s'" "\<not> writing s' i" for i
      using c(1) [of i] that reading_pos [OF inv own] unfolding eq w by (cases "i = p") simp_all
    show "rseq s' (i mod N) = i + N" if "i < rhead s'" "rtail s' \<le> i + N" "\<not> reading s' i" for i
      using c(2) [of i] that cell unfolding eq r by (cases "i = p") simp_all
    show "rseq s' i = i" if "i < N" "rtail s' \<le> i" for i using c(3) [of i] that unfolding eq by simp
  qed
  moreover have "takes_ok s'"
  proof -
    have "p \<notin> fst ` set (rtakes s)" using d(8) own by (auto simp: takes_ok_def)
    moreover have "p < rhead s" "v = rclaims s ! p" using d(5) [of t] t by simp_all
    ultimately show ?thesis using d(8) r s' by (auto simp: takes_ok_def)
  qed
  ultimately show ?thesis using d s' by (simp add: ring_inv_def)
qed

lemma ring_step_inv:
  assumes "ring_step N s s'" and inv: "ring_inv N s"
  shows "ring_inv N s'"
  using assms(1)
proof cases
  case (nop t p x c y)
  then show ?thesis using ring_invD(2) [OF inv]
    by (intro local_step [OF inv, of _ t c]) auto
next
  case (p_check t p x)
  then show ?thesis using ring_invD(5) [OF inv, of t] by (intro local_step [OF inv, of _ t "PChecked p x"]) auto
next
  case (c_check t p)
  then show ?thesis using ring_invD(5) [OF inv, of t] by (intro local_step [OF inv, of _ t "CChecked p"]) auto
next
  case (c_read t p)
  then show ?thesis using ring_invD(5) [OF inv, of t] by (intro local_step [OF inv, of _ t]) auto
qed (use inv in \<open>blast intro: claim_tail claim_head write_datum publish_cell free_cell\<close>)+

section \<open>The words of the program\<close>

definition ring_of :: "mpmc_sys \<Rightarrow> ring" where
  "ring_of s = \<lparr>rhead = unat (mhead (mq s)), rtail = unat (mtail (mq s)),
     rseq = (\<lambda>c. unat (seq (mcells (mq s) ! c))), rdata = (\<lambda>c. cdata (mcells (mq s) ! c)),
     rthr = (\<lambda>t. map_mpc unat (thr s t)), rclaims = claims s, rtakes = map (map_prod unat id) (takes s)\<rparr>"

lemma ring_of_simps [simp]:
  "rhead (ring_of s) = unat (mhead (mq s))" "rtail (ring_of s) = unat (mtail (mq s))"
  "rseq (ring_of s) c = unat (seq (mcells (mq s) ! c))" "rdata (ring_of s) c = cdata (mcells (mq s) ! c)"
  "rthr (ring_of s) t = map_mpc unat (thr s t)" "rclaims (ring_of s) = claims s"
  "rtakes (ring_of s) = map (map_prod unat id) (takes s)"
  by (simp_all add: ring_of_def)

text \<open>A queue of \<open>N\<close> cells whose mask fits.\<close>

definition cells_fit :: "nat \<Rightarrow> ptr img_mpmc_queue \<Rightarrow> bool" where
  "cells_fit N q \<longleftrightarrow> length (mcells q) = N \<and> N < 2 ^ 62 \<and> unat (mmask q) = N - 1 \<and>
     (\<forall>pos. cell_index q pos = Some (unat pos mod N))"

lemma unat_mask64: "k \<le> 64 \<Longrightarrow> unat (mask k :: u64) = 2 ^ k - 1"
  unfolding unat_eq_nat_uint uint_mask_eq by (simp add: min_def mask_eq_exp_minus_1 nat_diff_distrib nat_power_eq)

lemma fit_of_wf:
  assumes "m_wf n q"
  shows "cells_fit (length (mcells q)) q"
proof -
  obtain k where k: "k < 62" "length (mcells q) = 2 ^ k" "mmask q = mask k" "length (mcells q) < 2 ^ 62"
    "\<And>pos. cell_index q pos = Some (unat pos mod length (mcells q))"
    using assms by (rule m_wfE) blast
  then show ?thesis by (simp add: cells_fit_def unat_mask64)
qed

lemma fit_frame:
  assumes "length (mcells q') = length (mcells q)" and "mmask q' = mmask q"
  shows "cells_fit N q' = cells_fit N q"
  unfolding cells_fit_def cell_index_def assms ..

lemma fit_step:
  assumes "mpmc_step s s'" and "cells_fit N (mq s)"
  shows "cells_fit N (mq s')"
proof -
  have "length (mcells (mq s')) = length (mcells (mq s)) \<and> mmask (mq s') = mmask (mq s)"
    using assms(1) by cases (simp_all add: set_cell_def)
  then show ?thesis using fit_frame assms(2) by blast
qed

lemma seq_bound:
  assumes inv: "ring_inv N s" and c: "c < N"
  shows "rseq s c \<le> rtail s + N"
proof (cases "rtail s \<le> c")
  case True
  then show ?thesis using ring_invD(7) [OF inv] c by (auto simp: cells_ok_def)
next
  case False
  define i where "i = rtail s - 1 - (rtail s - 1 - c) mod N"
  have le: "(rtail s - 1 - c) mod N \<le> rtail s - 1 - c" by (rule mod_less_eq_dividend)
  have "rtail s - 1 - c = (rtail s - 1 - c) div N * N + (rtail s - 1 - c) mod N" by simp
  then have "i = (rtail s - 1 - c) div N * N + c" using False le unfolding i_def by linarith
  then have i: "i mod N = c" using c by simp
  have "(rtail s - 1 - c) mod N < N" using c by (intro mod_less_divisor) simp
  then have w: "i < rtail s" "rtail s \<le> i + N" using False le by (auto simp: i_def)
  have "rseq s (i mod N) \<in> {i, i + 1, i + N}"
    using ring_invD(7) [OF inv] w writing_pos [OF inv, of i] reading_pos [OF inv, of i]
    by (cases "i < rhead s"; cases "writing s i"; cases "reading s i") (auto simp: cells_ok_def)
  then show ?thesis using i w c by auto
qed

lemma thread_pos:
  assumes "ring_inv N s" and "p \<in> set_mpc (rthr s t)"
  shows "p \<le> rtail s"
  using ring_invD(2) [OF assms(1)] ring_invD(5) [OF assms(1), of t] assms(2) by (cases "rthr s t") auto

lemma diff_zero:
  assumes "unat a < 2 ^ 63" and "unat b < 2 ^ 63" and "idiff a b = Some 0"
  shows "unat a = unat b"
  using assms(3) unfolding idiff_small [OF assms(1,2)] by (auto dest: word_uint_eqI)

lemma ring_of_thr:
  "ring_of (s\<lparr>thr := (thr s)(t := c)\<rparr>) = (ring_of s)\<lparr>rthr := (rthr (ring_of s))(t := map_mpc unat c)\<rparr>"
  by (simp add: ring_of_def fun_eq_iff)

lemma sim_step:
  assumes step: "mpmc_step s s'" and fit: "cells_fit N (mq s)" and inv: "ring_inv N (ring_of s)"
    and small: "unat (mtail (mq s)) < 2 ^ 61"
  shows "ring_step N (ring_of s) (ring_of s')"
proof -
  have N: "2 \<le> N" "N < 2 ^ 62" "length (mcells (mq s)) = N" "unat (mmask (mq s)) = N - 1"
    "\<And>pos. cell_index (mq s) pos = Some (unat pos mod N)"
    using fit ring_invD(1) [OF inv] by (auto simp: cells_fit_def)
  have pow: "(2 :: nat) ^ 61 + 2 ^ 62 < 2 ^ 63" by simp
  have seq: "unat (seq (mcells (mq s) ! (i mod N))) < 2 ^ 63" for i
    using seq_bound [OF inv, of "i mod N"] N(1,2) small pow by auto
  have pos: "unat p < 2 ^ 61" if "p \<in> set_mpc (thr s t)" for p t
    using thread_pos [OF inv, of "unat p" t] that small by (simp add: mpc.set_map)
  have less: "i mod N < N" for i using N(1) by (intro mod_less_divisor) simp
  have hd: "unat (mhead (mq s)) < 2 ^ 61" using ring_invD(2) [OF inv] small by simp
  show ?thesis
    using step
  proof cases
    case (push_start t x)
    then show ?thesis
      using ring_step.nop [of "ring_of s" t 0 x "PLoaded (unat (mtail (mq s))) x" x N] by (simp add: ring_of_thr)
  next
    case (push_check t pos x i)
    then have "unat (seq (mcells (mq s) ! (unat pos mod N))) = unat pos"
      using diff_zero [OF seq, of pos "unat pos"] pos [of pos t] N(5) by simp
    then show ?thesis
      using push_check ring_step.p_check [of "ring_of s" t "unat pos" x N] by (simp add: ring_of_thr)
  next
    case (push_full t pos x i d)
    then show ?thesis
      using ring_step.nop [of "ring_of s" t "unat pos" x Idle x N] by (simp add: ring_of_thr)
  next
    case (push_spin t pos x i d)
    then show ?thesis
      using ring_step.nop [of "ring_of s" t "unat pos" x "PLoaded (unat (mtail (mq s))) x" x N] by (simp add: ring_of_thr)
  next
    case (push_claim t pos x)
    then have "unat (pos + 1) = unat pos + 1" using pos [of pos t] by (intro unat_succ) simp
    then have "ring_of s' = (ring_of s)\<lparr>rtail := rtail (ring_of s) + 1,
        rthr := (rthr (ring_of s))(t := PClaimed (rtail (ring_of s)) x), rclaims := rclaims (ring_of s) @ [x]\<rparr>"
      using push_claim by (intro ring.equality) (simp_all add: ring_of_def fun_eq_iff)
    then show ?thesis using push_claim ring_step.p_claim [of "ring_of s" t x N] by simp
  next
    case (push_retry t pos x)
    then show ?thesis
      using ring_step.nop [of "ring_of s" t "unat pos" x "PLoaded (unat (mtail (mq s))) x" x N] by (simp add: ring_of_thr)
  next
    case (push_write t pos x i)
    then have i: "i = unat pos mod N" "i < length (mcells (mq s))" using N(3,5) less by auto
    have "ring_of s' = (ring_of s)\<lparr>rdata := (rdata (ring_of s))(unat pos mod N := x),
        rthr := (rthr (ring_of s))(t := PWritten (unat pos) x)\<rparr>"
      using push_write i by (intro ring.equality) (auto simp: ring_of_def fun_eq_iff set_cell_def nth_list_update)
    then show ?thesis using push_write ring_step.p_write [of "ring_of s" t "unat pos" x N] by simp
  next
    case (push_publish t pos x i)
    then have i: "i = unat pos mod N" "i < length (mcells (mq s))" using N(3,5) less by auto
    have "unat (pos + 1) = unat pos + 1" using pos [of pos t] push_publish by (intro unat_succ) simp
    then have "ring_of s' = (ring_of s)\<lparr>rseq := (rseq (ring_of s))(unat pos mod N := unat pos + 1),
        rthr := (rthr (ring_of s))(t := Idle)\<rparr>"
      using push_publish i by (intro ring.equality) (auto simp: ring_of_def fun_eq_iff set_cell_def nth_list_update)
    then show ?thesis using push_publish ring_step.p_publish [of "ring_of s" t "unat pos" x N] by simp
  next
    case (pop_start t)
    then show ?thesis
      using ring_step.nop [of "ring_of s" t 0 0 "CLoaded (unat (mhead (mq s)))" 0 N] by (simp add: ring_of_thr)
  next
    case (pop_check t pos i)
    then have p1: "unat (pos + 1) = unat pos + 1" using pos [of pos t] by (intro unat_succ) simp
    then have "unat (seq (mcells (mq s) ! (unat pos mod N))) = unat pos + 1"
      using diff_zero [OF seq, of "pos + 1" "unat pos"] pos [of pos t] N(5) pop_check by simp
    then show ?thesis
      using pop_check ring_step.c_check [of "ring_of s" t "unat pos" N] by (simp add: ring_of_thr)
  next
    case (pop_empty t pos i d)
    then show ?thesis
      using ring_step.nop [of "ring_of s" t "unat pos" 0 Idle 0 N] by (simp add: ring_of_thr)
  next
    case (pop_spin t pos i d)
    then show ?thesis
      using ring_step.nop [of "ring_of s" t "unat pos" 0 "CLoaded (unat (mhead (mq s)))" 0 N] by (simp add: ring_of_thr)
  next
    case (pop_claim t pos)
    then have "unat (pos + 1) = unat pos + 1" using pos [of pos t] by (intro unat_succ) simp
    then have "ring_of s' = (ring_of s)\<lparr>rhead := rhead (ring_of s) + 1,
        rthr := (rthr (ring_of s))(t := CClaimed (rhead (ring_of s)))\<rparr>"
      using pop_claim by (intro ring.equality) (simp_all add: ring_of_def fun_eq_iff)
    then show ?thesis using pop_claim ring_step.c_claim [of "ring_of s" t N] by simp
  next
    case (pop_retry t pos)
    then show ?thesis
      using ring_step.nop [of "ring_of s" t "unat pos" 0 "CLoaded (unat (mhead (mq s)))" 0 N] by (simp add: ring_of_thr)
  next
    case (pop_read t pos i)
    then show ?thesis
      using N(5) ring_step.c_read [of "ring_of s" t "unat pos" N] by (simp add: ring_of_thr)
  next
    case (pop_free t pos v i)
    then have i: "i = unat pos mod N" "i < length (mcells (mq s))" using N(3,5) less by auto
    have lt: "unat pos < 2 ^ 61" using pos [of pos t] pop_free by simp
    have "unat (pos + mmask (mq s)) = unat pos + (N - 1)"
      using lt N(2,4) pow by (subst unat_add_small) auto
    then have "unat (pos + mmask (mq s) + 1) = unat pos + N"
      using lt N(1,2) pow by (subst unat_add_small) auto
    then have "ring_of s' = (ring_of s)\<lparr>rseq := (rseq (ring_of s))(unat pos mod N := unat pos + N),
        rthr := (rthr (ring_of s))(t := Idle), rtakes := rtakes (ring_of s) @ [(unat pos, v)]\<rparr>"
      using pop_free i by (intro ring.equality) (auto simp: ring_of_def fun_eq_iff set_cell_def nth_list_update)
    then show ?thesis using pop_free ring_step.c_free [of "ring_of s" t "unat pos" v N] by simp
  qed
qed

section \<open>Properties\<close>

lemma init_fresh:
  assumes "img_mpmc_init alloc (Some q0) k = Some (0, Some q)"
  shows "mhead q = 0" and "mtail q = 0"
  using assms by (auto simp: img_mpmc_init_def Let_def split: if_splits bind_splits)

lemma fresh_inv:
  assumes wf: "m_wf n q" and "mhead q = 0" "mtail q = 0"
  shows "ring_inv (length (mcells q)) (ring_of \<lparr>mq = q, thr = (\<lambda>_. Idle), claims = [], takes = []\<rparr>)"
proof -
  have "2 \<le> length (mcells q)" using wf by (rule m_wfE)
  moreover have "unat (seq (mcells q ! i)) = i" if "i < length (mcells q)" for i
    using m_wfD [OF wf, of i] that assms(2,3) by simp
  ultimately show ?thesis
    using assms(2,3) by (simp add: ring_inv_def owners_ok_def cells_ok_def takes_ok_def)
qed

lemma mpmc_steps_inv:
  assumes "mpmc_steps q n s" and wf: "m_wf m q" "mhead q = 0" "mtail q = 0" and "n \<le> 2 ^ 61"
  shows "ring_inv (length (mcells q)) (ring_of s) \<and> cells_fit (length (mcells q)) (mq s) \<and> unat (mtail (mq s)) \<le> n"
  using assms(1,5)
proof (induction rule: mpmc_steps.induct)
  case start
  then show ?case using fresh_inv [OF wf] fit_of_wf [OF wf(1)] wf(3) by simp
next
  case (step n s s')
  then have IH: "ring_inv (length (mcells q)) (ring_of s)" "cells_fit (length (mcells q)) (mq s)" "unat (mtail (mq s)) \<le> n"
    by simp_all
  then have lt: "unat (mtail (mq s)) < 2 ^ 61" using step.prems by simp
  have "unat (mtail (mq s')) \<le> Suc n"
    using step.hyps(2) IH(3) lt
    by cases (auto simp: set_cell_def unat_succ)
  then show ?case
    using ring_step_inv [OF sim_step [OF step.hyps(2) IH(2,1) lt] IH(1)] fit_step [OF step.hyps(2) IH(2)] by simp
qed

lemma init_steps_inv:
  assumes "img_mpmc_init (\<lambda>_. True) (Some q0) k = Some (0, Some q)" and "2 \<le> unat k" and "unat k \<le> 2 ^ 40"
    and "mpmc_steps q n s" and "n \<le> 2 ^ 61"
  shows "ring_inv (length (mcells q)) (ring_of s) \<and> cells_fit (length (mcells q)) (mq s) \<and> unat (mtail (mq s)) \<le> 2 ^ 61"
proof -
  obtain q' j where q': "img_mpmc_init (\<lambda>_. True) (Some q0) k = Some (0, Some q')" "m_wf (2 ^ 61) q'"
    using mpmc_init_wf [OF assms(2,3), of q0] by metis
  then have "m_wf (2 ^ 61) q" using assms(1) by simp
  from mpmc_steps_inv [OF assms(4) this init_fresh [OF assms(1)] assms(5)] assms(5) show ?thesis by simp
qed

text \<open>The cell a thread is about to access with plain reads and writes, and the test it will compute.\<close>

fun plain_cell :: "ptr img_mpmc_queue \<Rightarrow> u64 mpc \<Rightarrow> nat option" where
  "plain_cell q (PClaimed pos x) = cell_index q pos"
| "plain_cell q (PWritten pos x) = cell_index q pos"
| "plain_cell q (CClaimed pos) = cell_index q pos"
| "plain_cell q (CRead pos v) = cell_index q pos"
| "plain_cell q _ = None"

fun step_defined :: "ptr img_mpmc_queue \<Rightarrow> u64 mpc \<Rightarrow> bool" where
  "step_defined q (PLoaded pos x) =
     (case cell_index q pos of None \<Rightarrow> False | Some i \<Rightarrow> idiff (seq (mcells q ! i)) pos \<noteq> None)"
| "step_defined q (CLoaded pos) =
     (case cell_index q pos of None \<Rightarrow> False | Some i \<Rightarrow> idiff (seq (mcells q ! i)) (pos + 1) \<noteq> None)"
| "step_defined q (PClaimed pos x) = (cell_index q pos \<noteq> None)"
| "step_defined q (PWritten pos x) = (cell_index q pos \<noteq> None)"
| "step_defined q (CClaimed pos) = (cell_index q pos \<noteq> None)"
| "step_defined q (CRead pos v) = (cell_index q pos \<noteq> None)"
| "step_defined q _ = True"

lemma plain_cell_owner:
  assumes "plain_cell q c = Some i" and "\<And>pos. cell_index q pos = Some (unat pos mod N)"
  shows "\<exists>p. i = p mod N \<and> (writes (map_mpc unat c) = Some p \<or> reads (map_mpc unat c) = Some p)"
  using assms by (cases c) auto

text \<open>
  C34. Any number of threads pushing and popping one multi-producer queue, created with a size from
  2 to \<open>2\<^sup>4\<^sup>0\<close> (the program uses 1024), interleaved in every way, for up to \<open>2\<^sup>6\<^sup>1\<close> steps: every access is inside the array of cells and every comparison of a
  sequence number is defined, and no two threads ever are between claiming and releasing the same
  cell, so the plain accesses to its datum never race.
\<close>

theorem mpmc_race_free:
  assumes "img_mpmc_init (\<lambda>_. True) (Some q0) k = Some (0, Some q)" and "2 \<le> unat k" and "unat k \<le> 2 ^ 40"
    and "mpmc_steps q n s" and "n \<le> 2 ^ 61"
  shows "step_defined (mq s) (thr s a) \<and>
    (a \<noteq> b \<longrightarrow> plain_cell (mq s) (thr s a) = Some i \<longrightarrow> plain_cell (mq s) (thr s b) \<noteq> Some i)"
proof -
  let ?N = "length (mcells q)"
  have inv: "ring_inv ?N (ring_of s)" and fit: "cells_fit ?N (mq s)" and t: "unat (mtail (mq s)) \<le> 2 ^ 61"
    using init_steps_inv [OF assms] by simp_all
  have N: "2 \<le> ?N" "?N < 2 ^ 62" "\<And>pos. cell_index (mq s) pos = Some (unat pos mod ?N)"
    using fit ring_invD(1) [OF inv] by (auto simp: cells_fit_def)
  have pow: "(2 :: nat) ^ 61 + 2 ^ 62 < 2 ^ 63" by simp
  have seq: "unat (seq (mcells (mq s) ! (j mod ?N))) < 2 ^ 63" for j
  proof -
    have "j mod ?N < ?N" using N(1) by (intro mod_less_divisor) linarith
    then show ?thesis using seq_bound [OF inv, of "j mod ?N"] N(2) t pow by simp
  qed
  have pos: "unat p \<le> 2 ^ 61" if "p \<in> set_mpc (thr s u)" for p u
    using thread_pos [OF inv, of "unat p" u] that t by (simp add: mpc.set_map)
  have "step_defined (mq s) (thr s a)"
  proof -
    have "idiff (seq (mcells (mq s) ! (unat p mod ?N))) p \<noteq> None \<and> idiff (seq (mcells (mq s) ! (unat p mod ?N))) (p + 1) \<noteq> None"
      if "p \<in> set_mpc (thr s a)" for p
      using pos [OF that] idiff_small [OF seq] unat_succ [of p] by simp
    then show ?thesis using N(3) by (cases "thr s a") auto
  qed
  moreover have "plain_cell (mq s) (thr s b) \<noteq> Some i" if ab: "a \<noteq> b" "plain_cell (mq s) (thr s a) = Some i"
  proof
    assume "plain_cell (mq s) (thr s b) = Some i"
    then obtain p p' where "i = p mod ?N" "writes (rthr (ring_of s) a) = Some p \<or> reads (rthr (ring_of s) a) = Some p"
      and "i = p' mod ?N" "writes (rthr (ring_of s) b) = Some p' \<or> reads (rthr (ring_of s) b) = Some p'"
      using plain_cell_owner [OF _ N(3)] ab(2) by (metis ring_of_simps(5))
    then show False using owners_distinct [OF inv, of a p b p'] ab(1) by auto
  qed
  ultimately show ?thesis by blast
qed

text \<open>Two producers that read the same tail; one has claimed the cell.\<close>

lemma two_producers:
  assumes "img_mpmc_init (\<lambda>_. True) (Some q0) 2 = Some (0, Some q)"
  shows "mpmc_steps q 2 \<lparr>mq = q, thr = (\<lambda>_. Idle)(0 := PLoaded 0 7, 1 := PLoaded 0 8), claims = [], takes = []\<rparr>"
proof -
  let ?s0 = "\<lparr>mq = q, thr = (\<lambda>_. Idle), claims = [], takes = []\<rparr>"
  let ?s1 = "?s0\<lparr>thr := (\<lambda>_. Idle)(0 := PLoaded (mtail q) 7)\<rparr>"
  have "mpmc_steps q (Suc 0) ?s1"
    using mpmc_steps.step [OF mpmc_steps.start mpmc_step.push_start [of ?s0 0 7]] by simp
  from mpmc_steps.step [OF this mpmc_step.push_start [of ?s1 1 8]]
  show ?thesis using init_fresh [OF assms] by (simp add: numeral_2_eq_2)
qed

theorem mpmc_race_free_witness:
  "\<exists>q (s :: mpmc_sys). img_mpmc_init (\<lambda>_. True) (Some blank_mpmc) 2 = Some (0, Some q) \<and> mpmc_steps q 2 s \<and>
    thr s 0 = PLoaded 0 7 \<and> thr s 1 = PLoaded 0 8 \<and> step_defined (mq s) (thr s 0) \<and>
    (0 \<noteq> (1 :: nat) \<longrightarrow> plain_cell (mq s) (thr s 0) = Some 0 \<longrightarrow> plain_cell (mq s) (thr s 1) \<noteq> Some 0)"
proof -
  obtain q where q: "img_mpmc_init (\<lambda>_. True) (Some blank_mpmc) 2 = Some (0, Some q)"
    using mpmc_init_wf [of 2 blank_mpmc] by auto
  show ?thesis
    by (rule exI [of _ q], rule exI, intro conjI,
        rule q, rule two_producers [OF q], simp, simp,
        use mpmc_race_free [OF q _ _ two_producers [OF q], of 0 1 0] in simp_all)
qed

text \<open>
  C5. The same threads on such a queue lose and duplicate nothing, and keep the order in which the elements were
  claimed: every position below \<open>head\<close> has been taken exactly once or is being read, each pop returns
  the element pushed at its position, and when no thread is inside an operation the elements
  popped are exactly the first ones pushed.
\<close>

theorem mpmc_concurrent_fifo:
  assumes "img_mpmc_init (\<lambda>_. True) (Some q0) k = Some (0, Some q)" and "2 \<le> unat k" and "unat k \<le> 2 ^ 40"
    and "mpmc_steps q n s" and "n \<le> 2 ^ 61"
  shows "unat (mtail (mq s)) = length (claims s) \<and> unat (mhead (mq s)) \<le> length (claims s) \<and>
    length (claims s) \<le> unat (mhead (mq s)) + length (mcells q) \<and> distinct (map fst (takes s)) \<and>
    (\<forall>(pos, v) \<in> set (takes s). pos < mhead (mq s) \<and> v = claims s ! unat pos) \<and>
    (\<forall>pos < mhead (mq s). pos \<in> fst ` set (takes s) \<or> (\<exists>a v. thr s a = CClaimed pos \<or> thr s a = CRead pos v)) \<and>
    ((\<forall>a. thr s a = Idle) \<longrightarrow> mset (map snd (takes s)) = mset (take (unat (mhead (mq s))) (claims s)))"
proof -
  let ?N = "length (mcells q)" and ?h = "unat (mhead (mq s))" and ?pos = "\<lambda>x :: u64 \<times> ptr. unat (fst x)"
  have inv: "ring_inv ?N (ring_of s)" using init_steps_inv [OF assms] by simp
  have d: "?h \<le> unat (mtail (mq s))" "unat (mtail (mq s)) \<le> ?h + ?N" "length (claims s) = unat (mtail (mq s))"
    using ring_invD(2,3,4) [OF inv] by simp_all
  have T: "distinct (map ?pos (takes s))" "\<And>pos v. (pos, v) \<in> set (takes s) \<Longrightarrow> unat pos < ?h \<and> v = claims s ! unat pos"
    "\<And>i. i < ?h \<Longrightarrow> reading (ring_of s) i \<or> i \<in> ?pos ` set (takes s)"
    using ring_invD(8) [OF inv] by (fastforce simp: takes_ok_def comp_def image_image)+
  have "distinct (map fst (takes s))"
    using T(1) by (metis (mono_tags, lifting) distinct_map inj_on_def)
  moreover have "pos < mhead (mq s) \<and> v = claims s ! unat pos" if "(pos, v) \<in> set (takes s)" for pos v
    using T(2) [OF that] by (simp add: word_less_nat_alt)
  moreover have "pos \<in> fst ` set (takes s) \<or> (\<exists>a v. thr s a = CClaimed pos \<or> thr s a = CRead pos v)"
    if lt: "pos < mhead (mq s)" for pos
  proof (cases "reading (ring_of s) (unat pos)")
    case True
    then obtain a where "reads (map_mpc unat (thr s a)) = Some (unat pos)" by (auto simp: reading_def)
    then have "thr s a = CClaimed pos \<or> (\<exists>v. thr s a = CRead pos v)"
      by (cases "thr s a") (auto intro: unsigned_word_eqI)
    then show ?thesis by blast
  next
    case False
    then obtain x where "x \<in> set (takes s)" "unat (fst x) = unat pos"
      using T(3) [of "unat pos"] lt False unfolding word_less_nat_alt by fastforce
    then show ?thesis by (auto dest: unsigned_word_eqI)
  qed
  moreover have "mset (map snd (takes s)) = mset (take ?h (claims s))" if idle: "\<forall>a. thr s a = Idle"
  proof -
    have "set (map ?pos (takes s)) = set [0..<?h]"
      using T(2,3) idle by (fastforce simp: reading_def)
    then have perm: "mset (map ?pos (takes s)) = mset [0..<?h]"
      using T(1) set_eq_iff_mset_eq_distinct [of "map ?pos (takes s)" "[0..<?h]"] by simp
    have "map snd (takes s) = map ((!) (claims s)) (map ?pos (takes s))"
      using T(2) by auto
    then have "mset (map snd (takes s)) = image_mset ((!) (claims s)) (mset (map ?pos (takes s)))"
      by (simp only: mset_map)
    also have "\<dots> = mset (map ((!) (claims s)) [0..<?h])"
      unfolding perm by (simp only: mset_map)
    also have "map ((!) (claims s)) [0..<?h] = take ?h (claims s)"
      using d(1,3) by (intro nth_equalityI) simp_all
    finally show ?thesis .
  qed
  ultimately show ?thesis using d by auto
qed

text \<open>One thread pushes 7 and another pops it.\<close>

definition two_cells :: "u64 \<Rightarrow> u64 \<Rightarrow> u64 \<Rightarrow> ptr \<Rightarrow> ptr img_mpmc_queue" where
  "two_cells h t s x = \<lparr>msize = 2, mmask = 1, mcells = [\<lparr>seq = s, cdata = x\<rparr>, \<lparr>seq = 1, cdata = NULL\<rparr>], mhead = h, mtail = t\<rparr>"

lemma init_two: "img_mpmc_init (\<lambda>_. True) (Some blank_mpmc) 2 = Some (0, Some (two_cells 0 0 0 NULL))"
proof -
  have "pow2_loop 2 2 = Some (2 :: u64)" by (subst pow2_loop.simps) simp
  then have "pow2_loop 1 2 = Some (2 :: u64)" by (subst pow2_loop.simps) simp
  then show ?thesis by (simp add: img_mpmc_init_def align_pow2_def blank_mpmc_def two_cells_def upt_rec)
qed

lemma push_then_pop:
  "mpmc_steps (two_cells 0 0 0 NULL) 10
    \<lparr>mq = two_cells 1 1 2 7, thr = (\<lambda>_. Idle), claims = [7], takes = [(0, 7)]\<rparr>"
proof -
  define st where "st h t s x c cl tk = \<lparr>mq = two_cells h t s x, thr = (\<lambda>_. Idle)(0 := c), claims = cl, takes = tk\<rparr>"
    for h t s x c cl tk
  let ?q = "two_cells 0 0 0 NULL"
  note go = mpmc_steps.step [where q = ?q]
  note ev = st_def two_cells_def cell_index_def idiff_def set_cell_def
  have "mpmc_steps ?q 0 (st 0 0 0 NULL Idle [] [])"
    using mpmc_steps.start [of ?q] by (simp add: st_def fun_upd_idem)
  from go [OF this, of "st 0 0 0 NULL (PLoaded 0 7) [] []"]
  have "mpmc_steps ?q 1 (st 0 0 0 NULL (PLoaded 0 7) [] [])"
    using mpmc_step.push_start [of "st 0 0 0 NULL Idle [] []" 0 7] by (simp add: ev eval_nat_numeral)
  from go [OF this, of "st 0 0 0 NULL (PChecked 0 7) [] []"]
  have "mpmc_steps ?q 2 (st 0 0 0 NULL (PChecked 0 7) [] [])"
    using mpmc_step.push_check [of "st 0 0 0 NULL (PLoaded 0 7) [] []" 0 0 7 0] by (simp add: ev eval_nat_numeral)
  from go [OF this, of "st 0 1 0 NULL (PClaimed 0 7) [7] []"]
  have "mpmc_steps ?q 3 (st 0 1 0 NULL (PClaimed 0 7) [7] [])"
    using mpmc_step.push_claim [of "st 0 0 0 NULL (PChecked 0 7) [] []" 0 0 7] by (simp add: ev eval_nat_numeral)
  from go [OF this, of "st 0 1 0 7 (PWritten 0 7) [7] []"]
  have "mpmc_steps ?q 4 (st 0 1 0 7 (PWritten 0 7) [7] [])"
    using mpmc_step.push_write [of "st 0 1 0 NULL (PClaimed 0 7) [7] []" 0 0 7 0] by (simp add: ev eval_nat_numeral)
  from go [OF this, of "st 0 1 1 7 Idle [7] []"]
  have "mpmc_steps ?q 5 (st 0 1 1 7 Idle [7] [])"
    using mpmc_step.push_publish [of "st 0 1 0 7 (PWritten 0 7) [7] []" 0 0 7 0] by (simp add: ev eval_nat_numeral)
  from go [OF this, of "st 0 1 1 7 (CLoaded 0) [7] []"]
  have "mpmc_steps ?q 6 (st 0 1 1 7 (CLoaded 0) [7] [])"
    using mpmc_step.pop_start [of "st 0 1 1 7 Idle [7] []" 0] by (simp add: ev eval_nat_numeral)
  from go [OF this, of "st 0 1 1 7 (CChecked 0) [7] []"]
  have "mpmc_steps ?q 7 (st 0 1 1 7 (CChecked 0) [7] [])"
    using mpmc_step.pop_check [of "st 0 1 1 7 (CLoaded 0) [7] []" 0 0 0] by (simp add: ev eval_nat_numeral)
  from go [OF this, of "st 1 1 1 7 (CClaimed 0) [7] []"]
  have "mpmc_steps ?q 8 (st 1 1 1 7 (CClaimed 0) [7] [])"
    using mpmc_step.pop_claim [of "st 0 1 1 7 (CChecked 0) [7] []" 0 0] by (simp add: ev eval_nat_numeral)
  from go [OF this, of "st 1 1 1 7 (CRead 0 7) [7] []"]
  have "mpmc_steps ?q 9 (st 1 1 1 7 (CRead 0 7) [7] [])"
    using mpmc_step.pop_read [of "st 1 1 1 7 (CClaimed 0) [7] []" 0 0 0] by (simp add: ev eval_nat_numeral)
  from go [OF this, of "st 1 1 2 7 Idle [7] [(0, 7)]"]
  have "mpmc_steps ?q 10 (st 1 1 2 7 Idle [7] [(0, 7)])"
    using mpmc_step.pop_free [of "st 1 1 1 7 (CRead 0 7) [7] []" 0 0 7 0] by (simp add: ev eval_nat_numeral)
  then show ?thesis by (simp add: st_def fun_upd_idem)
qed

theorem mpmc_concurrent_fifo_witness:
  "mpmc_steps (two_cells 0 0 0 NULL) 10 \<lparr>mq = two_cells 1 1 2 7, thr = (\<lambda>_. Idle), claims = [7], takes = [(0, 7)]\<rparr> \<and>
    mset (map snd [(0 :: u64, 7 :: ptr)]) = mset (take (unat (1 :: u64)) [7])"
  using push_then_pop mpmc_concurrent_fifo [OF init_two _ _ push_then_pop] by (simp add: two_cells_def)

end
