(* ===== verification/Logger.thy ===== *)
theory Logger
  imports Queue_MPMC
begin

text \<open>
  The asynchronous logger of \<open>observability/logger.c\<close>: \<open>img_log_write\<close> formats a message into a
  ring of 1024 cells of 256 bytes, and a thread prints what it takes from the ring. The ring has
  the fields and the push loop of the multi-producer queue, with a message in each cell; its pop
  is a single attempt.
\<close>

section \<open>Operations\<close>

abbreviation (input) LOG_RING_SIZE :: u64 where "LOG_RING_SIZE \<equiv> 1024"
abbreviation (input) LOG_MSG_SIZE :: nat where "LOG_MSG_SIZE \<equiv> 256"
abbreviation (input) LOG_INFO :: u32 where "LOG_INFO \<equiv> 1"

type_synonym log_ring_t = "bytes img_mpmc_queue"

text \<open>The static variables of the file and what the logger thread has written; no cells, no array.\<close>

record logger =
  g_ring :: log_ring_t
  g_running :: bool
  thread_started :: bool
  log_out :: bytes

definition logger_start :: logger where
  "logger_start = \<lparr>g_ring = \<lparr>msize = 0, mmask = 0, mcells = [], mhead = 0, mtail = 0\<rparr>, g_running = False,
     thread_started = False, log_out = []\<rparr>"

text \<open>
  \<open>msgs\<close> is what the allocated cells contain before they are written, \<open>created\<close> whether
  \<open>pthread_create\<close> succeeds, whose result the code ignores.
\<close>

definition img_logger_init :: "(nat \<Rightarrow> bytes) option \<Rightarrow> bool \<Rightarrow> logger \<Rightarrow> logger option" where
  "img_logger_init alloc created l = do {
     n \<leftarrow> align_pow2 LOG_RING_SIZE;
     let q = (g_ring l)\<lparr>msize := n, mmask := n - 1\<rparr>;
     case alloc of
       None \<Rightarrow> Some (l\<lparr>g_ring := q\<lparr>mcells := []\<rparr>\<rparr>)
     | Some msgs \<Rightarrow>
         Some (l\<lparr>g_ring := q\<lparr>mcells := map (\<lambda>i. \<lparr>seq = of_nat i, cdata = msgs i\<rparr>) [0..<unat n], mhead := 0, mtail := 0\<rparr>,
           g_running := True, thread_started := created\<rparr>) }"

text \<open>Joining a thread that was never created is undefined.\<close>

definition img_logger_shutdown :: "logger \<Rightarrow> logger option" where
  "img_logger_shutdown l =
     (if thread_started l
      then Some (l\<lparr>g_running := False, thread_started := False, g_ring := (g_ring l)\<lparr>mcells := []\<rparr>\<rparr>) else None)"

partial_function (option) log_ring_push :: "log_ring_t \<Rightarrow> bytes \<Rightarrow> (int \<times> log_ring_t) option" where
  "log_ring_push q msg =
     (let pos = mtail q in do {
        i \<leftarrow> cell_index q pos;
        diff \<leftarrow> idiff (seq (mcells q ! i)) pos;
        if diff = 0 then
          (if length msg < LOG_MSG_SIZE then None
           else Some (0, q\<lparr>mtail := pos + 1, mcells := (mcells q)[i := \<lparr>seq = pos + 1, cdata = take LOG_MSG_SIZE msg\<rparr>]\<rparr>))
        else if diff < 0 then Some (- 1, q)
        else log_ring_push q msg })"

text \<open>\<open>won\<close>: the weak exchange may also fail when nobody interferes.\<close>

definition log_ring_pop :: "bool \<Rightarrow> log_ring_t \<Rightarrow> bytes \<Rightarrow> (int \<times> bytes \<times> log_ring_t) option" where
  "log_ring_pop won q out =
     (let pos = mhead q in do {
        i \<leftarrow> cell_index q pos;
        diff \<leftarrow> idiff (seq (mcells q ! i)) (pos + 1);
        if diff < 0 then Some (- 1, out, q)
        else if \<not> won then Some (- 1, out, q)
        else Some (0, cdata (mcells q ! i),
          q\<lparr>mhead := pos + 1, mcells := (mcells q)[i := (mcells q ! i)\<lparr>seq := pos + mmask q + 1\<rparr>]\<rparr>) })"

definition strnlen :: "bytes \<Rightarrow> nat \<Rightarrow> nat" where
  "strnlen bs n = length (takeWhile (\<lambda>b. b \<noteq> 0) (take n bs))"

text \<open>One turn of \<open>logger_loop\<close> with its local \<open>buffer\<close>.\<close>

definition logger_turn :: "bool \<Rightarrow> logger \<times> bytes \<Rightarrow> (logger \<times> bytes) option" where
  "logger_turn won = (\<lambda>(l, msg).
     if \<not> (g_running l \<and> thread_started l) then Some (l, msg)
     else do {
       (r, msg, q) \<leftarrow> log_ring_pop won (g_ring l) msg;
       if r = 0 then Some (l\<lparr>g_ring := q, log_out := log_out l @ take (strnlen msg LOG_MSG_SIZE) msg @ [10]\<rparr>, msg)
       else Some (l\<lparr>g_ring := q\<rparr>, msg) })"

text \<open>\<open>vsnprintf\<close> into 256 bytes: the formatted text, cut after 255 bytes, a zero, and what was there.\<close>

definition vsnprintf :: "bytes \<Rightarrow> nat \<Rightarrow> bytes \<Rightarrow> bytes" where
  "vsnprintf old n line = (let t = take (n - 1) line in t @ [0] @ List.drop (length t + 1) old)"

definition img_log_write :: "u32 \<Rightarrow> bytes \<Rightarrow> bytes \<Rightarrow> logger \<Rightarrow> logger option" where
  "img_log_write level line stack l =
     (if level < LOG_INFO then Some l
      else do {
        (_, q) \<leftarrow> log_ring_push (g_ring l) (vsnprintf stack LOG_MSG_SIZE line);
        Some (l\<lparr>g_ring := q\<rparr>) })"

section \<open>What the logger promises\<close>

text \<open>A call of \<open>img_log_write\<close> with what it formats and its uninitialised array, or a turn of the thread.\<close>

datatype log_op = Write u32 bytes bytes | Turn bool

fun log_run :: "log_op list \<Rightarrow> logger \<times> bytes \<Rightarrow> (logger \<times> bytes) option" where
  "log_run [] s = Some s"
| "log_run (Write level line stack # ops) s = do { l \<leftarrow> img_log_write level line stack (fst s); log_run ops (l, snd s) }"
| "log_run (Turn won # ops) s = do { s \<leftarrow> logger_turn won s; log_run ops s }"

definition c_text :: "bytes \<Rightarrow> bytes" where
  "c_text bs = takeWhile (\<lambda>b. b \<noteq> 0) bs"

text \<open>
  The specification: a queue of at most 1024 texts of at most 255 bytes, printed in order, one per
  line; debug messages and messages that find the queue full are dropped.
\<close>

fun log_spec :: "log_op list \<Rightarrow> bytes list \<times> bytes \<Rightarrow> bytes list \<times> bytes" where
  "log_spec [] s = s"
| "log_spec (Write level line stack # ops) (xs, out) =
     log_spec ops (if level = 0 \<or> 1024 \<le> length xs then xs else xs @ [c_text (take 255 line)], out)"
| "log_spec (Turn won # ops) (xs, out) =
     log_spec ops (if won \<and> xs \<noteq> [] then (tl xs, out @ hd xs @ [10]) else (xs, out))"

fun ops_ok :: "log_op \<Rightarrow> bool" where
  "ops_ok (Write level line stack) = (length stack = 256)"
| "ops_ok (Turn won) = True"

section \<open>The invariant\<close>

definition log_inv :: "nat \<Rightarrow> logger \<Rightarrow> bytes list \<Rightarrow> bool" where
  "log_inv n l xs \<longleftrightarrow> m_wf n (g_ring l) \<and> length (mcells (g_ring l)) = 1024 \<and> g_running l \<and> thread_started l \<and>
     map c_text (m_contents (g_ring l)) = xs \<and> (\<forall>m \<in> set (m_contents (g_ring l)). length m = 256)"

lemma c_text_vsnprintf: "c_text (vsnprintf old n line) = c_text (take (n - 1) line)"
proof -
  have "takeWhile (\<lambda>b. b \<noteq> 0) (t @ 0 # rest) = takeWhile (\<lambda>b. b \<noteq> 0) t" for t rest :: bytes
    by (induction t) auto
  then show ?thesis by (simp add: vsnprintf_def c_text_def Let_def)
qed

lemma length_vsnprintf: "length old = n \<Longrightarrow> 0 < n \<Longrightarrow> length (vsnprintf old n line) = n"
  by (simp add: vsnprintf_def Let_def)

lemma take_strnlen: "take (strnlen bs (length bs)) bs = c_text bs"
  by (simp add: strnlen_def c_text_def) (metis takeWhile_eq_take)

lemma log_write_inv:
  assumes inv: "log_inv (Suc n) l xs" and stack: "length stack = 256"
  shows "\<exists>l'. img_log_write level line stack l = Some l' \<and> log_out l' = log_out l \<and>
    log_inv n l' (if level = 0 \<or> 1024 \<le> length xs then xs else xs @ [c_text (take 255 line)])"
proof (cases "level = 0")
  case True
  have "log_inv n l xs" using inv m_wf_mono [of "Suc n" "g_ring l" n] by (simp add: log_inv_def)
  then show ?thesis using True by (simp add: img_log_write_def)
next
  case False
  then have level: "\<not> level < 1" by (simp add: word_less_nat_alt unat_eq_0)
  have wf: "m_wf (Suc n) (g_ring l)" and N: "length (mcells (g_ring l)) = 1024" using inv by (simp_all add: log_inv_def)
  obtain k where idx: "\<And>pos. cell_index (g_ring l) pos = Some (unat pos mod length (mcells (g_ring l)))"
    using wf by (rule m_wfE) blast
  let ?m = "vsnprintf stack 256 line"
  have m: "length ?m = 256" "c_text ?m = c_text (take 255 line)"
    using length_vsnprintf [OF stack] c_text_vsnprintf [of stack 256] by simp_all
  have len: "length xs = length (m_contents (g_ring l))" using inv by (auto simp: log_inv_def)
  show ?thesis
  proof (cases "length (m_contents (g_ring l)) < length (mcells (g_ring l))")
    case True
    note e = enqueue_wf(1) [OF wf True] enqueue_wf(2-4) [OF wf True, where x = ?m]
    have "log_ring_push (g_ring l) ?m = Some (0, (g_ring l)\<lparr>mtail := mtail (g_ring l) + 1,
        mcells := (mcells (g_ring l))[unat (mtail (g_ring l)) mod length (mcells (g_ring l)) :=
          \<lparr>seq = mtail (g_ring l) + 1, cdata = ?m\<rparr>]\<rparr>)"
      using e(1) idx m(1) by (subst log_ring_push.simps) (simp add: Let_def)
    then show ?thesis
      using level False inv e True N len m by (simp add: img_log_write_def log_inv_def)
  next
    case full: False
    have "log_ring_push (g_ring l) ?m = Some (- 1, g_ring l)"
      using enqueue_full [OF wf full] idx by (subst log_ring_push.simps) (auto simp: Let_def)
    then show ?thesis
      using level False inv full N len m_wf_mono [OF wf, of n] by (simp add: img_log_write_def log_inv_def)
  qed
qed

lemma log_turn_inv:
  assumes inv: "log_inv (Suc n) l xs"
  shows "\<exists>l' msg'. logger_turn won (l, msg) = Some (l', msg') \<and>
    log_out l' = (if won \<and> xs \<noteq> [] then log_out l @ hd xs @ [10] else log_out l) \<and>
    log_inv n l' (if won \<and> xs \<noteq> [] then tl xs else xs)"
proof -
  have wf: "m_wf (Suc n) (g_ring l)" and N: "length (mcells (g_ring l)) = 1024"
    and run: "g_running l" "thread_started l" and xs: "map c_text (m_contents (g_ring l)) = xs"
    and ms: "\<forall>m \<in> set (m_contents (g_ring l)). length m = 256"
    using inv by (simp_all add: log_inv_def)
  obtain k where idx: "\<And>pos. cell_index (g_ring l) pos = Some (unat pos mod length (mcells (g_ring l)))"
    using wf by (rule m_wfE) blast
  have same: "log_inv n l xs" using inv m_wf_mono [OF wf, of n] by (simp add: log_inv_def)
  show ?thesis
  proof (cases "m_contents (g_ring l)")
    case Nil
    have "log_ring_pop won (g_ring l) msg = Some (- 1, msg, g_ring l)"
      using dequeue_empty [OF wf Nil] idx by (auto simp: log_ring_pop_def Let_def)
    then show ?thesis using same Nil xs run by (simp add: logger_turn_def)
  next
    case (Cons m rest)
    then have "m_contents (g_ring l) \<noteq> []" by simp
    note d = dequeue_wf [OF wf this]
    have pop: "log_ring_pop won (g_ring l) msg = (if won then Some (0, m, (g_ring l)\<lparr>mhead := mhead (g_ring l) + 1,
        mcells := (mcells (g_ring l))[unat (mhead (g_ring l)) mod length (mcells (g_ring l)) :=
          (mcells (g_ring l) ! (unat (mhead (g_ring l)) mod length (mcells (g_ring l))))\<lparr>seq := mhead (g_ring l) + mmask (g_ring l) + 1\<rparr>]\<rparr>)
        else Some (- 1, msg, g_ring l))"
      using d(1,3) idx Cons by (simp add: log_ring_pop_def Let_def)
    have "take (strnlen m 256) m = c_text m" using take_strnlen [of m] ms Cons by simp
    then show ?thesis
      using pop d same Cons xs run ms N by (auto simp: logger_turn_def log_inv_def)
  qed
qed

lemma log_run_spec:
  assumes "log_inv (length ops) l xs" and "\<forall>op \<in> set ops. ops_ok op"
  shows "\<exists>l' msg'. log_run ops (l, msg) = Some (l', msg') \<and> log_spec ops (xs, log_out l) = (map c_text (m_contents (g_ring l')), log_out l')"
  using assms
proof (induction ops arbitrary: l xs msg)
  case Nil
  then show ?case by (simp add: log_inv_def)
next
  case (Cons op ops)
  then have inv: "log_inv (Suc (length ops)) l xs" by simp
  show ?case
  proof (cases op)
    case (Write level line stack)
    then show ?thesis
      using log_write_inv [OF inv, of stack level line] Cons.IH Cons.prems(2) by fastforce
  next
    case (Turn won)
    then show ?thesis
      using log_turn_inv [OF inv, of won msg] Cons.IH Cons.prems(2) by (fastforce split: if_splits)
  qed
qed

lemma logger_init_inv:
  "\<exists>l. img_logger_init (Some msgs) True logger_start = Some l \<and> log_inv (2 ^ 61) l [] \<and> log_out l = []"
proof -
  obtain r j where r: "align_pow2 1024 = Some r" "unat r = 2 ^ j" "1024 \<le> (2 :: nat) ^ j" "2 ^ j < (2048 :: nat)"
    using pow2_loop_result [of 1 0 1024 10] by (auto simp: align_pow2_def)
  have "(2 :: nat) ^ 10 \<le> 2 ^ j" "(2 :: nat) ^ j < 2 ^ 11" using r(3,4) by simp_all
  then have "10 \<le> j" "j < 11"
    using power_increasing_iff [of "2 :: nat" 10 j] power_strict_increasing_iff [of "2 :: nat" j 11] by simp_all
  then have j: "j = 10" by simp
  then have "r = 1024" using r(2) by (intro unsigned_word_eqI) simp
  then have init: "align_pow2 1024 = Some 1024" using r(1) by simp
  define q where "q = \<lparr>msize = 1024, mmask = 1023, mcells = map (\<lambda>i. \<lparr>seq = of_nat i, cdata = msgs i\<rparr>) [0..<1024],
      mhead = 0, mtail = 0\<rparr>"
  have "m_wf (2 ^ 61) q"
    unfolding m_wf_def
    by (auto simp: q_def unat_of_nat_small mask_eq_exp_minus_1 intro!: exI [of _ 10])
  moreover have "m_contents q = []" by (simp add: m_contents_def q_def)
  ultimately show ?thesis
    using init by (simp add: img_logger_init_def logger_start_def log_inv_def q_def Let_def)
qed

text \<open>Before \<open>img_logger_init\<close>, or when its allocation fails, a message is written through a null pointer.\<close>

lemma log_before_init: "level \<noteq> 0 \<Longrightarrow> img_log_write level line stack logger_start = None"
  by (subst img_log_write_def, subst log_ring_push.simps)
    (simp add: logger_start_def cell_index_def word_less_nat_alt unat_eq_0)

text \<open>\<open>img_logger_shutdown\<close> does not wait for the ring to be empty: what it holds is never printed.\<close>

lemma shutdown_drops: "img_logger_shutdown l = Some l' \<Longrightarrow> log_out l' = log_out l \<and> mcells (g_ring l') = [] \<and> logger_turn won (l', m) = Some (l', m)"
  by (auto simp: img_logger_shutdown_def logger_turn_def split: if_splits)

section \<open>Properties\<close>

text \<open>
  C13. After a successful start, up to \<open>2\<^sup>6\<^sup>1\<close> calls of \<open>img_log_write\<close> and turns of the logger thread,
  in any order and with any spurious failures of the weak exchange, are all defined, and the
  thread prints exactly what a queue of 1024 texts would give: every message from \<open>LOG_INFO\<close> up that
  found room, cut to 255 bytes, in order, one per line; the rest is still in the ring.
\<close>

theorem logger_prints_in_order:
  assumes "\<forall>op \<in> set ops. ops_ok op" and "length ops \<le> 2 ^ 61"
  shows "\<exists>l l' msg'. img_logger_init (Some msgs) True logger_start = Some l \<and> log_run ops (l, msg) = Some (l', msg') \<and>
    log_spec ops ([], []) = (map c_text (m_contents (g_ring l')), log_out l')"
proof -
  obtain l where l: "img_logger_init (Some msgs) True logger_start = Some l" "log_inv (2 ^ 61) l []" "log_out l = []"
    using logger_init_inv [of msgs] by blast
  have "log_inv (length ops) l []" using l(2) assms(2) m_wf_mono [of _ _ "length ops"] by (auto simp: log_inv_def)
  from log_run_spec [OF this assms(1), of msg] l show ?thesis by auto
qed

theorem logger_prints_in_order_witness:
  "\<exists>l l' msg'. img_logger_init (Some (\<lambda>_. [])) True logger_start = Some l \<and>
    log_run [Write 1 [104, 105] (replicate 256 7), Write 0 [33] (replicate 256 7), Turn False, Turn True, Turn True] (l, []) = Some (l', msg') \<and>
    ([], [104, 105, 10]) = (map c_text (m_contents (g_ring l')), log_out l')"
  using logger_prints_in_order [of "[Write 1 [104, 105] (replicate 256 7), Write 0 [33] (replicate 256 7), Turn False, Turn True, Turn True]"
      "\<lambda>_. []" "[]"]
  by (simp add: c_text_def)

end
