(* ===== verification/Observability.thy ===== *)
theory Observability
  imports Encoder
begin

text \<open>
  Counters and events: the per-CPU binary log of \<open>observability/binlog.c\<close> with the printer
  \<open>tools/binlog_decode.c\<close>, spans of \<open>observability/tracing.c\<close>, and the latency counters of
  \<open>observability/metrics.c\<close>. The time of \<open>img_now_ns\<close> is an argument. Threads
  that write to the log at the same time are the subject of theory \<open>Binlog_Threads\<close>.
\<close>

section \<open>The binary log\<close>

record img_log_entry =
  timestamp :: u64
  event_id :: u32
  ecpu :: u32
  arg0 :: u64
  arg1 :: u64
  arg2 :: u64

record img_binlog_cpu =
  entries :: "img_log_entry list option"
  bsize :: u32
  bmask :: u32
  bhead :: u32
  btail :: u32

record img_binlog =
  cpu_count :: u32
  cpu_logs :: "img_binlog_cpu list"

abbreviation (input) IMG_MAX_CPUS :: nat where "IMG_MAX_CPUS \<equiv> 128"

definition no_cpu_log :: img_binlog_cpu where
  "no_cpu_log = \<lparr>entries = None, bsize = 0, bmask = 0, bhead = 0, btail = 0\<rparr>"

text \<open>
  \<open>alloc i\<close> is the memory of the i-th allocation, uninitialised, or no memory. The loop stops at the
  first failure and leaves the earlier logs allocated.
\<close>

fun init_cpus :: "(nat \<Rightarrow> img_log_entry list option) \<Rightarrow> u32 \<Rightarrow> nat list \<Rightarrow> img_binlog \<Rightarrow> int \<times> img_binlog" where
  "init_cpus alloc n [] bl = (0, bl)"
| "init_cpus alloc n (i # is) bl =
     (case alloc i of
        None \<Rightarrow> (- 1, bl)
      | Some es \<Rightarrow> init_cpus alloc n is
          (bl\<lparr>cpu_logs := (cpu_logs bl)[i := \<lparr>entries = Some es, bsize = n, bmask = n - 1, bhead = 0, btail = 0\<rparr>]\<rparr>))"

definition img_binlog_init ::
  "(nat \<Rightarrow> img_log_entry list option) \<Rightarrow> img_binlog option \<Rightarrow> u32 \<Rightarrow> u32 \<Rightarrow> (int \<times> img_binlog option) option" where
  "img_binlog_init alloc lo cpus pow =
     (case lo of
        None \<Rightarrow> Some (- 1, None)
      | Some bl \<Rightarrow>
          if cpus = 0 \<or> of_nat IMG_MAX_CPUS < cpus then Some (- 1, lo)
          else if 32 \<le> pow then None
          else (let (r, bl) = init_cpus alloc (push_bit (unat pow) 1) [0..<unat cpus]
                    \<lparr>cpu_count = cpus, cpu_logs = replicate IMG_MAX_CPUS no_cpu_log\<rparr>
                in Some (r, Some bl)))"

text \<open>The freed pointers stay in the structure.\<close>

definition img_binlog_destroy :: "img_binlog option \<Rightarrow> img_log_entry list list" where
  "img_binlog_destroy lo =
     (case lo of None \<Rightarrow> []
      | Some bl \<Rightarrow> List.map_filter (\<lambda>i. entries (cpu_logs bl ! i)) [0..<unat (cpu_count bl)])"

text \<open>\<open>tls\<close> is the \<open>tls_cpu_id\<close> of every thread.\<close>

definition img_binlog_set_cpu :: "nat \<Rightarrow> u32 \<Rightarrow> (nat \<Rightarrow> u32) \<Rightarrow> nat \<Rightarrow> u32" where
  "img_binlog_set_cpu t cpu tls = tls(t := cpu)"

definition img_binlog_write :: "u32 \<Rightarrow> u64 \<Rightarrow> u32 \<Rightarrow> u64 \<Rightarrow> u64 \<Rightarrow> u64 \<Rightarrow> img_binlog \<Rightarrow> img_binlog option" where
  "img_binlog_write cpu now event a0 a1 a2 bl =
     (if cpu_count bl \<le> cpu then Some bl
      else if length (cpu_logs bl) \<le> unat cpu then None
      else let c = cpu_logs bl ! unat cpu; nxt = (btail c + 1) AND bmask c in
        if nxt = bhead c then Some bl
        else case entries c of
            None \<Rightarrow> None
          | Some es \<Rightarrow>
              if length es \<le> unat (btail c) then None
              else let e = \<lparr>timestamp = now, event_id = event, ecpu = cpu, arg0 = a0, arg1 = a1, arg2 = a2\<rparr>;
                       c = c\<lparr>entries := Some (es[unat (btail c) := e]), btail := nxt\<rparr>
                   in Some (bl\<lparr>cpu_logs := (cpu_logs bl)[unat cpu := c]\<rparr>))"

abbreviation (input) IMG_EVENT_LATENCY :: u32 where "IMG_EVENT_LATENCY \<equiv> 1"
abbreviation (input) IMG_EVENT_ERROR :: u32 where "IMG_EVENT_ERROR \<equiv> 2"
abbreviation (input) IMG_EVENT_BATCH :: u32 where "IMG_EVENT_BATCH \<equiv> 3"

text \<open>What \<open>tools/binlog_decode.c\<close> prints for an entry.\<close>

definition decode :: "img_log_entry \<Rightarrow> bytes" where
  "decode e =
     (if event_id e = IMG_EVENT_LATENCY then
        str ''[LAT] '' @ digits (unat (arg0 e)) @ str '' cycles count='' @ digits (unat (arg1 e)) @
        str '' extra='' @ digits (unat (arg2 e)) @ nl
      else if event_id e = IMG_EVENT_ERROR then str ''[ERR] code='' @ digits (unat (arg0 e)) @ nl
      else str ''[UNK] event='' @ digits (unat (event_id e)) @ nl)"

record img_span =
  name :: string
  sstart :: u64
  send :: u64

definition img_trace_start :: "u64 \<Rightarrow> string \<Rightarrow> img_span" where
  "img_trace_start now nm = \<lparr>name = nm, sstart = now, send = 0\<rparr>"

definition img_trace_end :: "u64 \<Rightarrow> img_span option \<Rightarrow> img_span option" where
  "img_trace_end now = map_option (send_update (\<lambda>_. now))"

definition img_trace_emit :: "u32 \<Rightarrow> u64 \<Rightarrow> string \<Rightarrow> u64 \<Rightarrow> u64 \<Rightarrow> u64 \<Rightarrow> img_binlog \<Rightarrow> img_binlog option" where
  "img_trace_emit cpu now nm a0 a1 a2 bl = img_binlog_write cpu now IMG_EVENT_BATCH a0 a1 a2 bl"

section \<open>Metrics\<close>

record img_metrics_core =
  total_requests :: u64
  total_cycles :: u64
  max_latency :: u64
  min_latency :: u64

abbreviation (input) IMG_MAX_CORES :: nat where "IMG_MAX_CORES \<equiv> 64"

text \<open>The global counters before anything runs, and \<open>img_metrics_init\<close>.\<close>

definition g_metrics :: "img_metrics_core list" where
  "g_metrics = replicate IMG_MAX_CORES \<lparr>total_requests = 0, total_cycles = 0, max_latency = 0, min_latency = 0\<rparr>"

definition img_metrics_init :: "img_metrics_core list \<Rightarrow> img_metrics_core list" where
  "img_metrics_init = map (min_latency_update (\<lambda>_. - 1))"

definition on_core :: "(img_metrics_core \<Rightarrow> img_metrics_core) \<Rightarrow> u32 \<Rightarrow> img_metrics_core list \<Rightarrow> img_metrics_core list option" where
  "on_core f i cs = (if unat i < length cs then Some (cs[unat i := f (cs ! unat i)]) else None)"

definition img_metrics_inc :: "u32 \<Rightarrow> img_metrics_core list \<Rightarrow> img_metrics_core list option" where
  "img_metrics_inc = on_core (\<lambda>c. c\<lparr>total_requests := total_requests c + 1\<rparr>)"

definition img_metrics_latency :: "u32 \<Rightarrow> u64 \<Rightarrow> img_metrics_core list \<Rightarrow> img_metrics_core list option" where
  "img_metrics_latency i cycles = on_core (\<lambda>c.
     let c = c\<lparr>total_cycles := total_cycles c + cycles\<rparr>;
         c = (if cycles > max_latency c then c\<lparr>max_latency := cycles\<rparr> else c)
     in if cycles < min_latency c then c\<lparr>min_latency := cycles\<rparr> else c) i"

fun export_totals :: "img_metrics_core list \<Rightarrow> u64 \<times> u64 \<times> u64 \<Rightarrow> u64 \<times> u64 \<times> u64" where
  "export_totals [] s = s"
| "export_totals (c # cs) (req, cyc, mx) =
     export_totals cs (req + total_requests c, cyc + total_cycles c, if max_latency c > mx then max_latency c else mx)"

definition metrics_text :: "u64 \<Rightarrow> u64 \<Rightarrow> u64 \<Rightarrow> bytes" where
  "metrics_text req avg mx =
     str ''img_requests_total '' @ digits (unat req) @ nl @
     str ''img_latency_avg '' @ digits (unat avg) @ nl @
     str ''img_latency_max '' @ digits (unat mx) @ nl"

text \<open>What \<open>snprintf\<close> stores into a buffer of \<open>n\<close> bytes: nothing when \<open>n\<close> is zero.\<close>

definition snprintf :: "nat \<Rightarrow> bytes \<Rightarrow> bytes" where
  "snprintf n line = (if n = 0 then [] else take (n - 1) line @ [0])"

definition img_metrics_export_prometheus :: "nat \<Rightarrow> img_metrics_core list \<Rightarrow> bytes" where
  "img_metrics_export_prometheus n cs =
     (let (req, cyc, mx) = export_totals cs (0, 0, 0);
          avg = (if req \<noteq> 0 then cyc div req else 0)
      in snprintf n (metrics_text req avg mx))"

section \<open>The log of a CPU\<close>

definition recorded :: "img_binlog_cpu \<Rightarrow> img_log_entry list" where
  "recorded c = take (unat (btail c)) (the (entries c))"

definition cpu_ok :: "nat \<Rightarrow> img_binlog_cpu \<Rightarrow> bool" where
  "cpu_ok p c \<longleftrightarrow> p < 32 \<and> bmask c = mask p \<and> bhead c = 0 \<and> unat (btail c) < 2 ^ p \<and>
     (\<exists>es. entries c = Some es \<and> length es = 2 ^ p)"

definition log_ok :: "nat \<Rightarrow> img_binlog \<Rightarrow> bool" where
  "log_ok p bl \<longleftrightarrow> cpu_count bl \<le> 128 \<and> length (cpu_logs bl) = 128 \<and>
     (\<forall>i < unat (cpu_count bl). cpu_ok p (cpu_logs bl ! i))"

text \<open>A write to its own log: appended while there is room, dropped from then on.\<close>

lemma mask_next:
  fixes w :: u32
  assumes "p < 32" and "unat w < 2 ^ p"
  shows "(w + 1) AND mask p = (if Suc (unat w) = 2 ^ p then 0 else w + 1)"
    and "Suc (unat w) \<noteq> 2 ^ p \<Longrightarrow> unat (w + 1) = Suc (unat w)"
proof -
  have "(2 :: nat) ^ p < 2 ^ 32" using assms(1) by (intro power_strict_increasing) simp_all
  then have s: "unat (w + 1) = Suc (unat w)" using assms(2) by (subst unat_add_small) simp_all
  then show "unat (w + 1) = Suc (unat w)" .
  have "unat ((w + 1) AND mask p) = Suc (unat w) mod 2 ^ p" by (simp add: unat_and_mask s)
  then show "(w + 1) AND mask p = (if Suc (unat w) = 2 ^ p then 0 else w + 1)"
    using assms(2) s by (cases "Suc (unat w) = 2 ^ p") (simp_all add: word_unat_eq_iff)
qed

lemma write_cpu:
  assumes ok: "cpu_ok p c" and e: "e = \<lparr>timestamp = now, event_id = ev, ecpu = cpu, arg0 = a0, arg1 = a1, arg2 = a2\<rparr>"
    and bl: "unat cpu < unat (cpu_count bl)" "unat cpu < length (cpu_logs bl)" "cpu_logs bl ! unat cpu = c"
  shows "\<exists>c'. img_binlog_write cpu now ev a0 a1 a2 bl = Some (bl\<lparr>cpu_logs := (cpu_logs bl)[unat cpu := c']\<rparr>) \<and>
    cpu_ok p c' \<and> recorded c' = take (2 ^ p - 1) (recorded c @ [e])"
proof -
  obtain es where es: "entries c = Some es" "length es = 2 ^ p" and p: "p < 32" "bmask c = mask p" "bhead c = 0" "unat (btail c) < 2 ^ p"
    using ok by (auto simp: cpu_ok_def)
  have nxt: "(btail c + 1) AND bmask c = (if Suc (unat (btail c)) = 2 ^ p then 0 else btail c + 1)"
    using mask_next(1) [OF p(1,4)] p(2) by simp
  have cpu: "\<not> cpu_count bl \<le> cpu" using bl(1) by (simp add: word_le_nat_alt)
  show ?thesis
  proof (cases "Suc (unat (btail c)) = 2 ^ p")
    case True
    have same: "bl\<lparr>cpu_logs := (cpu_logs bl)[unat cpu := c]\<rparr> = bl"
      using list_update_id [of "cpu_logs bl" "unat cpu"] unfolding bl(3) by simp
    have "recorded c = take (2 ^ p - 1) es" using es(1) True by (simp add: recorded_def flip: True)
    then have "recorded c = take (2 ^ p - 1) (recorded c @ [e])" using es(2) by simp
    moreover have "img_binlog_write cpu now ev a0 a1 a2 bl = Some bl"
      using nxt True cpu bl p(3) by (simp add: img_binlog_write_def Let_def)
    ultimately show ?thesis using ok same by (intro exI [of _ c]) simp
  next
    case False
    let ?c = "c\<lparr>entries := Some (es[unat (btail c) := e]), btail := btail c + 1\<rparr>"
    have s: "unat (btail c + 1) = Suc (unat (btail c))" using mask_next(2) [OF p(1,4) False] .
    then have "btail c + 1 \<noteq> 0" by auto
    then have "img_binlog_write cpu now ev a0 a1 a2 bl = Some (bl\<lparr>cpu_logs := (cpu_logs bl)[unat cpu := ?c]\<rparr>)"
      using nxt False cpu bl p(3,4) es e by (simp add: img_binlog_write_def Let_def)
    moreover have "cpu_ok p ?c" using es p s False by (simp add: cpu_ok_def)
    moreover have "recorded ?c = take (2 ^ p - 1) (recorded c @ [e])"
      using es p(4) s False by (simp add: recorded_def take_Suc_conv_app_nth)
    ultimately show ?thesis by blast
  qed
qed

lemma init_cpus_ok:
  assumes "\<forall>i. \<exists>es. alloc i = Some es \<and> length es = 2 ^ p" and "p < 32" and "\<forall>i \<in> set is. i < length (cpu_logs bl)"
  shows "\<exists>bl'. init_cpus alloc (push_bit p 1) is bl = (0, bl') \<and> cpu_count bl' = cpu_count bl \<and>
    length (cpu_logs bl') = length (cpu_logs bl) \<and>
    (\<forall>i < length (cpu_logs bl). i \<in> set is \<longrightarrow> cpu_ok p (cpu_logs bl' ! i) \<and> recorded (cpu_logs bl' ! i) = []) \<and>
    (\<forall>i < length (cpu_logs bl). i \<notin> set is \<longrightarrow> cpu_logs bl' ! i = cpu_logs bl ! i)"
  using assms(3)
proof (induction "is" arbitrary: bl)
  case Nil
  then show ?case by simp
next
  case (Cons i "is")
  obtain es where es: "alloc i = Some es" "length es = 2 ^ p" using assms(1) by blast
  let ?c = "\<lparr>entries = Some es, bsize = push_bit p 1, bmask = push_bit p 1 - 1, bhead = 0, btail = 0\<rparr>"
  let ?bl = "bl\<lparr>cpu_logs := (cpu_logs bl)[i := ?c]\<rparr>"
  have c: "cpu_ok p ?c" "recorded ?c = []"
    using es assms(2) by (simp_all add: cpu_ok_def recorded_def mask_eq_exp_minus_1 push_bit_eq_mult)
  obtain bl' where bl': "init_cpus alloc (push_bit p 1) is ?bl = (0, bl')" "cpu_count bl' = cpu_count bl"
    "length (cpu_logs bl') = length (cpu_logs bl)"
    "\<forall>j < length (cpu_logs bl). j \<in> set is \<longrightarrow> cpu_ok p (cpu_logs bl' ! j) \<and> recorded (cpu_logs bl' ! j) = []"
    "\<forall>j < length (cpu_logs bl). j \<notin> set is \<longrightarrow> cpu_logs bl' ! j = (cpu_logs bl)[i := ?c] ! j"
    using Cons.IH [of ?bl] Cons.prems by auto
  have "cpu_ok p (cpu_logs bl' ! j) \<and> recorded (cpu_logs bl' ! j) = []" if "j < length (cpu_logs bl)" "j \<in> set (i # is)" for j
    using that bl'(4,5) c by (cases "j \<in> set is") auto
  then show ?case using bl' es by (auto intro!: exI [of _ bl'])
qed

lemma binlog_init_ok:
  assumes "\<forall>i. \<exists>es. alloc i = Some es \<and> length es = 2 ^ unat pow" and "pow < 32" and "0 < cpus" "cpus \<le> 128"
  shows "\<exists>bl. img_binlog_init alloc (Some bl0) cpus pow = Some (0, Some bl) \<and> log_ok (unat pow) bl \<and> cpu_count bl = cpus \<and>
    (\<forall>c < cpus. recorded (cpu_logs bl ! unat c) = [])"
proof -
  have cpus: "unat cpus \<le> 128" "cpus \<noteq> 0" "unat pow < 32" "\<not> 32 \<le> pow" "\<not> 128 < cpus"
    using assms(2-4) by (simp_all add: word_le_nat_alt word_less_nat_alt unat_gt_0)
  obtain bl where bl: "init_cpus alloc (push_bit (unat pow) 1) [0..<unat cpus]
      \<lparr>cpu_count = cpus, cpu_logs = replicate 128 no_cpu_log\<rparr> = (0, bl)" "cpu_count bl = cpus" "length (cpu_logs bl) = 128"
    "\<forall>i < 128. i \<in> set [0..<unat cpus] \<longrightarrow> cpu_ok (unat pow) (cpu_logs bl ! i) \<and> recorded (cpu_logs bl ! i) = []"
    using init_cpus_ok [OF assms(1) cpus(3), of "[0..<unat cpus]" "\<lparr>cpu_count = cpus, cpu_logs = replicate 128 no_cpu_log\<rparr>"] cpus(1)
    by auto
  moreover have "log_ok (unat pow) bl" using bl cpus(1) assms(4) by (auto simp: log_ok_def)
  moreover have "recorded (cpu_logs bl ! unat c) = []" if "c < cpus" for c
    using bl(4) cpus(1) that by (auto simp: word_less_nat_alt)
  ultimately show ?thesis using cpus by (auto simp: img_binlog_init_def)
qed

section \<open>The totals of the metrics\<close>

datatype mt_op = Inc u32 | Latency u32 u64

fun mt_run :: "mt_op list \<Rightarrow> img_metrics_core list \<Rightarrow> img_metrics_core list option" where
  "mt_run [] cs = Some cs"
| "mt_run (Inc i # acts) cs = do { cs \<leftarrow> img_metrics_inc i cs; mt_run acts cs }"
| "mt_run (Latency i cycles # acts) cs = do { cs \<leftarrow> img_metrics_latency i cycles cs; mt_run acts cs }"

fun core_id :: "mt_op \<Rightarrow> u32" where
  "core_id (Inc i) = i"
| "core_id (Latency i cycles) = i"

fun latencies :: "mt_op list \<Rightarrow> u64 list" where
  "latencies [] = []"
| "latencies (Inc i # acts) = latencies acts"
| "latencies (Latency i cycles # acts) = cycles # latencies acts"

lemma export_totals_sums:
  "export_totals cs (a, b, m) =
    (a + sum_list (map total_requests cs), b + sum_list (map total_cycles cs), fold max (map max_latency cs) m)"
proof -
  have "(if m < a then a else m) = max a m" for a m :: u64 by (auto simp: max_def)
  then show ?thesis by (induction cs arbitrary: a b m) (simp_all add: ac_simps)
qed

lemma sum_list_map_upd:
  fixes f :: "'a \<Rightarrow> 'b :: len word"
  assumes "i < length xs"
  shows "sum_list (map f (xs[i := x])) = sum_list (map f xs) + (f x - f (xs ! i))"
  using assms by (induction xs arbitrary: i) (auto simp: algebra_simps split: nat.splits)

lemma fold_max_acc: "fold max xs (max a (b :: u64)) = max b (fold max xs a)"
proof (induction xs arbitrary: a)
  case Nil
  then show ?case by (simp only: fold_simps max.commute)
next
  case (Cons x xs)
  have "max x (max a b) = max (max x a) b" by (simp only: max.assoc)
  then show ?case by (simp only: fold_simps Cons.IH)
qed

lemma fold_max_upd:
  fixes f :: "'a \<Rightarrow> u64"
  assumes "i < length xs" and "f x = max y (f (xs ! i))"
  shows "fold max (map f (xs[i := x])) m = max y (fold max (map f xs) m)"
  using assms
proof (induction xs arbitrary: i m)
  case Nil
  then show ?case by simp
next
  case (Cons z zs)
  show ?case
  proof (cases i)
    case 0
    have "f x = max y (f z)" using Cons.prems(2) 0 by simp
    then have "max (f x) m = max (max (f z) m) y" by (simp only: ac_simps)
    then have "fold max (map f zs) (max (f x) m) = max y (fold max (map f zs) (max (f z) m))"
      by (simp only: fold_max_acc)
    then show ?thesis using 0 by (simp only: list_update_code list.map fold_simps)
  next
    case (Suc j)
    have "fold max (map f (zs[j := x])) (max (f z) m) = max y (fold max (map f zs) (max (f z) m))"
      by (rule Cons.IH) (use Cons.prems Suc in \<open>simp_all only: list.size nth_Cons_Suc add_Suc_right Suc_less_eq add_0_right\<close>)
    then show ?thesis using Suc by (simp only: list_update_code list.map fold_simps)
  qed
qed

lemma metrics_step:
  assumes "unat i < length cs"
  shows "\<exists>cs'. img_metrics_inc i cs = Some cs' \<and> length cs' = length cs \<and>
      export_totals cs' (0, 0, 0) = (case export_totals cs (0, 0, 0) of (r, c, m) \<Rightarrow> (r + 1, c, m))"
    and "\<exists>cs'. img_metrics_latency i x cs = Some cs' \<and> length cs' = length cs \<and>
      export_totals cs' (0, 0, 0) = (case export_totals cs (0, 0, 0) of (r, c, m) \<Rightarrow> (r, c + x, max x m))"
proof -
  have same: "fold max (map f (cs[unat i := c])) m = fold max (map f cs) m" if "f c = f (cs ! unat i)"
    for f :: "img_metrics_core \<Rightarrow> u64" and c m
    using that by (metis list_update_id map_update)
  show "\<exists>cs'. img_metrics_inc i cs = Some cs' \<and> length cs' = length cs \<and>
      export_totals cs' (0, 0, 0) = (case export_totals cs (0, 0, 0) of (r, c, m) \<Rightarrow> (r + 1, c, m))"
    using assms same by (simp add: img_metrics_inc_def on_core_def export_totals_sums sum_list_map_upd)
  show "\<exists>cs'. img_metrics_latency i x cs = Some cs' \<and> length cs' = length cs \<and>
      export_totals cs' (0, 0, 0) = (case export_totals cs (0, 0, 0) of (r, c, m) \<Rightarrow> (r, c + x, max x m))"
  proof -
    define c where "c = (let c = (cs ! unat i)\<lparr>total_cycles := total_cycles (cs ! unat i) + x\<rparr>;
         c = (if x > max_latency c then c\<lparr>max_latency := x\<rparr> else c)
       in if x < min_latency c then c\<lparr>min_latency := x\<rparr> else c)"
    have c: "total_requests c = total_requests (cs ! unat i)" "total_cycles c = total_cycles (cs ! unat i) + x"
      "max_latency c = max x (max_latency (cs ! unat i))"
      by (auto simp: c_def Let_def max_def)
    have "img_metrics_latency i x cs = Some (cs[unat i := c])"
      using assms by (simp add: img_metrics_latency_def on_core_def c_def)
    then show ?thesis
      using assms c fold_max_upd [of "unat i" cs max_latency c x 0] by (simp add: export_totals_sums sum_list_map_upd)
  qed
qed

lemma mt_run_totals:
  assumes "\<forall>act \<in> set acts. unat (core_id act) < length cs"
  shows "\<exists>cs'. mt_run acts cs = Some cs' \<and>
    export_totals cs' (0, 0, 0) = (case export_totals cs (0, 0, 0) of (r, c, m) \<Rightarrow>
      (r + of_nat (length acts - length (latencies acts)), c + sum_list (latencies acts), fold max (latencies acts) m))
    \<and> length (latencies acts) \<le> length acts"
  using assms
proof (induction acts arbitrary: cs)
  case Nil
  then show ?case by simp
next
  case (Cons act acts)
  show ?case
  proof (cases act)
    case (Inc i)
    obtain c1 where c1: "img_metrics_inc i cs = Some c1" "length c1 = length cs"
      "export_totals c1 (0, 0, 0) = (case export_totals cs (0, 0, 0) of (r, c, m) \<Rightarrow> (r + 1, c, m))"
      using metrics_step(1) [of i cs] Cons.prems Inc by auto
    then show ?thesis
      using Cons.IH [of c1] Cons.prems Inc by (auto simp: Suc_diff_le split: prod.splits)
  next
    case (Latency i x)
    obtain c1 where c1: "img_metrics_latency i x cs = Some c1" "length c1 = length cs"
      "export_totals c1 (0, 0, 0) = (case export_totals cs (0, 0, 0) of (r, c, m) \<Rightarrow> (r, c + x, max x m))"
      using metrics_step(2) [of i cs x] Cons.prems Latency by auto
    then show ?thesis
      using Cons.IH [of c1] Cons.prems Latency by (auto simp: add.assoc split: prod.splits)
  qed
qed

section \<open>Properties\<close>

text \<open>
  The text that \<open>img_metrics_export_prometheus\<close> gives after \<open>img_metrics_init\<close> and any counting
  on the 64 cores: the number of requests, the mean of the latencies over the requests, and the
  greatest latency, cut to the buffer.
\<close>

theorem metrics_export_correct:
  assumes "\<forall>act \<in> set acts. core_id act < 64"
  shows "\<exists>cs. mt_run acts (img_metrics_init g_metrics) = Some cs \<and>
    img_metrics_export_prometheus n cs =
      (let req = of_nat (length acts - length (latencies acts)); cyc = sum_list (latencies acts)
       in snprintf n (metrics_text req (if req = 0 then 0 else cyc div req) (fold max (latencies acts) 0)))"
proof -
  have "\<forall>act \<in> set acts. unat (core_id act) < length (img_metrics_init g_metrics)"
    using assms by (simp add: img_metrics_init_def g_metrics_def word_less_nat_alt)
  moreover have "(max (0 :: u64) ^^ k) 0 = 0" for k by (induction k) simp_all
  then have "export_totals (img_metrics_init g_metrics) (0, 0, 0) = (0, 0, 0)"
    by (simp add: export_totals_sums img_metrics_init_def g_metrics_def sum_list_replicate fold_replicate)
  ultimately show ?thesis
    using mt_run_totals [of acts "img_metrics_init g_metrics"] by (auto simp: img_metrics_export_prometheus_def Let_def)
qed

theorem metrics_export_correct_witness:
  "\<exists>cs. mt_run [Inc 3, Latency 3 10, Inc 63, Latency 63 31] (img_metrics_init g_metrics) = Some cs \<and>
    img_metrics_export_prometheus 100 cs = snprintf 100 (metrics_text 2 20 31)"
  using metrics_export_correct [of "[Inc 3, Latency 3 10, Inc 63, Latency 63 31]" 100]
  by (simp add: max_def)

text \<open>A core number from 64 up is outside the array.\<close>

lemma metrics_unchecked_core: "length cs = 64 \<Longrightarrow> 64 \<le> i \<Longrightarrow> img_metrics_inc i cs = None"
  by (simp add: img_metrics_inc_def on_core_def word_le_nat_alt)

text \<open>The only events the program emits are the ones the printer does not know.\<close>

lemma trace_event_unknown:
  assumes "cpu_ok p (cpu_logs bl ! unat cpu)" and "unat cpu < unat (cpu_count bl)" "unat cpu < length (cpu_logs bl)"
    and "img_trace_emit cpu now nm a0 a1 a2 bl = Some bl'" and "e \<in> set (recorded (cpu_logs bl' ! unat cpu))"
    and "e \<notin> set (recorded (cpu_logs bl ! unat cpu))"
  shows "decode e = str ''[UNK] event='' @ digits 3 @ nl"
proof -
  obtain c' where c': "img_binlog_write cpu now 3 a0 a1 a2 bl = Some (bl\<lparr>cpu_logs := (cpu_logs bl)[unat cpu := c']\<rparr>)"
    "recorded c' = take (2 ^ p - 1) (recorded (cpu_logs bl ! unat cpu) @
      [\<lparr>timestamp = now, event_id = 3, ecpu = cpu, arg0 = a0, arg1 = a1, arg2 = a2\<rparr>])"
    using write_cpu [OF assms(1) refl assms(2,3) refl, where now = now and ev = 3 and ?a0.0 = a0 and ?a1.0 = a1 and ?a2.0 = a2]
    by (elim exE conjE)
  then have "bl' = bl\<lparr>cpu_logs := (cpu_logs bl)[unat cpu := c']\<rparr>"
    using assms(4) unfolding img_trace_emit_def by simp
  then have "e \<in> set (recorded c')" using assms(3,5) by simp
  then have "e \<in> set (recorded (cpu_logs bl ! unat cpu) @
      [\<lparr>timestamp = now, event_id = 3, ecpu = cpu, arg0 = a0, arg1 = a1, arg2 = a2\<rparr>])"
    unfolding c'(2) by (rule in_set_takeD)
  then have "event_id e = 3" using assms(6) by auto
  then show ?thesis by (simp add: decode_def del: str_append)
qed

end
