(* ===== verification/Binlog_Threads.thy ===== *)
theory Binlog_Threads
  imports Observability
begin

text \<open>
  The binary log of \<open>observability/binlog.c\<close> written by threads whose loads and stores interleave:
  \<open>img_binlog_write\<close> is an unlocked read and write of \<open>tail\<close>, so its result depends on who else
  writes to the log of the same CPU. The comment of the function allows one thread per CPU.
\<close>

section \<open>Threads\<close>

datatype bl_op = Set_Cpu u32 | Write_Event u64 u32 u64 u64 u64

text \<open>
  Where a thread is inside \<open>img_binlog_write\<close>: it has read \<open>tail\<close> and \<open>head\<close> of a CPU and has these
  field stores left, then the store of the next \<open>tail\<close>. \<open>head\<close> is never written, so the two loads
  are one step.
\<close>

datatype bl_pc = B_Idle | B_Store u32 u32 u32 "(img_log_entry \<Rightarrow> img_log_entry) list"

record bl_sys =
  blog :: img_binlog
  tls_cpu_id :: "nat \<Rightarrow> u32"
  todo :: "nat \<Rightarrow> bl_op list"
  bpc :: "nat \<Rightarrow> bl_pc"

definition field_stores :: "u32 \<Rightarrow> u64 \<Rightarrow> u32 \<Rightarrow> u64 \<Rightarrow> u64 \<Rightarrow> u64 \<Rightarrow> (img_log_entry \<Rightarrow> img_log_entry) list" where
  "field_stores cpu now ev a0 a1 a2 =
     [timestamp_update (\<lambda>_. now), event_id_update (\<lambda>_. ev), ecpu_update (\<lambda>_. cpu),
      arg0_update (\<lambda>_. a0), arg1_update (\<lambda>_. a1), arg2_update (\<lambda>_. a2)]"

definition op_done :: "nat \<Rightarrow> bl_sys \<Rightarrow> bl_sys" where
  "op_done t s = s\<lparr>todo := (todo s)(t := tl (todo s t)), bpc := (bpc s)(t := B_Idle)\<rparr>"

definition set_cpu_log :: "u32 \<Rightarrow> img_binlog_cpu \<Rightarrow> bl_sys \<Rightarrow> bl_sys" where
  "set_cpu_log cpu c s = s\<lparr>blog := (blog s)\<lparr>cpu_logs := (cpu_logs (blog s))[unat cpu := c]\<rparr>\<rparr>"

text \<open>The next step of thread \<open>t\<close>.\<close>

fun bl_step :: "nat \<Rightarrow> bl_sys \<Rightarrow> bl_sys option" where
  "bl_step t s = (case bpc s t of
     B_Idle \<Rightarrow>
       (case todo s t of
          [] \<Rightarrow> Some s
        | Set_Cpu cpu # _ \<Rightarrow> Some (op_done t (s\<lparr>tls_cpu_id := img_binlog_set_cpu t cpu (tls_cpu_id s)\<rparr>))
        | Write_Event now ev a0 a1 a2 # _ \<Rightarrow>
            let cpu = tls_cpu_id s t in
            if cpu_count (blog s) \<le> cpu then Some (op_done t s)
            else if length (cpu_logs (blog s)) \<le> unat cpu then None
            else let c = cpu_logs (blog s) ! unat cpu; nxt = (btail c + 1) AND bmask c in
              if nxt = bhead c then Some (op_done t s)
              else Some (s\<lparr>bpc := (bpc s)(t := B_Store cpu (btail c) nxt (field_stores cpu now ev a0 a1 a2))\<rparr>))
   | B_Store cpu i nxt (f # fs) \<Rightarrow>
       let c = cpu_logs (blog s) ! unat cpu in
       (case entries c of
          None \<Rightarrow> None
        | Some es \<Rightarrow>
            if length es \<le> unat i then None
            else Some ((set_cpu_log cpu (c\<lparr>entries := Some (es[unat i := f (es ! unat i)])\<rparr>) s)
                  \<lparr>bpc := (bpc s)(t := B_Store cpu i nxt fs)\<rparr>))
   | B_Store cpu i nxt [] \<Rightarrow>
       Some (op_done t (set_cpu_log cpu ((cpu_logs (blog s) ! unat cpu)\<lparr>btail := nxt\<rparr>) s)))"

declare bl_step.simps [simp del]

text \<open>A schedule names the thread of each step.\<close>

fun bl_sched :: "nat list \<Rightarrow> bl_sys \<Rightarrow> bl_sys option" where
  "bl_sched [] s = Some s"
| "bl_sched (t # ts) s = do { s \<leftarrow> bl_step t s; bl_sched ts s }"

section \<open>What a thread has written\<close>

text \<open>The CPUs that the writes of a thread address, and its events for one of them.\<close>

fun addressed :: "u32 \<Rightarrow> bl_op list \<Rightarrow> u32 set" where
  "addressed cpu [] = {}"
| "addressed cpu (Set_Cpu c # os) = addressed c os"
| "addressed cpu (Write_Event now ev a0 a1 a2 # os) = insert cpu (addressed cpu os)"

fun events_for :: "u32 \<Rightarrow> u32 \<Rightarrow> bl_op list \<Rightarrow> img_log_entry list" where
  "events_for c cpu [] = []"
| "events_for c cpu (Set_Cpu c' # os) = events_for c c' os"
| "events_for c cpu (Write_Event now ev a0 a1 a2 # os) =
     (if cpu = c then [\<lparr>timestamp = now, event_id = ev, ecpu = c, arg0 = a0, arg1 = a1, arg2 = a2\<rparr>] else []) @
     events_for c cpu os"

fun cpu_after :: "u32 \<Rightarrow> bl_op list \<Rightarrow> u32" where
  "cpu_after cpu [] = cpu"
| "cpu_after cpu (Set_Cpu c # os) = cpu_after c os"
| "cpu_after cpu (Write_Event now ev a0 a1 a2 # os) = cpu_after cpu os"


lemma events_for_append: "events_for c cpu (xs @ ys) = events_for c cpu xs @ events_for c (cpu_after cpu xs) ys"
  by (induction c cpu xs rule: events_for.induct) auto

lemma cpu_after_append: "cpu_after cpu (xs @ ys) = cpu_after (cpu_after cpu xs) ys"
  by (induction cpu xs rule: cpu_after.induct) auto

definition event_of :: "u32 \<Rightarrow> bl_op \<Rightarrow> img_log_entry" where
  "event_of cpu e = (case e of Write_Event now ev a0 a1 a2 \<Rightarrow>
     \<lparr>timestamp = now, event_id = ev, ecpu = cpu, arg0 = a0, arg1 = a1, arg2 = a2\<rparr>)"

lemma fields_done: "fold id (field_stores cpu now ev a0 a1 a2) e = event_of cpu (Write_Event now ev a0 a1 a2)"
  by (simp add: field_stores_def event_of_def)

section \<open>Every schedule is defined\<close>

text \<open>A thread inside a write is bound for a cell of the log of its CPU, for the write it is about to finish.\<close>

definition at_work :: "nat \<Rightarrow> bl_sys \<Rightarrow> nat \<Rightarrow> bool" where
  "at_work p s u \<longleftrightarrow> (\<forall>cpu i nxt fs. bpc s u = B_Store cpu i nxt fs \<longrightarrow>
     cpu < cpu_count (blog s) \<and> unat i < 2 ^ p \<and> unat nxt < 2 ^ p \<and> tls_cpu_id s u = cpu \<and>
     (\<exists>now ev a0 a1 a2 os. todo s u = Write_Event now ev a0 a1 a2 # os))"

definition sys_ok :: "nat \<Rightarrow> bl_sys \<Rightarrow> bool" where
  "sys_ok p s \<longleftrightarrow> log_ok p (blog s) \<and> (\<forall>u. at_work p s u)"

lemma op_done_sys [simp]:
  "blog (op_done t s) = blog s" "tls_cpu_id (op_done t s) = tls_cpu_id s"
  "todo (op_done t s) = (todo s)(t := tl (todo s t))" "bpc (op_done t s) = (bpc s)(t := B_Idle)"
  by (simp_all add: op_done_def)

lemma set_cpu_log_sys [simp]:
  "todo (set_cpu_log cpu c s) = todo s" "bpc (set_cpu_log cpu c s) = bpc s" "tls_cpu_id (set_cpu_log cpu c s) = tls_cpu_id s"
  "cpu_count (blog (set_cpu_log cpu c s)) = cpu_count (blog s)"
  "cpu_logs (blog (set_cpu_log cpu c s)) = (cpu_logs (blog s))[unat cpu := c]"
  by (simp_all add: set_cpu_log_def)

lemma log_okD:
  assumes "log_ok p bl" and "cpu < cpu_count bl"
  shows "unat cpu < length (cpu_logs bl)" and "cpu_ok p (cpu_logs bl ! unat cpu)"
  using assms by (auto simp: log_ok_def word_less_nat_alt word_le_nat_alt)

lemma set_cpu_log_ok:
  assumes "log_ok p (blog s)" and "cpu_ok p c"
  shows "log_ok p (blog (set_cpu_log cpu c s))"
proof -
  have "cpu_ok p ((cpu_logs (blog s))[unat cpu := c] ! i)" if i: "i < unat (cpu_count (blog s))" for i
  proof (cases "i = unat cpu")
    case True
    have "i < length (cpu_logs (blog s))" using assms(1) i by (simp add: log_ok_def word_le_nat_alt)
    then show ?thesis using True assms(2) by simp
  qed (use assms(1) i in \<open>simp add: log_ok_def\<close>)
  then show ?thesis using assms(1) by (simp add: log_ok_def)
qed

lemma at_work_other:
  "at_work p s u \<Longrightarrow> u \<noteq> t \<Longrightarrow> cpu_count (blog s') = cpu_count (blog s) \<Longrightarrow> bpc s' u = bpc s u \<Longrightarrow>
   tls_cpu_id s' u = tls_cpu_id s u \<Longrightarrow> todo s' u = todo s u \<Longrightarrow> at_work p s' u"
  by (simp add: at_work_def)

text \<open>The kinds of step.\<close>

lemma bl_step_cases:
  assumes ok: "sys_ok p s"
  obtains
    (nothing) "todo s t = []" "bl_step t s = Some s"
  | (set_cpu) cpu os where "todo s t = Set_Cpu cpu # os" "bpc s t = B_Idle"
      "bl_step t s = Some (op_done t (s\<lparr>tls_cpu_id := (tls_cpu_id s)(t := cpu)\<rparr>))"
  | (no_cpu) now ev a0 a1 a2 os where "todo s t = Write_Event now ev a0 a1 a2 # os" "cpu_count (blog s) \<le> tls_cpu_id s t"
      "bpc s t = B_Idle" "bl_step t s = Some (op_done t s)"
  | (full) now ev a0 a1 a2 os where "todo s t = Write_Event now ev a0 a1 a2 # os" "tls_cpu_id s t < cpu_count (blog s)"
      "Suc (unat (btail (cpu_logs (blog s) ! unat (tls_cpu_id s t)))) = 2 ^ p" "bl_step t s = Some (op_done t s)"
  | (load) now ev a0 a1 a2 os i where "todo s t = Write_Event now ev a0 a1 a2 # os" "tls_cpu_id s t < cpu_count (blog s)"
      "i = btail (cpu_logs (blog s) ! unat (tls_cpu_id s t))" "unat (i + 1) = Suc (unat i)" "Suc (unat i) < 2 ^ p"
      "bl_step t s = Some (s\<lparr>bpc := (bpc s)(t := B_Store (tls_cpu_id s t) i (i + 1) (field_stores (tls_cpu_id s t) now ev a0 a1 a2))\<rparr>)"
  | (store) i nxt f fs es where "bpc s t = B_Store (tls_cpu_id s t) i nxt (f # fs)" "tls_cpu_id s t < cpu_count (blog s)"
      "entries (cpu_logs (blog s) ! unat (tls_cpu_id s t)) = Some es" "unat i < length es"
      "bl_step t s = Some ((set_cpu_log (tls_cpu_id s t) ((cpu_logs (blog s) ! unat (tls_cpu_id s t))
          \<lparr>entries := Some (es[unat i := f (es ! unat i)])\<rparr>) s)\<lparr>bpc := (bpc s)(t := B_Store (tls_cpu_id s t) i nxt fs)\<rparr>)"
  | (publish) i nxt where "bpc s t = B_Store (tls_cpu_id s t) i nxt []" "tls_cpu_id s t < cpu_count (blog s)"
      "unat nxt < 2 ^ p"
      "bl_step t s = Some (op_done t (set_cpu_log (tls_cpu_id s t)
          ((cpu_logs (blog s) ! unat (tls_cpu_id s t))\<lparr>btail := nxt\<rparr>) s))"
proof (cases "bpc s t")
  case B_Idle
  note pc = B_Idle
  show ?thesis
  proof (cases "todo s t")
    case Nil
    show ?thesis by (rule nothing) (use Nil pc in \<open>simp_all add: bl_step.simps\<close>)
  next
    case (Cons e os)
    show ?thesis
    proof (cases e)
      case (Set_Cpu cpu)
      then show ?thesis using set_cpu Cons pc by (simp add: bl_step.simps img_binlog_set_cpu_def)
    next
      case (Write_Event now ev a0 a1 a2)
      show ?thesis
      proof (cases "tls_cpu_id s t < cpu_count (blog s)")
        case False
        then show ?thesis using no_cpu Cons Write_Event pc by (simp add: bl_step.simps not_less)
      next
        case True
        let ?c = "cpu_logs (blog s) ! unat (tls_cpu_id s t)"
        have c: "unat (tls_cpu_id s t) < length (cpu_logs (blog s))" "cpu_ok p ?c" "\<not> cpu_count (blog s) \<le> tls_cpu_id s t"
          using ok True log_okD [of p "blog s"] by (auto simp: sys_ok_def)
        then have i: "p < 32" "bmask ?c = mask p" "bhead ?c = 0" "unat (btail ?c) < 2 ^ p" by (auto simp: cpu_ok_def)
        show ?thesis
        proof (cases "Suc (unat (btail ?c)) = 2 ^ p")
          case full': True
          then show ?thesis using full Cons Write_Event pc True c mask_next(1) [OF i(1,4)] i(2,3)
            by (simp add: bl_step.simps Let_def)
        next
          case False
          have nxt: "(btail ?c + 1) AND bmask ?c = btail ?c + 1" "unat (btail ?c + 1) = Suc (unat (btail ?c))"
            using mask_next [OF i(1,4)] False i(2) by simp_all
          then have "btail ?c + 1 \<noteq> 0" by auto
          then have "bl_step t s = Some (s\<lparr>bpc := (bpc s)(t := B_Store (tls_cpu_id s t) (btail ?c) (btail ?c + 1)
              (field_stores (tls_cpu_id s t) now ev a0 a1 a2))\<rparr>)"
            using Cons Write_Event pc c i(3) nxt(1) by (simp add: bl_step.simps Let_def)
          then show ?thesis using load [OF _ True refl nxt(2)] Cons Write_Event False i(4) by simp
        qed
      qed
    qed
  qed
next
  case (B_Store cpu i nxt fs)
  then have w: "cpu < cpu_count (blog s)" "unat i < 2 ^ p" "unat nxt < 2 ^ p" "tls_cpu_id s t = cpu"
    using ok unfolding sys_ok_def at_work_def by blast+
  then have "cpu_ok p (cpu_logs (blog s) ! unat cpu)" using ok log_okD(2) by (simp add: sys_ok_def)
  then obtain es where es: "entries (cpu_logs (blog s) ! unat cpu) = Some es" "unat i < length es"
    using w(2) by (auto simp: cpu_ok_def)
  show ?thesis
  proof (cases fs)
    case Nil
    then show ?thesis using publish B_Store w by (simp add: bl_step.simps)
  next
    case (Cons f fs')
    then show ?thesis using store [of i nxt f fs' es] B_Store w es by (simp add: bl_step.simps Let_def)
  qed
qed

text \<open>No schedule leaves an array, whatever the threads log, also on a CPU that several of them use.\<close>

lemma bl_step_ok:
  assumes ok: "sys_ok p s"
  shows "\<exists>s'. bl_step t s = Some s' \<and> sys_ok p s' \<and> cpu_count (blog s') = cpu_count (blog s)"
proof -
  have others: "\<forall>u. u \<noteq> t \<longrightarrow> at_work p s u" and log: "log_ok p (blog s)" using ok by (auto simp: sys_ok_def)
  have frame: "sys_ok p s'" if "log_ok p (blog s')" "at_work p s' t" "cpu_count (blog s') = cpu_count (blog s)"
    "\<forall>u. u \<noteq> t \<longrightarrow> bpc s' u = bpc s u \<and> tls_cpu_id s' u = tls_cpu_id s u \<and> todo s' u = todo s u" for s'
    using that others unfolding sys_ok_def by (metis at_work_other)
  have idle: "at_work p s' t" if "bpc s' t = B_Idle" for s' using that by (simp add: at_work_def)
  from ok show ?thesis
  proof (cases rule: bl_step_cases [where t = t])
    case (load now ev a0 a1 a2 os i)
    then show ?thesis using log by (auto intro!: frame simp: at_work_def)
  next
    case (store i nxt f fs es)
    have "cpu_ok p (cpu_logs (blog s) ! unat (tls_cpu_id s t))" using store(2) log by (rule log_okD(2) [rotated])
    then have "cpu_ok p ((cpu_logs (blog s) ! unat (tls_cpu_id s t))\<lparr>entries := Some (es[unat i := f (es ! unat i)])\<rparr>)"
      using store(3) by (simp add: cpu_ok_def)
    moreover have "at_work p s t" using ok by (simp add: sys_ok_def)
    ultimately show ?thesis using store log set_cpu_log_ok [OF log] by (auto intro!: frame simp: at_work_def)
  next
    case (publish i nxt)
    have "cpu_ok p (cpu_logs (blog s) ! unat (tls_cpu_id s t))" using publish(2) log by (rule log_okD(2) [rotated])
    then have "cpu_ok p ((cpu_logs (blog s) ! unat (tls_cpu_id s t))\<lparr>btail := nxt\<rparr>)"
      using publish(3) by (simp add: cpu_ok_def)
    then show ?thesis using publish log set_cpu_log_ok [OF log] by (auto intro!: frame idle)
  qed (use ok log in \<open>auto intro!: frame idle\<close>)
qed

lemma bl_sched_ok: "sys_ok p s \<Longrightarrow> \<exists>s'. bl_sched ts s = Some s' \<and> sys_ok p s'"
proof (induction ts arbitrary: s)
  case (Cons t ts)
  then show ?case using bl_step_ok [OF Cons.prems, of t] by auto
qed simp

section \<open>A CPU with one thread\<close>

text \<open>Only thread \<open>t\<close> writes to the log of \<open>c\<close>; \<open>prog\<close> and \<open>cpu0\<close> are its calls and its CPU at the start.\<close>

definition alone_on :: "u32 \<Rightarrow> nat \<Rightarrow> bl_sys \<Rightarrow> bool" where
  "alone_on c t s \<longleftrightarrow> (\<forall>u. u \<noteq> t \<longrightarrow> c \<notin> addressed (tls_cpu_id s u) (todo s u))"

definition kept :: "nat \<Rightarrow> u32 \<Rightarrow> nat \<Rightarrow> u32 \<Rightarrow> bl_op list \<Rightarrow> bl_sys \<Rightarrow> bool" where
  "kept p c t cpu0 prog s \<longleftrightarrow> (\<exists>fin. prog = fin @ todo s t \<and> tls_cpu_id s t = cpu_after cpu0 fin \<and>
     recorded (cpu_logs (blog s) ! unat c) = take (2 ^ p - 1) (events_for c cpu0 fin))"

definition filling :: "u32 \<Rightarrow> nat \<Rightarrow> bl_sys \<Rightarrow> bool" where
  "filling c t s \<longleftrightarrow> (\<forall>i nxt fs. bpc s t = B_Store c i nxt fs \<longrightarrow>
     i = btail (cpu_logs (blog s) ! unat c) \<and> unat nxt = Suc (unat i) \<and>
     fold id fs (the (entries (cpu_logs (blog s) ! unat c)) ! unat i) = event_of c (hd (todo s t)))"

lemma at_workD:
  assumes "sys_ok p s" and "bpc s u = B_Store cpu i nxt fs"
  obtains now ev a0 a1 a2 os where "todo s u = Write_Event now ev a0 a1 a2 # os" and "tls_cpu_id s u = cpu"
  using assms unfolding sys_ok_def at_work_def by blast

lemma alone_step:
  assumes "sys_ok p s" and "alone_on c t s" and "bl_step u s = Some s'"
  shows "alone_on c t s'"
  using assms(1)
proof (cases rule: bl_step_cases [where t = u])
  case (publish i nxt)
  obtain now ev a0 a1 a2 os where "todo s u = Write_Event now ev a0 a1 a2 # os" using at_workD [OF assms(1) publish(1)] .
  then show ?thesis using publish assms(2,3) by (auto simp: alone_on_def)
qed (use assms(2,3) in \<open>auto simp: alone_on_def\<close>)

text \<open>A step of another thread leaves the log of \<open>c\<close> alone.\<close>

lemma other_step:
  assumes ok: "sys_ok p s" and "alone_on c t s" and "u \<noteq> t" and "bl_step u s = Some s'"
  shows "cpu_logs (blog s') ! unat c = cpu_logs (blog s) ! unat c \<and> todo s' t = todo s t \<and>
    bpc s' t = bpc s t \<and> tls_cpu_id s' t = tls_cpu_id s t"
proof -
  have far: "unat (tls_cpu_id s u) \<noteq> unat c" if b: "bpc s u = B_Store cpu i nxt fs" for cpu i nxt fs
  proof -
    obtain now ev a0 a1 a2 os where "todo s u = Write_Event now ev a0 a1 a2 # os" using at_workD [OF ok b] .
    then have "tls_cpu_id s u \<in> addressed (tls_cpu_id s u) (todo s u)" by simp
    then have "tls_cpu_id s u \<noteq> c" using assms(2,3) by (auto simp: alone_on_def)
    then show ?thesis by (metis word_unat_eq_iff)
  qed
  from ok show ?thesis
  proof (cases rule: bl_step_cases [where t = u])
    case (store i nxt f fs es)
    show ?thesis using far [OF store(1)] store(5) assms(3,4) by auto
  next
    case (publish i nxt)
    show ?thesis using far [OF publish(1)] publish(4) assms(3,4) by auto
  qed (use assms(3,4) in auto)
qed

lemma fills_up:
  assumes "cpu_ok p c" "Suc (unat (btail c)) = 2 ^ p" "recorded c = take (2 ^ p - 1) xs"
  shows "recorded c = take (2 ^ p - 1) (xs @ ys)"
proof -
  obtain es where "entries c = Some es" "length es = 2 ^ p" using assms(1) by (auto simp: cpu_ok_def)
  then have "length (recorded c) = 2 ^ p - 1" using assms(2) by (simp add: recorded_def)
  then have "length (take (2 ^ p - 1) xs) = 2 ^ p - 1" using assms(3) by simp
  then have "2 ^ p - 1 \<le> length xs" by (simp only: length_take min_def split: if_splits)
  then show ?thesis using assms(3) by simp
qed

lemma own_step:
  assumes ok: "sys_ok p s" and c: "c < cpu_count (blog s)" and inv: "kept p c t cpu0 prog s" "filling c t s"
    and step: "bl_step t s = Some s'"
  shows "kept p c t cpu0 prog s' \<and> filling c t s'"
proof -
  obtain fin where fin: "prog = fin @ todo s t" "tls_cpu_id s t = cpu_after cpu0 fin"
    "recorded (cpu_logs (blog s) ! unat c) = take (2 ^ p - 1) (events_for c cpu0 fin)"
    using inv(1) by (auto simp: kept_def)
  have log: "log_ok p (blog s)" using ok by (auto simp: sys_ok_def)
  have cok: "unat c < length (cpu_logs (blog s))" "cpu_ok p (cpu_logs (blog s) ! unat c)" using log_okD [OF log c] .
  have kept: "kept p c t cpu0 prog s'"
    if "prog = (fin @ xs) @ todo s' t" "tls_cpu_id s' t = cpu_after (tls_cpu_id s t) xs"
      "recorded (cpu_logs (blog s') ! unat c) = take (2 ^ p - 1) (events_for c cpu0 fin @ events_for c (tls_cpu_id s t) xs)" for s' xs
    unfolding kept_def using that fin(2)
    by (intro exI [of _ "fin @ xs"]) (simp add: events_for_append cpu_after_append)
  have idle: "filling c t s'" if "bpc s' t = B_Idle" for s' using that by (simp add: filling_def)
  from ok show ?thesis
  proof (cases rule: bl_step_cases [where t = t])
    case nothing
    then show ?thesis using inv step by simp
  next
    case (set_cpu cpu os)
    then show ?thesis using fin step by (intro conjI kept [of "[Set_Cpu cpu]"] idle) auto
  next
    case (no_cpu now ev a0 a1 a2 os)
    then have "tls_cpu_id s t \<noteq> c" using c by auto
    then show ?thesis using no_cpu fin step by (intro conjI kept [of "[Write_Event now ev a0 a1 a2]"] idle) auto
  next
    case (full now ev a0 a1 a2 os)
    have "recorded (cpu_logs (blog s) ! unat c) =
        take (2 ^ p - 1) (events_for c cpu0 fin @ events_for c (tls_cpu_id s t) [Write_Event now ev a0 a1 a2])"
    proof (cases "tls_cpu_id s t = c")
      case True
      then show ?thesis using fills_up [OF cok(2) _ fin(3)] full(3) by simp
    qed (use fin(3) in simp)
    then show ?thesis using full fin step by (intro conjI kept [of "[Write_Event now ev a0 a1 a2]"] idle) auto
  next
    case (load now ev a0 a1 a2 os i)
    have "kept p c t cpu0 prog s'" using load fin step by (intro kept [of "[]"]) auto
    moreover have "filling c t s'" using load step by (auto simp: filling_def fields_done)
    ultimately show ?thesis ..
  next
    case (store i nxt f fs es)
    show ?thesis
    proof (cases "tls_cpu_id s t = c")
      case True
      then have "i = btail (cpu_logs (blog s) ! unat c)" using inv(2) store(1) by (auto simp: filling_def)
      then have "kept p c t cpu0 prog s'" using store fin step cok(1) True
        by (intro kept [of "[]"]) (auto simp: recorded_def)
      moreover have "filling c t s'" using store step cok(1) True inv(2) by (auto simp: filling_def)
      ultimately show ?thesis ..
    next
      case False
      then have "unat (tls_cpu_id s t) \<noteq> unat c" by (metis word_unat_eq_iff)
      then have "kept p c t cpu0 prog s'" using store fin step by (intro kept [of "[]"]) auto
      moreover have "filling c t s'" using store step False by (auto simp: filling_def)
      ultimately show ?thesis ..
    qed
  next
    case (publish i nxt)
    obtain now ev a0 a1 a2 os where td: "todo s t = Write_Event now ev a0 a1 a2 # os"
      using at_workD [OF ok publish(1)] .
    let ?e = "Write_Event now ev a0 a1 a2"
    have "recorded (cpu_logs (blog s') ! unat c) = take (2 ^ p - 1) (events_for c cpu0 fin @ events_for c (tls_cpu_id s t) [?e])"
    proof (cases "tls_cpu_id s t = c")
      case True
      let ?c = "cpu_logs (blog s) ! unat c"
      have f: "i = btail ?c" "unat nxt = Suc (unat i)" "the (entries ?c) ! unat i = event_of c ?e"
        using inv(2) publish(1) True td by (auto simp: filling_def)
      obtain es where es: "entries ?c = Some es" "length es = 2 ^ p" using cok(2) by (auto simp: cpu_ok_def)
      have room: "Suc (unat i) < 2 ^ p" using publish(3) f(2) by simp
      then have "length (recorded ?c) < 2 ^ p - 1" using f(1) es by (simp add: recorded_def)
      then have short: "recorded ?c = events_for c cpu0 fin" "length (events_for c cpu0 fin) < 2 ^ p - 1"
        using fin(3) by auto
      have "recorded (?c\<lparr>btail := nxt\<rparr>) = recorded ?c @ [event_of c ?e]"
        using f es room by (simp add: recorded_def take_Suc_conv_app_nth)
      then show ?thesis using publish step cok(1) True short by (auto simp: event_of_def)
    next
      case False
      then have "unat (tls_cpu_id s t) \<noteq> unat c" by (metis word_unat_eq_iff)
      then show ?thesis using publish step fin(3) False by auto
    qed
    then have "kept p c t cpu0 prog s'" using publish step fin td by (intro kept [of "[?e]"]) auto
    moreover have "filling c t s'" using publish step by (auto intro: idle)
    ultimately show ?thesis ..
  qed
qed

lemma bl_sched_kept:
  assumes "sys_ok p s" "c < cpu_count (blog s)" "alone_on c t s" "kept p c t cpu0 prog s" "filling c t s"
  shows "\<exists>s'. bl_sched ts s = Some s' \<and> kept p c t cpu0 prog s'"
  using assms
proof (induction ts arbitrary: s)
  case (Cons u ts)
  obtain s1 where s1: "bl_step u s = Some s1" "sys_ok p s1" "cpu_count (blog s1) = cpu_count (blog s)"
    using bl_step_ok [OF Cons.prems(1)] by blast
  have "kept p c t cpu0 prog s1 \<and> filling c t s1"
  proof (cases "u = t")
    case True
    then show ?thesis using own_step [OF Cons.prems(1,2,4,5)] s1(1) by simp
  next
    case False
    then show ?thesis using other_step [OF Cons.prems(1,3) False s1(1)] Cons.prems(4,5) by (simp add: kept_def filling_def)
  qed
  then show ?case using Cons.IH [of s1] s1 Cons.prems(2) alone_step [OF Cons.prems(1,3) s1(1)] by auto
qed auto

definition bl_start :: "img_binlog \<Rightarrow> (nat \<Rightarrow> u32) \<Rightarrow> (nat \<Rightarrow> bl_op list) \<Rightarrow> bl_sys" where
  "bl_start bl tls progs = \<lparr>blog = bl, tls_cpu_id = tls, todo = progs, bpc = \<lambda>_. B_Idle\<rparr>"

section \<open>Properties\<close>

text \<open>
  C35. After a successful \<open>img_binlog_init\<close> with up to 128 CPUs and rings of \<open>2\<^sup>p\<^sup>o\<^sup>w\<close> entries, threads
  call \<open>img_binlog_set_cpu\<close> and \<open>img_binlog_write\<close>, their loads and stores interleaved in any order.
  No schedule leaves an array. If thread \<open>t\<close> is the only one that writes to the log of CPU \<open>c\<close>, as the
  comment of the function asks (other CPUs may be shared), that log holds the first \<open>2\<^sup>p\<^sup>o\<^sup>w - 1\<close>
  events of the calls \<open>t\<close> has finished there, in order: nothing advances \<open>head\<close>, so all later events
  are dropped.
\<close>

theorem binlog_keeps_first:
  assumes "\<forall>i. \<exists>es. alloc i = Some es \<and> length es = 2 ^ unat pow" and "pow < 32" and "0 < cpus" "cpus \<le> 128"
    and "c < cpus" and "\<forall>u. u \<noteq> t \<longrightarrow> c \<notin> addressed (tls u) (progs u)"
  shows "\<exists>bl s. img_binlog_init alloc (Some bl0) cpus pow = Some (0, Some bl) \<and>
    bl_sched order (bl_start bl tls progs) = Some s \<and>
    (\<exists>fin. progs t = fin @ todo s t \<and>
       recorded (cpu_logs (blog s) ! unat c) = take (2 ^ unat pow - 1) (events_for c (tls t) fin))"
proof -
  obtain bl :: img_binlog where bl: "img_binlog_init alloc (Some bl0) cpus pow = Some (0, Some bl)" "log_ok (unat pow) bl" "cpu_count bl = cpus"
    "\<forall>c < cpus. recorded (cpu_logs bl ! unat c) = []"
    using binlog_init_ok [OF assms(1-4), of bl0] by blast
  have "sys_ok (unat pow) (bl_start bl tls progs)" using bl(2) by (simp add: sys_ok_def at_work_def bl_start_def)
  moreover have "alone_on c t (bl_start bl tls progs)" using assms(6) by (simp add: alone_on_def bl_start_def)
  moreover have "kept (unat pow) c t (tls t) (progs t) (bl_start bl tls progs)"
    using bl(4) assms(5) by (auto simp: kept_def bl_start_def)
  moreover have "filling c t (bl_start bl tls progs)" by (simp add: filling_def bl_start_def)
  ultimately show ?thesis using bl bl_sched_kept [of "unat pow" "bl_start bl tls progs" c t "tls t" "progs t" order] assms(5)
    by (auto simp: kept_def bl_start_def)
qed

definition blank_entry :: img_log_entry where
  "blank_entry = \<lparr>timestamp = 0, event_id = 0, ecpu = 0, arg0 = 0, arg1 = 0, arg2 = 0\<rparr>"

definition two_threads :: "nat \<Rightarrow> bl_op list" where
  "two_threads t = (if t = 0 then [Set_Cpu 3, Write_Event 9 1 2 3 4, Write_Event 10 2 2 3 4] else if t = 1 then [Write_Event 7 1 1 1 1] else [])"

theorem binlog_keeps_first_witness:
  "\<exists>bl s. img_binlog_init (\<lambda>_. Some (replicate 2 blank_entry)) (Some \<lparr>cpu_count = 0, cpu_logs = []\<rparr>) 4 1 = Some (0, Some bl) \<and>
    bl_sched [0, 1, 0, 0, 1] (bl_start bl (\<lambda>_. 0) two_threads) = Some s \<and>
    (\<exists>fin. two_threads 0 = fin @ todo s 0 \<and>
       recorded (cpu_logs (blog s) ! unat (3 :: u32)) = take (2 ^ unat (1 :: u32) - 1) (events_for 3 0 fin))"
  by (rule binlog_keeps_first) (auto simp: word_less_nat_alt word_le_nat_alt two_threads_def)

text \<open>A call that is not interrupted is \<^const>\<open>img_binlog_write\<close>.\<close>

lemma all_fields: "e\<lparr>timestamp := now, event_id := ev, ecpu := cpu, arg0 := a0, arg1 := a1, arg2 := a2\<rparr> =
    \<lparr>timestamp = now, event_id = ev, ecpu = cpu, arg0 = a0, arg1 = a1, arg2 = a2\<rparr>"
  by simp

lemma write_alone:
  assumes pc: "bpc s t = B_Idle" and td: "todo s t = Write_Event now ev a0 a1 a2 # os"
    and w: "img_binlog_write (tls_cpu_id s t) now ev a0 a1 a2 (blog s) = Some bl"
  shows "\<exists>n s'. bl_sched (replicate n t) s = Some s' \<and> blog s' = bl \<and> bpc s' t = B_Idle \<and> todo s' t = os"
proof -
  let ?cpu = "tls_cpu_id s t"
  let ?c = "cpu_logs (blog s) ! unat ?cpu"
  show ?thesis
  proof (cases "cpu_count (blog s) \<le> ?cpu \<or> (btail ?c + 1) AND bmask ?c = bhead ?c")
    case True
    have "bl = blog s \<and> bl_step t s = Some (op_done t s)"
    proof (cases "cpu_count (blog s) \<le> ?cpu")
      case False
      then have "\<not> length (cpu_logs (blog s)) \<le> unat ?cpu" using w by (auto simp: img_binlog_write_def)
      then show ?thesis using False True w pc td by (simp add: img_binlog_write_def bl_step.simps Let_def)
    qed (use w pc td in \<open>simp add: img_binlog_write_def bl_step.simps\<close>)
    then show ?thesis using td by (intro exI [of _ 1] exI [of _ "op_done t s"]) simp
  next
    case False
    then have cpu: "\<not> cpu_count (blog s) \<le> ?cpu" "(btail ?c + 1) AND bmask ?c \<noteq> bhead ?c" by simp_all
    then have i: "\<not> length (cpu_logs (blog s)) \<le> unat ?cpu" using w by (auto simp: img_binlog_write_def)
    then obtain es where es: "entries ?c = Some es" "\<not> length es \<le> unat (btail ?c)"
      using w cpu by (auto simp: img_binlog_write_def Let_def split: option.splits if_splits)
    have bl: "bl = (blog s)\<lparr>cpu_logs := (cpu_logs (blog s))[unat ?cpu := ?c\<lparr>entries := Some (es[unat (btail ?c) :=
        event_of ?cpu (Write_Event now ev a0 a1 a2)]), btail := (btail ?c + 1) AND bmask ?c\<rparr>]\<rparr>"
      using w cpu i es by (simp add: img_binlog_write_def Let_def event_of_def)
    have "\<exists>s'. bl_sched (replicate 8 t) s = Some s' \<and> blog s' = bl \<and> bpc s' t = B_Idle \<and> todo s' t = os"
      unfolding bl using cpu i es pc td
      by (simp add: numeral_eq_Suc bl_step.simps field_stores_def event_of_def Let_def set_cpu_log_def all_fields)
    then show ?thesis by blast
  qed
qed

text \<open>
  Two threads on one CPU, as on CPU 0 before any \<^const>\<open>img_binlog_set_cpu\<close>: both read the same
  \<open>tail\<close>, and of two finished calls one event is in the log, with room left.
\<close>

lemma shared_cpu_loses_event:
  "map_option (\<lambda>s. (todo s 0, todo s 1, map event_id (recorded (cpu_logs (blog s) ! 0))))
     (bl_sched ([0, 1] @ replicate 7 0 @ replicate 7 1)
       (bl_start (the (snd (the (img_binlog_init (\<lambda>_. Some (replicate 4 blank_entry)) (Some \<lparr>cpu_count = 0, cpu_logs = []\<rparr>) 1 2))))
         (\<lambda>_. 0) (\<lambda>t. if t < 2 then [Write_Event 5 (of_nat t) 0 0 0] else []))) = Some ([], [], [1])"
  by code_simp

end
