(* ===== verification/Kernels.thy ===== *)
theory Kernels
  imports Fusion
begin

text \<open>
  The kernels behind the jump table: \<open>arch/x86_64/scalar\<close>, \<open>arch/x86_64/avx2\<close>, \<open>arch/x86_64/avx512\<close>
  and the plugins \<open>plugins/plugin_resize.c\<close>, \<open>plugins/plugin_grayscale.c\<close> and
  \<open>plugins/plugin_crop.c\<close>. \<open>s\<close> is the storage of the image that is written, \<open>sm\<close> that of a source
  image, which is another object. Products of 32-bit numbers wrap, as in the code.
\<close>

section \<open>Grayscale\<close>

definition luma :: "u8 \<Rightarrow> u8 \<Rightarrow> u8 \<Rightarrow> u8" where
  "luma r g b = ucast (drop_bit 8 (ucast r * 77 + ucast g * 150 + ucast b * 29 :: u32))"

definition gray_at :: "img_buffer \<Rightarrow> nat \<Rightarrow> nat \<Rightarrow> bytes \<Rightarrow> bytes option" where
  "gray_at b y x s =
     (let row = unat (of_nat y * stride b); i = of_nat x * channels b in do {
        r \<leftarrow> load s (row + unat i);
        g \<leftarrow> load s (row + unat (i + 1));
        u \<leftarrow> load s (row + unat (i + 2));
        let v = luma r g u;
        s \<leftarrow> store (row + unat (i + 2)) v s;
        s \<leftarrow> store (row + unat (i + 1)) v s;
        store (row + unat i) v s })"

definition img_arch_grayscale_scalar :: "img_buffer \<Rightarrow> bytes \<Rightarrow> bytes option" where
  "img_arch_grayscale_scalar b s = foreach [0..<H b] (\<lambda>y. foreach [0..<W b] (gray_at b y)) s"

text \<open>
  The AVX2 kernel: 32 bytes at a time with the coefficient of red for every channel, then pixels of
  three bytes from the last multiple of three on, whatever the number of channels. A row within
  32 bytes of \<open>2\<^sup>3\<^sup>2\<close> makes the loop test wrap around: no result.
\<close>

definition gray_vec :: "bytes \<Rightarrow> bytes" where
  "gray_vec v =
     (let lo = mm256_srli_epi16 (mm256_mullo_epi16 (mm256_unpacklo_epi8 v) 77) 8;
          hi = mm256_srli_epi16 (mm256_mullo_epi16 (mm256_unpackhi_epi8 v) 77) 8
      in mm256_packus_epi16 lo hi)"

definition gray_tail :: "nat \<Rightarrow> nat \<Rightarrow> bytes \<Rightarrow> bytes option" where
  "gray_tail row i s = do {
     r \<leftarrow> load s (row + i);
     g \<leftarrow> load s (row + i + 1);
     u \<leftarrow> load s (row + i + 2);
     let gray = drop_bit 8 (ucast (ucast r * 77 + ucast g * 150 + ucast u * 29 :: u32) :: u16);
     let v = (if gray > 255 then 255 else ucast gray :: u8);
     s \<leftarrow> store (row + i + 2) v s;
     s \<leftarrow> store (row + i + 1) v s;
     store (row + i) v s }"

definition img_arch_grayscale_avx2 :: "img_buffer \<Rightarrow> bytes \<Rightarrow> bytes option" where
  "img_arch_grayscale_avx2 b s =
     foreach [0..<H b] (\<lambda>y s.
       let row = y * unat (stride b); n = unat (width b * channels b) in
       if n \<ge> 2 ^ 32 - 32 then None
       else do {
         s \<leftarrow> foreach [0..<n div 32] (\<lambda>k. map_vec gray_vec row (32 * k)) s;
         let start = (32 * (n div 32)) div 3 * 3;
         foreach [0..<(n - start) div 3] (\<lambda>k. gray_tail row (start + 3 * k)) s }) s"

definition grayscale_exec :: "img_buffer \<Rightarrow> bytes \<Rightarrow> bytes option" where
  "grayscale_exec b s = foreach [0..<unat (width b * height b * channels b)] (map_byte gray_px 0) s"

section \<open>Resizing\<close>

record resize_params =
  rsrc :: "img_buffer option"
  target_w :: u32
  target_h :: u32
  scale_x :: u32
  scale_y :: u32
  x_index :: "u32 list option"
  y_index :: "u32 list option"

definition entry :: "'a list \<Rightarrow> nat \<Rightarrow> 'a option" where
  "entry xs i = (if i < length xs then Some (xs ! i) else None)"

definition resize_scalar :: "resize_params option \<Rightarrow> img_buffer \<Rightarrow> img_buffer" where
  "resize_scalar po b =
     (case po of
        None \<Rightarrow> b
      | Some p \<Rightarrow> if rsrc p = None then b else b\<lparr>width := target_w p, height := target_h p\<rparr>)"

text \<open>The AVX-512 kernel does not test its parameters.\<close>

definition img_arch_resize_avx512 :: "resize_params option \<Rightarrow> img_buffer \<Rightarrow> img_buffer option" where
  "img_arch_resize_avx512 po b = map_option (\<lambda>p. b\<lparr>width := target_w p, height := target_h p\<rparr>) po"

definition resize_single :: "img_buffer \<Rightarrow> img_buffer" where
  "resize_single b = b\<lparr>width := width b div 2, height := height b div 2\<rparr>"

text \<open>The channels of one pixel: source column \<open>sx\<close> to column \<open>x\<close>.\<close>

definition copy_pixel :: "u32 \<Rightarrow> bytes \<Rightarrow> nat \<Rightarrow> u32 \<Rightarrow> nat \<Rightarrow> nat \<Rightarrow> bytes \<Rightarrow> bytes option" where
  "copy_pixel ch sm srow sx drow x =
     foreach [0..<unat ch] (\<lambda>c s. do {
       v \<leftarrow> load sm (srow + unat (sx * ch + of_nat c));
       store (drow + unat (of_nat x * ch + of_nat c)) v s })"

definition img_arch_resize_h_scalar :: "resize_params option \<Rightarrow> bytes \<Rightarrow> img_buffer \<Rightarrow> bytes \<Rightarrow> bytes option" where
  "img_arch_resize_h_scalar po sm dst s =
     (case po of
        None \<Rightarrow> Some s
      | Some p \<Rightarrow>
          (case (rsrc p, x_index p) of
             (Some src, Some xs) \<Rightarrow>
               foreach [0..<H src] (\<lambda>y. foreach [0..<W dst] (\<lambda>x s. do {
                 sx \<leftarrow> entry xs x;
                 copy_pixel (channels src) sm (unat (of_nat y * stride src)) sx (unat (of_nat y * stride dst)) x s })) s
           | _ \<Rightarrow> Some s))"

definition img_arch_resize_v_scalar :: "resize_params option \<Rightarrow> bytes \<Rightarrow> img_buffer \<Rightarrow> bytes \<Rightarrow> bytes option" where
  "img_arch_resize_v_scalar po sm dst s =
     (case po of
        None \<Rightarrow> Some s
      | Some p \<Rightarrow>
          (case (rsrc p, y_index p) of
             (Some src, Some ys) \<Rightarrow>
               foreach [0..<H dst] (\<lambda>y s. do {
                 sy \<leftarrow> entry ys y;
                 copy_bytes sm (unat (sy * stride src)) (unat (of_nat y * stride dst)) (unat (width dst * channels dst)) s }) s
           | _ \<Rightarrow> Some s))"

text \<open>
  The AVX2 kernels do not test their parameters: a null pointer that is used has no result. The
  horizontal one copies 32 bytes for every 32 pixels.
\<close>

definition img_arch_resize_h_avx2 :: "resize_params option \<Rightarrow> bytes \<Rightarrow> img_buffer \<Rightarrow> bytes \<Rightarrow> bytes option" where
  "img_arch_resize_h_avx2 po sm dst s = do {
     p \<leftarrow> po;
     src \<leftarrow> rsrc p;
     foreach [0..<H src] (\<lambda>y s.
       let srow = unat (of_nat y * stride src); drow = unat (of_nat y * stride dst) in
       if W dst \<ge> 2 ^ 32 - 32 then None
       else chunked 32
         (\<lambda>x s. do {
            xs \<leftarrow> x_index p; sx \<leftarrow> entry xs x;
            copy_bytes sm (srow + unat (sx * channels src)) (drow + unat (of_nat x * channels dst)) 32 s })
         (\<lambda>x s. do { xs \<leftarrow> x_index p; sx \<leftarrow> entry xs x; copy_pixel (channels src) sm srow sx drow x s })
         (W dst) s) s }"

definition move_row :: "bytes \<Rightarrow> nat \<Rightarrow> nat \<Rightarrow> nat \<Rightarrow> bytes \<Rightarrow> bytes option" where
  "move_row sm srow drow n s =
     (if n \<ge> 2 ^ 32 - 32 then None
      else chunked 32 (\<lambda>i. copy_bytes sm (srow + i) (drow + i) 32) (copy_byte sm srow drow) n s)"

definition img_arch_resize_v_avx2 :: "resize_params option \<Rightarrow> bytes \<Rightarrow> img_buffer \<Rightarrow> bytes \<Rightarrow> bytes option" where
  "img_arch_resize_v_avx2 po sm dst s = do {
     p \<leftarrow> po;
     foreach [0..<H dst] (\<lambda>y s. do {
       ys \<leftarrow> y_index p; sy \<leftarrow> entry ys y; src \<leftarrow> rsrc p;
       move_row sm (unat (sy * stride src)) (unat (of_nat y * stride dst)) (unat (width dst * channels dst)) s }) s }"

text \<open>The batch kernel does the same to every image of a batch; a null pointer among them is undefined.\<close>

definition img_batch_resize_fused_avx2 ::
  "resize_params option \<Rightarrow> bytes \<Rightarrow> (img_buffer option \<times> bytes) list \<Rightarrow> (img_buffer option \<times> bytes) list option" where
  "img_batch_resize_fused_avx2 po sm batch =
     those (map (\<lambda>(dst, s). do { dst \<leftarrow> dst; s \<leftarrow> img_arch_resize_v_avx2 po sm dst s; Some (Some dst, s) }) batch)"

text \<open>
  \<open>resize_avx2\<close>: a vector iteration copies 32 consecutive bytes from the scaled column of its first
  byte; \<open>sx_fixed\<close> advances by \<open>scale_x * (32 / ch)\<close> each time.
\<close>

definition img_arch_avx2_resize :: "resize_params option \<Rightarrow> bytes \<Rightarrow> img_buffer \<Rightarrow> bytes \<Rightarrow> bytes option" where
  "img_arch_avx2_resize po sm dst s = do {
     p \<leftarrow> po;
     src \<leftarrow> rsrc p;
     let ch = channels src;
     foreach [0..<H dst] (\<lambda>dy s.
       let sy = drop_bit 16 (of_nat dy * scale_y p) :: u32;
           srow = unat (sy * stride src); drow = unat (of_nat dy * stride dst); n = unat (width dst * ch) in
       if n \<ge> 2 ^ 32 - 32 then None
       else chunked 32
         (\<lambda>dx s. let sx = drop_bit 16 (of_nat (dx div 32) * (scale_x p * (32 div ch))) :: u32 in
            copy_bytes sm (srow + unat (sx * ch)) (drow + dx) 32 s)
         (\<lambda>dx s. let sx = drop_bit 16 ((of_nat dx div ch) * scale_x p) :: u32 in do {
            v \<leftarrow> load sm (srow + unat (sx * ch + of_nat dx mod ch));
            store (drow + dx) v s })
         n s) s }"

text \<open>The fused kernel of \<open>fused_resize_color_norm_avx2.c\<close>, on one image of the batch.\<close>

definition norm_row :: "nat \<Rightarrow> nat \<Rightarrow> bytes \<Rightarrow> bytes option" where
  "norm_row row n s =
     (if n \<ge> 2 ^ 32 - 32 then None
      else chunked 32 (map_vec mm256_avg_epu8_zero row) (map_byte (drop_bit 1) row) n s)"

definition img_fused_resize_color_norm_avx2 ::
  "(img_buffer option \<times> bytes) list \<Rightarrow> (img_buffer option \<times> bytes) list option" where
  "img_fused_resize_color_norm_avx2 batch =
     those (map (\<lambda>(b, s). do {
       b \<leftarrow> b;
       s \<leftarrow> foreach [0..<H b] (\<lambda>y. norm_row (unat (of_nat y * stride b)) (unat (width b * channels b))) s;
       Some (Some b, s) }) batch)"

section \<open>Cropping\<close>

record crop_params =
  crop_x :: u32
  crop_y :: u32
  crop_w :: u32
  crop_h :: u32

definition plugin_crop_single :: "crop_params option \<Rightarrow> img_buffer option \<Rightarrow> img_buffer option" where
  "plugin_crop_single po bo =
     (case (bo, po) of
        (Some b, Some p) \<Rightarrow>
          if crop_x p + crop_w p > width b \<or> crop_y p + crop_h p > height b then Some b
          else Some (b\<lparr>data := data b + ucast (crop_y p * stride b + crop_x p * channels b),
            width := crop_w p, height := crop_h p\<rparr>)
      | _ \<Rightarrow> bo)"

section \<open>The scalar grayscale\<close>

definition lum :: "bytes \<Rightarrow> nat \<Rightarrow> u8" where
  "lum s k = luma (s ! (3 * k)) (s ! (3 * k + 1)) (s ! (3 * k + 2))"

text \<open>The first \<open>m\<close> pixels are gray.\<close>

definition grayed :: "bytes \<Rightarrow> nat \<Rightarrow> bytes \<Rightarrow> bool" where
  "grayed s m t \<longleftrightarrow> length t = length s \<and> (\<forall>i < length s. t ! i = (if i < 3 * m then lum s (i div 3) else s ! i))"

lemma gray_pixel:
  assumes "grayed s m t" and "3 * m + 3 \<le> length s"
  defines "v \<equiv> luma (t ! (3 * m)) (t ! (3 * m + 1)) (t ! (3 * m + 2))"
  shows "grayed s (Suc m) (t[3 * m + 2 := v, 3 * m + 1 := v, 3 * m := v])"
proof -
  have v: "v = lum s m" using assms by (simp add: grayed_def lum_def v_def)
  have "(t[3 * m + 2 := v, 3 * m + 1 := v, 3 * m := v]) ! i = (if i < 3 * Suc m then lum s (i div 3) else s ! i)"
    if "i < length s" for i
  proof -
    consider "i < 3 * m" | "i = 3 * m" | "i = 3 * m + 1" | "i = 3 * m + 2" | "3 * m + 2 < i" by linarith
    moreover have "(3 * m + 1) div 3 = m" "(3 * m + 2) div 3 = m" by linarith+
    ultimately show ?thesis using assms(1,2) that v by cases (simp_all add: grayed_def)
  qed
  then show ?thesis using assms(1) by (simp add: grayed_def)
qed

lemma gray_row:
  assumes view: "rgb_view b (length s)" and small: "3 * W b * H b < 2 ^ 32" and y: "y < H b" and x: "x < W b"
    and t: "grayed s (W b * y + x) t"
  shows "\<exists>t'. gray_at b y x t = Some t' \<and> grayed s (W b * y + Suc x) t'"
proof -
  define row where "row = unat (of_nat y * stride b)"
  define i where "i = of_nat x * channels b"
  note d = rgb_viewD [OF view]
  have in_row: "3 * x + 3 \<le> 3 * W b" using x by simp
  have "3 * W b * y + 3 * W b = 3 * W b * Suc y" by simp
  also have "\<dots> \<le> 3 * W b * H b" using y by (intro mult_le_mono2) simp
  finally have rows: "3 * W b * y + 3 * W b \<le> 3 * W b * H b" .
  have W3: "3 * W b < 2 ^ 32" using rows small by linarith
  have yH: "y < 2 ^ 32" using y unsigned_less [of "height b", where 'a = nat] by simp
  have "unat (of_nat y :: u32) = y" using yH by (simp add: unat_of_nat_small)
  then have "row = y * (3 * W b)"
    unfolding row_def using d(2) rows small by (subst unat_mult_small) (simp_all add: mult.commute)
  then have row: "row = 3 * (W b * y)" by simp
  have "unat (of_nat x :: u32) = x" using in_row W3 by (intro unat_of_nat_small) simp
  then have i: "unat i = 3 * x"
    unfolding i_def using d(1) in_row W3 by (subst unat_mult_small) simp_all
  have i1: "unat (i + 1) = 3 * x + 1" and i2: "unat (i + 2) = 3 * x + 2"
    using i in_row W3 by (subst unat_add_small; simp)+
  let ?m = "W b * y + x"
  have addr: "row + unat i = 3 * ?m" "row + unat (i + 1) = 3 * ?m + 1" "row + unat (i + 2) = 3 * ?m + 2"
    using row i i1 i2 by simp_all
  have "3 * ?m + 3 \<le> 3 * W b * H b" using rows in_row by simp
  then have fits: "3 * ?m + 3 \<le> length s" using d(3) by linarith
  have len: "length t = length s" using t by (simp add: grayed_def)
  show ?thesis
    using gray_pixel [OF t fits] fits len
    unfolding gray_at_def Let_def row_def [symmetric] i_def [symmetric] addr by (simp add: load_def store_def)
qed

lemma grayscale_scalar_run:
  assumes view: "rgb_view b (length s)" and small: "3 * W b * H b < 2 ^ 32"
  shows "\<exists>t. img_arch_grayscale_scalar b s = Some t \<and> grayed s (W b * H b) t"
  unfolding img_arch_grayscale_scalar_def
proof (rule foreach_upt_invariant [where I = "\<lambda>y t. grayed s (W b * y) t"])
  show "grayed s (W b * 0) s" by (simp add: grayed_def)
  fix y t
  assume y: "y < H b" and t: "grayed s (W b * y) t"
  have "\<exists>t'. foreach [0..<W b] (gray_at b y) t = Some t' \<and> grayed s (W b * y + W b) t'"
  proof (rule foreach_upt_invariant [where I = "\<lambda>x t. grayed s (W b * y + x) t"])
    show "grayed s (W b * y + 0) t" using t by simp
  qed (rule gray_row [OF view small y])
  then show "\<exists>t'. foreach [0..<W b] (gray_at b y) t = Some t' \<and> grayed s (W b * Suc y) t'"
    by (simp add: add.commute)
qed

section \<open>Where the vector kernels differ\<close>

text \<open>The vector part of the AVX2 grayscale scales every byte by 77/256; white becomes 76.\<close>

lemma gray_vec_map:
  assumes "length v = 32"
  shows "gray_vec v = map gray_px v"
proof -
  let ?p = "zero_params\<lparr>has_grayscale := True\<rparr>"
  have "gray_vec v = fused_vec ?p v" by (simp add: gray_vec_def fused_vec_def zero_params_def Let_def)
  moreover have "sat_u8 (lane ?p (ucast b)) = gray_px b" for b
    using lane_byte [of ?p b] by (simp add: zero_params_def scalar_px_def fused_px_def)
  ultimately show ?thesis by (simp add: fused_vec_lane [OF assms])
qed

lemma gray_tail_keeps:
  assumes "i + 2 < length s"
  shows "\<exists>t. gray_tail 0 i s = Some t \<and> length t = length s \<and> (\<forall>j < i. t ! j = s ! j)"
  using assms by (simp add: gray_tail_def load_def store_def Let_def)

lemma gray_avx2_not_luma:
  fixes b :: img_buffer
  defines "b \<equiv> \<lparr>data = 64, width = 11, height = 1, channels = 3, stride = 33\<rparr>" and "s \<equiv> replicate 33 255"
  shows "map_option (\<lambda>t. t ! 0) (img_arch_grayscale_avx2 b s) = Some 76"
    and "map_option (\<lambda>t. t ! 0) (img_arch_grayscale_scalar b s) = Some 255"
proof -
  have "gray_vec (replicate 32 255) = replicate 32 76"
    by (simp add: gray_vec_map gray_px_def)
  then have "map_vec gray_vec 0 0 s = Some (replicate 32 76 @ replicate 1 255)" by (simp add: map_vec_def s_def)
  moreover obtain t where "gray_tail 0 30 (replicate 32 76 @ replicate 1 255) = Some t" "t ! 0 = 76"
    using gray_tail_keeps [of 30 "replicate 32 76 @ replicate 1 255"] by (auto simp: nth_append)
  ultimately show "map_option (\<lambda>t. t ! 0) (img_arch_grayscale_avx2 b s) = Some 76"
    by (simp add: img_arch_grayscale_avx2_def b_def)
  have "rgb_view b (length s)" "3 * W b * H b < 2 ^ 32" by (simp_all add: rgb_view_def b_def s_def)
  from grayscale_scalar_run [OF this] show "map_option (\<lambda>t. t ! 0) (img_arch_grayscale_scalar b s) = Some 255"
    by (auto simp: grayed_def lum_def luma_def b_def s_def)
qed

text \<open>\<open>resize_avx2\<close> at half width: the bytes of a vector come from neighbouring columns, not every second one.\<close>

lemma resize_avx2_ignores_scale:
  "img_arch_avx2_resize (Some \<lparr>rsrc = Some \<lparr>data = 64, width = 64, height = 1, channels = 1, stride = 64\<rparr>, target_w = 32,
      target_h = 1, scale_x = 131072, scale_y = 65536, x_index = None, y_index = None\<rparr>)
    (map of_nat [0..<64]) \<lparr>data = 256, width = 32, height = 1, channels = 1, stride = 32\<rparr> (replicate 32 0) =
    Some (map of_nat [0..<32])"
proof -
  have "chunked 32 f g 32 s = f 0 s" for f g and s :: bytes
    by (cases "f 0 s") (simp_all add: chunked_def)
  then show ?thesis
    by (simp add: img_arch_avx2_resize_def copy_bytes_def take_map)
qed

text \<open>The horizontal AVX2 kernel writes 32 of the 96 bytes of 32 RGB pixels.\<close>

lemma resize_h_avx2_leaves_gaps:
  "img_arch_resize_h_avx2 (Some \<lparr>rsrc = Some \<lparr>data = 64, width = 32, height = 1, channels = 3, stride = 96\<rparr>, target_w = 32,
      target_h = 1, scale_x = 65536, scale_y = 65536, x_index = Some (map of_nat [0..<32]), y_index = None\<rparr>)
    (replicate 96 1) \<lparr>data = 256, width = 32, height = 1, channels = 3, stride = 96\<rparr> (replicate 96 0) =
    Some (replicate 32 1 @ replicate 64 0)"
proof -
  have "chunked 32 f g 32 s = f 0 s" for f g and s :: bytes
    by (cases "f 0 s") (simp_all add: chunked_def)
  then show ?thesis
    by (simp add: img_arch_resize_h_avx2_def copy_bytes_def entry_def)
qed

text \<open>The bounds test of the crop wraps: a slice that starts far outside the image passes.\<close>

lemma crop_wraps:
  "plugin_crop_single (Some \<lparr>crop_x = 0xFFFFFFFF, crop_y = 0, crop_w = 2, crop_h = 1\<rparr>)
    (Some \<lparr>data = 64, width = 4, height = 4, channels = 1, stride = 4\<rparr>) =
    Some \<lparr>data = 64 + 0xFFFFFFFF, width = 2, height = 1, channels = 1, stride = 4\<rparr>"
  by (simp add: plugin_crop_single_def)

section \<open>Properties\<close>

text \<open>
  C36. The scalar grayscale kernel gives every pixel of a packed RGB image below 4 GiB its luma
  \<open>(77 R + 150 G + 29 B) / 256\<close> in all three channels and changes nothing else.
\<close>

theorem grayscale_scalar_exact:
  assumes "rgb_view b (length s)" and "3 * W b * H b < 2 ^ 32"
  shows "\<exists>t. img_arch_grayscale_scalar b s = Some t \<and> length t = length s \<and>
    (\<forall>i < length s. t ! i = (if i < 3 * W b * H b
      then luma (s ! (i div 3 * 3)) (s ! (i div 3 * 3 + 1)) (s ! (i div 3 * 3 + 2)) else s ! i))"
  using grayscale_scalar_run [OF assms] by (auto simp: grayed_def lum_def mult.commute mult.assoc)

theorem grayscale_scalar_exact_witness:
  "\<exists>t. img_arch_grayscale_scalar \<lparr>data = 64, width = 2, height = 1, channels = 3, stride = 6\<rparr> [255, 255, 255, 255, 0, 0] = Some t \<and>
    t ! 1 = 255 \<and> t ! 5 = 76"
proof -
  let ?b = "\<lparr>data = 64, width = 2, height = 1, channels = 3, stride = 6\<rparr> :: img_buffer" and ?s = "[255, 255, 255, 255, 0, 0] :: bytes"
  have "rgb_view ?b (length ?s)" "3 * W ?b * H ?b < 2 ^ 32" by (simp_all add: rgb_view_def)
  from grayscale_scalar_exact [OF this] show ?thesis by (auto simp: luma_def)
qed

text \<open>
  C37. The vertical AVX2 resize is the scalar one: for the same parameters, with a source and a row
  map, and rows that stay 32 bytes below \<open>2\<^sup>3\<^sup>2\<close>, both fail on the same inputs and give the same image.
\<close>

theorem resize_v_avx2_eq_scalar:
  assumes "rsrc p = Some src" and "y_index p = Some ys" and "0 < unat (width dst * channels dst)"
    and "unat (width dst * channels dst) < 2 ^ 32 - 32"
  shows "img_arch_resize_v_avx2 (Some p) sm dst s = img_arch_resize_v_scalar (Some p) sm dst s"
proof -
  have "move_row sm k d (unat (width dst * channels dst)) t = copy_bytes sm k d (unat (width dst * channels dst)) t" for k d t
    using assms(3,4) by (simp add: move_row_def copy_row.simd_eq_scalar copy_bytes_eq)
  then show ?thesis
    using assms(1,2) by (simp add: img_arch_resize_v_avx2_def img_arch_resize_v_scalar_def)
qed

definition two_rows :: resize_params where
  "two_rows = \<lparr>rsrc = Some \<lparr>data = 64, width = 11, height = 1, channels = 3, stride = 33\<rparr>, target_w = 11, target_h = 2,
     scale_x = 65536, scale_y = 32768, x_index = None, y_index = Some [0, 0]\<rparr>"

theorem resize_v_avx2_eq_scalar_witness:
  "img_arch_resize_v_avx2 (Some two_rows) (replicate 33 7) \<lparr>data = 128, width = 11, height = 2, channels = 3, stride = 33\<rparr> (replicate 66 0) =
    img_arch_resize_v_scalar (Some two_rows) (replicate 33 7) \<lparr>data = 128, width = 11, height = 2, channels = 3, stride = 33\<rparr> (replicate 66 0)"
  by (rule resize_v_avx2_eq_scalar) (simp_all add: two_rows_def)

text \<open>
  C38. Cropping a packed RGB image below 4 GiB to a rectangle inside it gives a view of the same storage:
  channel \<open>c\<close> of pixel \<open>(i, j)\<close> of the slice is at the address of pixel \<open>(x + i, y + j)\<close> of the image,
  inside the image; a null parameter, or a rectangle that sticks out (of an image less than \<open>2\<^sup>3\<^sup>1\<close> wide and
  high, with sides and corner below \<open>2\<^sup>3\<^sup>1\<close>), leaves the image as it is.
\<close>

theorem crop_slices:
  assumes view: "rgb_view b n" and small: "3 * W b * H b < 2 ^ 32"
    and less: "unat (crop_x p) < 2 ^ 31" "unat (crop_w p) < 2 ^ 31" "unat (crop_y p) < 2 ^ 31" "unat (crop_h p) < 2 ^ 31"
  shows "plugin_crop_single None (Some b) = Some b \<and>
    (if unat (crop_x p) + unat (crop_w p) \<le> W b \<and> unat (crop_y p) + unat (crop_h p) \<le> H b
     then \<exists>off. plugin_crop_single (Some p) (Some b) =
         Some (b\<lparr>data := data b + of_nat off, width := crop_w p, height := crop_h p\<rparr>) \<and>
       (\<forall>i < unat (crop_w p). \<forall>j < unat (crop_h p). \<forall>c < 3.
         off + j * unat (stride b) + 3 * i + c = pix (W b) (unat (crop_x p) + i) (unat (crop_y p) + j) c \<and>
         off + j * unat (stride b) + 3 * i + c < n)
     else plugin_crop_single (Some p) (Some b) = Some b)"
proof -
  note d = rgb_viewD [OF view]
  have sums: "unat (crop_x p + crop_w p) = unat (crop_x p) + unat (crop_w p)"
    "unat (crop_y p + crop_h p) = unat (crop_y p) + unat (crop_h p)"
    using less by (subst unat_add_small; simp)+
  let ?in = "unat (crop_x p) + unat (crop_w p) \<le> W b \<and> unat (crop_y p) + unat (crop_h p) \<le> H b"
  let ?off32 = "crop_y p * stride b + crop_x p * channels b"
  have inside: ?thesis if i: ?in
  proof -
    have run: "plugin_crop_single (Some p) (Some b) =
        Some (b\<lparr>data := data b + of_nat (unat ?off32), width := crop_w p, height := crop_h p\<rparr>)"
      using i sums by (simp add: plugin_crop_single_def word_less_nat_alt unsigned_ucast_eq)
    have "off + j * unat (stride b) + 3 * k + c = pix (W b) (unat (crop_x p) + k) (unat (crop_y p) + j) c \<and>
        off + j * unat (stride b) + 3 * k + c < n"
      if off: "off = unat ?off32" and k: "k < unat (crop_w p)" "j < unat (crop_h p)" "c < 3" for off k j c
    proof -
      let ?x = "unat (crop_x p)" and ?y = "unat (crop_y p)"
      have pos: "?x + k < W b" "?y + j < H b" using i k by simp_all
      have inv: "pix (W b) (?x + k) (?y + j) c < 3 * W b * H b" by (rule pix_in_view [OF pos k(3)])
      have "?y * (3 * W b) + 3 * ?x \<le> pix (W b) (?x + k) (?y + j) c"
        by (simp add: pix_def algebra_simps)
      then have lt: "?y * (3 * W b) + 3 * ?x < 2 ^ 32" using inv small by linarith
      have "unat (crop_y p * stride b) = ?y * (3 * W b)" using lt d(2) by (subst unat_mult_small) simp_all
      moreover have "unat (crop_x p * channels b) = 3 * ?x" using lt d(1) by (subst unat_mult_small) simp_all
      ultimately have "off = ?y * (3 * W b) + 3 * ?x" unfolding off using lt by (subst unat_add_small) simp_all
      then have "off + j * unat (stride b) + 3 * k + c = pix (W b) (?x + k) (?y + j) c"
        using d(2) by (simp add: pix_def algebra_simps)
      then show ?thesis using inv d(3) by simp
    qed
    then have "\<exists>off. plugin_crop_single (Some p) (Some b) =
         Some (b\<lparr>data := data b + of_nat off, width := crop_w p, height := crop_h p\<rparr>) \<and>
       (\<forall>i < unat (crop_w p). \<forall>j < unat (crop_h p). \<forall>c < 3.
         off + j * unat (stride b) + 3 * i + c = pix (W b) (unat (crop_x p) + i) (unat (crop_y p) + j) c \<and>
         off + j * unat (stride b) + 3 * i + c < n)"
      using run by (intro exI [of _ "unat ?off32"] conjI) blast+
    then show ?thesis using i by (simp add: plugin_crop_single_def)
  qed
  have "plugin_crop_single (Some p) (Some b) = Some b" if "\<not> ?in"
    using that sums by (auto simp: plugin_crop_single_def word_less_nat_alt)
  then show ?thesis using inside by (auto simp: plugin_crop_single_def)
qed

theorem crop_slices_witness:
  "\<exists>off. plugin_crop_single (Some \<lparr>crop_x = 1, crop_y = 2, crop_w = 2, crop_h = 1\<rparr>)
      (Some \<lparr>data = 64, width = 4, height = 4, channels = 3, stride = 12\<rparr>) =
      Some \<lparr>data = 64 + of_nat off, width = 2, height = 1, channels = 3, stride = 12\<rparr> \<and> off = 27"
proof -
  obtain off where off: "plugin_crop_single (Some \<lparr>crop_x = 1, crop_y = 2, crop_w = 2, crop_h = 1\<rparr>)
      (Some \<lparr>data = 64, width = 4, height = 4, channels = 3, stride = 12\<rparr>) =
      Some \<lparr>data = 64 + of_nat off, width = 2, height = 1, channels = 3, stride = 12\<rparr>"
    "\<forall>i < 2. \<forall>c < 3. off + 3 * i + c = pix 4 (Suc i) 2 c"
    using crop_slices [of "\<lparr>data = 64, width = 4, height = 4, channels = 3, stride = 12\<rparr>" 48
      "\<lparr>crop_x = 1, crop_y = 2, crop_w = 2, crop_h = 1\<rparr>"]
    by (auto simp: rgb_view_def)
  moreover have "off = 27" using off(2) [rule_format, of 0 0] by (simp add: pix_def)
  ultimately show ?thesis by blast
qed

end
