(* ===== verification/Rpc.thy ===== *)
theory Rpc
  imports Kernels Slab
begin

text \<open>
  Remote execution: the client \<open>runtime/rpc_client.c\<close>, the server \<open>runtime/rpc_server.c\<close> (which
  \<open>CMakeLists.txt\<close> leaves out of the build) and the node list \<open>runtime/cluster_registry.c\<close>. A
  connection carries the bytes sent, in order. As its documentation says, a \<open>send\<close> may take fewer
  bytes than it is given and a \<open>recv\<close> may return fewer than it asks for; both programs call each once
  and ignore the result, so whatever is missing keeps the old or uninitialised contents of its
  place. The signal of a write to a closed connection is left out. What the kernels compute is a
  parameter.
\<close>

section \<open>Messages\<close>

record img_rpc_buffer =
  rwidth :: u32
  rheight :: u32
  rchannels :: u32
  rstride :: u32
  rdata_size :: u32
  rparams :: u32

record img_rpc_request =
  req_op :: u32
  req_buffer :: img_rpc_buffer

record img_rpc_response =
  res_status :: u32
  res_buffer :: img_rpc_buffer

text \<open>A structure travels as its memory: words of 32 bits, the lowest byte first.\<close>

definition enc32 :: "u32 \<Rightarrow> bytes" where
  "enc32 v = take 4 (le_encode (ucast v))"

definition dec32 :: "nat \<Rightarrow> bytes \<Rightarrow> u32" where
  "dec32 i bs = ucast (le_decode (take 4 (List.drop (4 * i) bs)))"

definition encode_buffer :: "img_rpc_buffer \<Rightarrow> bytes" where
  "encode_buffer d = enc32 (rwidth d) @ enc32 (rheight d) @ enc32 (rchannels d) @ enc32 (rstride d) @
     enc32 (rdata_size d) @ enc32 (rparams d)"

definition decode_buffer :: "bytes \<Rightarrow> img_rpc_buffer" where
  "decode_buffer bs = \<lparr>rwidth = dec32 0 bs, rheight = dec32 1 bs, rchannels = dec32 2 bs, rstride = dec32 3 bs,
     rdata_size = dec32 4 bs, rparams = dec32 5 bs\<rparr>"

definition encode_request :: "img_rpc_request \<Rightarrow> bytes" where
  "encode_request r = enc32 (req_op r) @ encode_buffer (req_buffer r)"

definition decode_request :: "bytes \<Rightarrow> img_rpc_request" where
  "decode_request bs = \<lparr>req_op = dec32 0 bs, req_buffer = decode_buffer (List.drop 4 bs)\<rparr>"

definition encode_response :: "img_rpc_response \<Rightarrow> bytes" where
  "encode_response r = enc32 (res_status r) @ encode_buffer (res_buffer r)"

definition decode_response :: "bytes \<Rightarrow> img_rpc_response" where
  "decode_response bs = \<lparr>res_status = dec32 0 bs, res_buffer = decode_buffer (List.drop 4 bs)\<rparr>"

abbreviation (input) HEADER :: nat where "HEADER \<equiv> 28"

section \<open>Transfers\<close>

text \<open>
  How many bytes each of the eight calls may move, and what the memory holds that is not
  initialised: the word \<open>params\<close> of the request, the two headers on the stack and the block of
  \<open>malloc\<close>.
\<close>

record net_env =
  req_sent :: nat
  data_sent :: nat
  req_got :: nat
  data_got :: nat
  res_sent :: nat
  back_sent :: nat
  res_got :: nat
  back_got :: nat
  junk_params :: u32
  junk_req :: "nat \<Rightarrow> u8"
  junk_res :: "nat \<Rightarrow> u8"
  junk_block :: "nat \<Rightarrow> u8"

text \<open>\<open>recv\<close> of at most \<open>n\<close> bytes, of which \<open>m\<close> come, over the memory \<open>old\<close>; and the rest of the stream.\<close>

definition recv_into :: "nat \<Rightarrow> nat \<Rightarrow> bytes \<Rightarrow> bytes \<Rightarrow> bytes \<times> bytes" where
  "recv_into m n stream old =
     (let got = take (min m n) stream in (got @ List.drop (length got) old, List.drop (length got) stream))"

section \<open>The server\<close>

text \<open>
  One turn of the loop after \<open>accept\<close>, from the bytes the client sent to the bytes sent back; \<open>mem\<close>
  is the address \<open>malloc\<close> returns. A kernel returns the new descriptor and the bytes of the block; if
  it moved \<open>data\<close>, the answer is sent from there.
\<close>

definition serve ::
  "(img_kernel \<Rightarrow> img_buffer \<Rightarrow> bytes \<Rightarrow> (img_buffer \<times> bytes) option) \<Rightarrow> img_tables \<Rightarrow> ptr \<Rightarrow> net_env \<Rightarrow> bytes \<Rightarrow>
   bytes option" where
  "serve exec t mem net stream = do {
     let (hdr, stream) = recv_into (req_got net) HEADER stream (map (junk_req net) [0..<HEADER]);
     let req = decode_request hdr; d = req_buffer req; n = unat (rdata_size d) in
     if mem = NULL \<and> n > 0 then None
     else do {
       let (pixels, _) = recv_into (data_got net) n stream (map (junk_block net) [0..<n]);
       k \<leftarrow> lookup_op (g_jump_table t) (req_op req);
       k \<leftarrow> k;
       (b, s) \<leftarrow> exec k \<lparr>data = mem, width = rwidth d, height = rheight d, channels = rchannels d, stride = rstride d\<rparr> pixels;
       let off = unat (data b - mem);
       if off + n \<le> length s
       then Some (take (res_sent net) (encode_response \<lparr>res_status = 0, res_buffer = d\<rparr>) @
                  take (back_sent net) (take n (List.drop off s)))
       else None } }"

section \<open>The client\<close>

text \<open>
  \<open>sock\<close> and \<open>conn\<close>: whether \<open>socket\<close> and \<open>connect\<close> succeed; \<open>server\<close> is what comes back for the
  bytes sent. The answer is written over the pixels; the descriptor is not changed.
\<close>

definition img_rpc_send ::
  "(bytes \<Rightarrow> bytes option) \<Rightarrow> bool \<Rightarrow> bool \<Rightarrow> net_env \<Rightarrow> u32 \<Rightarrow> img_buffer \<Rightarrow> bytes \<Rightarrow> (int \<times> bytes) option" where
  "img_rpc_send server sock conn net code b s =
     (if \<not> sock \<or> \<not> conn then Some (- 1, s)
      else let n = height b * stride b;
               req = \<lparr>req_op = code, req_buffer = \<lparr>rwidth = width b, rheight = height b, rchannels = channels b,
                 rstride = stride b, rdata_size = n, rparams = junk_params net\<rparr>\<rparr> in
        if length s < unat n then None
        else do {
          stream \<leftarrow> server (take (req_sent net) (encode_request req) @ take (data_sent net) (take (unat n) s));
          let (hdr, stream) = recv_into (res_got net) HEADER stream (map (junk_res net) [0..<HEADER]);
          let n = unat (rdata_size (res_buffer (decode_response hdr)));
          let (t, _) = recv_into (back_got net) n stream s;
          if length s < length t then None else Some (0, t) })"

section \<open>The kernels with null parameters\<close>

text \<open>The server passes a null pointer for the parameters; \<open>other\<close> stands for registered plugins.\<close>

fun exec_null :: "(nat \<Rightarrow> img_buffer \<Rightarrow> bytes \<Rightarrow> (img_buffer \<times> bytes) option) \<Rightarrow> img_kernel \<Rightarrow> img_buffer \<Rightarrow> bytes \<Rightarrow>
   (img_buffer \<times> bytes) option" where
  "exec_null other K_resize_scalar b s = Some (resize_scalar None b, s)"
| "exec_null other K_resize_avx2 b s = map_option (Pair b) (img_arch_avx2_resize None [] b s)"
| "exec_null other K_resize_avx512 b s = map_option (\<lambda>b. (b, s)) (img_arch_resize_avx512 None b)"
| "exec_null other K_arch_resize_h_avx2 b s = map_option (Pair b) (img_arch_resize_h_avx2 None [] b s)"
| "exec_null other K_arch_resize_v_avx2 b s = map_option (Pair b) (img_arch_resize_v_avx2 None [] b s)"
| "exec_null other K_arch_grayscale_avx2 b s = map_option (Pair b) (img_arch_grayscale_avx2 b s)"
| "exec_null other K_arch_resize_h_scalar b s = map_option (Pair b) (img_arch_resize_h_scalar None [] b s)"
| "exec_null other K_arch_resize_v_scalar b s = map_option (Pair b) (img_arch_resize_v_scalar None [] b s)"
| "exec_null other K_arch_grayscale_scalar b s = map_option (Pair b) (img_arch_grayscale_scalar b s)"
| "exec_null other K_grayscale_exec b s = map_option (Pair b) (grayscale_exec b s)"
| "exec_null other K_resize_single b s = Some (resize_single b, s)"
| "exec_null other (K_other i) b s = other i b s"

section \<open>The node list\<close>

record img_node =
  node_id :: u32
  ip :: string
  port :: u16
  nload :: u32

abbreviation (input) MAX_NODES :: nat where "MAX_NODES \<equiv> 32"

text \<open>The registered nodes; the static array has room for 32.\<close>

definition img_cluster_register :: "img_node \<Rightarrow> img_node list \<Rightarrow> img_node list" where
  "img_cluster_register n ns = (if length ns < MAX_NODES then ns @ [n] else ns)"

definition img_cluster_pick :: "img_node list \<Rightarrow> img_node option" where
  "img_cluster_pick ns = (if ns = [] then None else Some (ns ! 0))"

text \<open>Whatever is registered later, the first node is always picked.\<close>

lemma cluster_picks_first: "img_cluster_pick (fold img_cluster_register ns [n]) = Some n"
proof -
  have "m \<noteq> [] \<Longrightarrow> fold img_cluster_register ns m \<noteq> [] \<and> fold img_cluster_register ns m ! 0 = m ! 0" for m
    by (induction ns arbitrary: m) (auto simp: img_cluster_register_def nth_append)
  from this [of "[n]"] show ?thesis by (simp add: img_cluster_pick_def)
qed

section \<open>Kernels work in place\<close>

lemma foreach_length:
  fixes body :: "'a \<Rightarrow> bytes \<Rightarrow> bytes option"
  assumes "foreach xs body s = Some t" and "\<And>x s t. body x s = Some t \<Longrightarrow> length t = length s"
  shows "length t = length s"
  using assms(1) by (induction xs arbitrary: s) (auto simp: assms(2) split: bind_splits)

lemma length_map_byte: "map_byte f row x s = Some t \<Longrightarrow> length t = length s"
  by (auto simp: map_byte_def load_def store_def split: if_splits)

lemma length_map_vec:
  "map_vec F row x s = Some t \<Longrightarrow> (\<And>v. length v = 32 \<Longrightarrow> length (F v) = 32) \<Longrightarrow> length t = length s"
  by (auto simp: map_vec_def split: if_splits)

lemma length_gray_at: "gray_at b y x s = Some t \<Longrightarrow> length t = length s"
  by (auto simp: gray_at_def load_def store_def Let_def split: if_splits)

lemma length_gray_tail: "gray_tail row i s = Some t \<Longrightarrow> length t = length s"
  by (auto simp: gray_tail_def load_def store_def Let_def split: if_splits)

lemma length_gray_avx2:
  assumes "img_arch_grayscale_avx2 b s = Some t"
  shows "length t = length s"
  using assms unfolding img_arch_grayscale_avx2_def
proof (rule foreach_length)
  fix y s t
  assume "(let row = y * unat (stride b); n = unat (width b * channels b)
       in if 2 ^ 32 - 32 \<le> n then None
          else do {
            s \<leftarrow> foreach [0..<n div 32] (\<lambda>k. map_vec gray_vec row (32 * k)) s;
            let start = 32 * (n div 32) div 3 * 3;
            foreach [0..<(n - start) div 3] (\<lambda>k. gray_tail row (start + 3 * k)) s }) = Some t"
  then obtain u where u: "foreach [0..<unat (width b * channels b) div 32] (\<lambda>k. map_vec gray_vec (y * unat (stride b)) (32 * k)) s = Some u"
    and t: "\<exists>g st. foreach g (\<lambda>k. gray_tail (y * unat (stride b)) (st + 3 * k)) u = Some t"
    by (auto simp: Let_def split: if_splits bind_splits)
  have "length u = length s"
    using u by (rule foreach_length) (erule length_map_vec, simp add: gray_vec_map)
  moreover have "length t = length u"
    using t foreach_length length_gray_tail by (metis (no_types, lifting))
  ultimately show "length t = length s" by simp
qed

lemma length_gray_scalar: "img_arch_grayscale_scalar b s = Some t \<Longrightarrow> length t = length s"
  unfolding img_arch_grayscale_scalar_def
  by (rule foreach_length, assumption, rule foreach_length, assumption, rule length_gray_at)

lemma length_gray_exec: "grayscale_exec b s = Some t \<Longrightarrow> length t = length s"
  unfolding grayscale_exec_def by (rule foreach_length, assumption, rule length_map_byte)

text \<open>No modelled kernel moves \<open>data\<close>, looks at it, or changes the size of the block.\<close>

lemma exec_null_in_place:
  assumes "\<forall>i. k \<noteq> K_other i"
  shows "exec_null other k b s = Some (b', t) \<Longrightarrow> data b' = data b \<and> length t = length s"
    and "map_option snd (exec_null other k (b\<lparr>data := p\<rparr>) s) = map_option snd (exec_null other k b s)"
proof -
  show "exec_null other k b s = Some (b', t) \<Longrightarrow> data b' = data b \<and> length t = length s"
    using assms
    by (cases k) (auto simp: resize_scalar_def resize_single_def img_arch_avx2_resize_def img_arch_resize_avx512_def
        img_arch_resize_h_avx2_def img_arch_resize_v_avx2_def img_arch_resize_h_scalar_def img_arch_resize_v_scalar_def
        length_gray_avx2 length_gray_scalar length_gray_exec)
  have "gray_at (b\<lparr>data := p\<rparr>) = gray_at b" by (simp add: gray_at_def fun_eq_iff)
  then have "img_arch_grayscale_scalar (b\<lparr>data := p\<rparr>) s = img_arch_grayscale_scalar b s"
    by (simp add: img_arch_grayscale_scalar_def)
  moreover have "img_arch_grayscale_avx2 (b\<lparr>data := p\<rparr>) s = img_arch_grayscale_avx2 b s"
    by (simp add: img_arch_grayscale_avx2_def)
  moreover have "grayscale_exec (b\<lparr>data := p\<rparr>) s = grayscale_exec b s" by (simp add: grayscale_exec_def)
  ultimately show "map_option snd (exec_null other k (b\<lparr>data := p\<rparr>) s) = map_option snd (exec_null other k b s)"
    using assms
    by (cases k) (simp_all add: img_arch_avx2_resize_def img_arch_resize_avx512_def img_arch_resize_h_avx2_def
        img_arch_resize_v_avx2_def img_arch_resize_h_scalar_def img_arch_resize_v_scalar_def option.map_comp comp_def)
qed

section \<open>Headers and streams\<close>

lemma length_enc32 [simp]: "length (enc32 v) = 4"
  by (simp add: enc32_def)

lemma le_decode_enc32: "ucast (le_decode (enc32 v)) = v"
proof -
  have "le_decode (enc32 v) = take_bit 32 (ucast v)"
    using decode_slice [of "ucast v" 0 4] by (simp add: le_decode_def enc32_def le_encode_def take_map)
  also have "ucast (take_bit 32 (ucast v :: u64)) = v"
    by (rule bit_word_eqI) (simp add: bit_simps)
  finally show ?thesis .
qed

lemma dec32_enc32 [simp]:
  "dec32 0 (enc32 v @ xs) = v" "dec32 0 (enc32 v) = v"
  "0 < i \<Longrightarrow> dec32 i (enc32 v @ xs) = dec32 (i - 1) xs"
  by (simp_all add: dec32_def le_decode_enc32 right_diff_distrib')

lemma length_encode_buffer [simp]: "length (encode_buffer d) = 24"
  by (simp add: encode_buffer_def)

lemma length_header [simp]: "length (encode_request r) = HEADER" "length (encode_response p) = HEADER"
  by (simp_all add: encode_request_def encode_response_def)

lemma decode_encode_buffer [simp]: "decode_buffer (encode_buffer d) = d"
  by (simp add: decode_buffer_def encode_buffer_def)

lemma decode_encode [simp]: "decode_request (encode_request r) = r" "decode_response (encode_response p) = p"
  by (simp_all add: decode_request_def encode_request_def decode_response_def encode_response_def)

text \<open>A header that is moved whole leaves the stream at the pixels.\<close>

lemma recv_header:
  assumes "length hdr = HEADER" and "HEADER \<le> k" and "HEADER \<le> m"
  shows "recv_into m HEADER (take k hdr @ xs) (map f [0..<HEADER]) = (hdr, xs)"
  using assms by (simp add: recv_into_def)

lemma recv_opcode:
  assumes "4 \<le> k" and "4 \<le> m"
  shows "req_op (decode_request (fst (recv_into m HEADER (take k (encode_request r) @ xs) old))) = req_op r"
proof -
  have "take 4 (take (min m HEADER) (take k (encode_request r) @ xs) @ ys) = enc32 (req_op r)" for ys
    using assms by (simp add: encode_request_def)
  then show ?thesis
    by (simp add: recv_into_def Let_def decode_request_def dec32_def le_decode_enc32)
qed

text \<open>What arrives of \<open>xs\<close>, sent and received once each, over the memory \<open>old\<close>.\<close>

definition arrives :: "nat \<Rightarrow> nat \<Rightarrow> bytes \<Rightarrow> bytes \<Rightarrow> bytes" where
  "arrives sent got xs old = take (min sent got) xs @ List.drop (min (min sent got) (length xs)) old"

lemma recv_arrives:
  assumes "length xs = n"
  shows "recv_into m n (take k xs) old = (arrives k m xs old, List.drop m (take k xs))"
  using assms by (auto simp: recv_into_def arrives_def Let_def min_def)

lemma length_arrives: "length xs = length old \<Longrightarrow> length (arrives k m xs old) = length old"
  by (simp add: arrives_def)

lemma arrives_whole: "length xs \<le> k \<Longrightarrow> length xs \<le> m \<Longrightarrow> length xs = length old \<Longrightarrow> arrives k m xs old = xs"
  by (simp add: arrives_def)

definition headers_whole :: "net_env \<Rightarrow> bool" where
  "headers_whole net \<longleftrightarrow> HEADER \<le> req_sent net \<and> HEADER \<le> req_got net \<and> HEADER \<le> res_sent net \<and> HEADER \<le> res_got net"

section \<open>Properties\<close>

text \<open>
  C15. One remote execution, for any lengths of the transfers of pixels. When both headers arrive
  whole, the table has a kernel of the program for the opcode and \<open>malloc\<close> succeeds, the server runs
  the kernel with null parameters on the pixels that arrived, over the uninitialised block, and
  the client returns 0 with as much of the result as came back, over its old pixels, whatever is
  missing; where the kernel is undefined, so is the call. So with transfers of the whole image
  remote execution is local execution, and with a shorter one it is not, and 0 all the same.
\<close>

theorem rpc_runs_kernel:
  assumes k: "lookup_op (g_jump_table t) code = Some (Some k)" "\<forall>i. k \<noteq> K_other i" and mem: "mem \<noteq> NULL"
    and len: "unat (height b * stride b) = length s" and whole: "headers_whole net"
  shows "img_rpc_send (serve (exec_null other) t mem net) True True net code b s =
      map_option (\<lambda>(_, s'). (0, arrives (back_sent net) (back_got net) s' s))
        (exec_null other k b (arrives (data_sent net) (data_got net) s (map (junk_block net) [0..<length s]))) \<and>
    (length s \<le> data_sent net \<and> length s \<le> data_got net \<and> length s \<le> back_sent net \<and> length s \<le> back_got net \<longrightarrow>
      img_rpc_send (serve (exec_null other) t mem net) True True net code b s =
        map_option (\<lambda>(_, s'). (0, s')) (exec_null other k b s))"
proof -
  let ?px = "arrives (data_sent net) (data_got net) s (map (junk_block net) [0..<length s])"
  have moved: "\<lparr>data = mem, width = width b, height = height b, channels = channels b, stride = stride b\<rparr> = b\<lparr>data := mem\<rparr>"
    by simp
  have px: "length ?px = length s" by (simp add: length_arrives)
  have same: "map_option snd (exec_null other k (b\<lparr>data := mem\<rparr>) xs) = map_option snd (exec_null other k b xs)" for xs
    by (rule exec_null_in_place(2) [OF k(2)])
  have hdr: "HEADER \<le> req_sent net" "HEADER \<le> req_got net" "HEADER \<le> res_sent net" "HEADER \<le> res_got net"
    using whole by (simp_all add: headers_whole_def)
  have recv: "recv_into (req_got net) HEADER (take (req_sent net) (encode_request r) @ xs) (map f [0..<HEADER]) = (encode_request r, xs)"
    "recv_into (res_got net) HEADER (take (res_sent net) (encode_response p) @ xs) (map f [0..<HEADER]) = (encode_response p, xs)"
    for r p f xs
    using hdr by (simp_all only: recv_header length_header)
  have eq: "img_rpc_send (serve (exec_null other) t mem net) True True net code b s =
      map_option (\<lambda>(_, s'). (0, arrives (back_sent net) (back_got net) s' s)) (exec_null other k b ?px)"
  proof (cases "exec_null other k (b\<lparr>data := mem\<rparr>) ?px")
    case None
    then show ?thesis using same [of ?px] k mem len
      by (simp add: img_rpc_send_def serve_def Let_def moved recv recv_arrives del: upt_rec_numeral)
  next
    case (Some r)
    obtain b' s' where r: "r = (b', s')" by (cases r)
    have "data b' = mem" "length s' = length s"
      using exec_null_in_place(1) [OF k(2)] Some r px by fastforce+
    moreover obtain b'' where "exec_null other k b ?px = Some (b'', s')"
      using same [of ?px] Some r by (cases "exec_null other k b ?px") auto
    ultimately show ?thesis using Some r k mem len
      by (simp add: img_rpc_send_def serve_def Let_def moved recv recv_arrives length_arrives del: upt_rec_numeral)
  qed
  moreover have "map_option (\<lambda>(_, s'). (0, arrives (back_sent net) (back_got net) s' s)) (exec_null other k b ?px) =
      map_option (\<lambda>(_, s'). (0, s')) (exec_null other k b s)"
    if "length s \<le> data_sent net \<and> length s \<le> data_got net \<and> length s \<le> back_sent net \<and> length s \<le> back_got net"
  proof -
    have "?px = s" using that by (intro arrives_whole) simp_all
    then show ?thesis
      using that exec_null_in_place(1) [OF k(2), of other b s]
      by (cases "exec_null other k b s") (auto simp: arrives_whole)
  qed
  ultimately show ?thesis by auto
qed

text \<open>Headers that arrive whole, and two of the four bytes of pixels in each direction.\<close>

definition short_net :: net_env where
  "short_net = \<lparr>req_sent = 28, data_sent = 4, req_got = 28, data_got = 2, res_sent = 28, back_sent = 4, res_got = 28, back_got = 3,
     junk_params = 7, junk_req = (\<lambda>_. 0), junk_res = (\<lambda>_. 0), junk_block = (\<lambda>_. 9)\<rparr>"

theorem rpc_runs_kernel_witness:
  "img_rpc_send (serve (exec_null (\<lambda>_ _ _. None)) (img_jump_table_init 0) 64 short_net) True True short_net OP_RESIZE
      \<lparr>data = 128, width = 4, height = 1, channels = 1, stride = 4\<rparr> [3, 4, 5, 6] = Some (0, [3, 4, 9, 6])"
proof -
  have "lookup_op (g_jump_table (img_jump_table_init 0)) OP_RESIZE = Some (Some K_resize_scalar)"
    by (simp add: lookup_op_def img_jump_table_init_def img_cpu_has_avx512_def img_cpu_has_avx2_def set_op_def OP_RESIZE_def Let_def)
  from rpc_runs_kernel [OF this, of 64 "\<lparr>data = 128, width = 4, height = 1, channels = 1, stride = 4\<rparr>" "[3, 4, 5, 6]" short_net "\<lambda>_ _ _. None"]
  show ?thesis by (simp add: headers_whole_def short_net_def arrives_def upt_rec_numeral)
qed

section \<open>What the router sends to a server\<close>

text \<open>A table whose kernels are all at opcodes that \<open>img_exec_route\<close> keeps local.\<close>

definition local_only :: "img_tables \<Rightarrow> bool" where
  "local_only t \<longleftrightarrow> (\<forall>c. img_exec_route c = IMG_EXEC_REMOTE \<longrightarrow> Option.bind (lookup_op (g_jump_table t) c) id = None)"

lemma local_only_set_op:
  assumes "local_only t" and c: "img_exec_route c \<noteq> IMG_EXEC_REMOTE"
  shows "local_only (set_op c k t)"
proof -
  have "unat c \<noteq> unat x" if "img_exec_route x = IMG_EXEC_REMOTE" for x
    using c that by (metis word_unat_eq_iff)
  then show ?thesis using assms(1) by (auto simp: local_only_def lookup_op_def set_op_def)
qed

lemma local_only_batch [simp]: "local_only (set_batch_op c k t) = local_only t"
  by (simp add: local_only_def set_batch_op_def)

lemma local_only_register:
  "local_only t \<Longrightarrow> img_exec_route c \<noteq> IMG_EXEC_REMOTE \<Longrightarrow> local_only (img_register_op c k kb t)"
  by (auto simp: img_register_op_def Let_def local_only_set_op split: option.splits)

lemma route_local [simp]:
  "img_exec_route OP_RESIZE \<noteq> IMG_EXEC_REMOTE" "img_exec_route OP_RESIZE_H \<noteq> IMG_EXEC_REMOTE"
  "img_exec_route OP_RESIZE_V \<noteq> IMG_EXEC_REMOTE" "img_exec_route OP_GRAYSCALE \<noteq> IMG_EXEC_REMOTE"
  "img_exec_route 1 \<noteq> IMG_EXEC_REMOTE"
  by (simp_all add: img_exec_route_def OP_RESIZE_def)

lemma hw_local_only: "local_only (img_fused_init c (img_hw_register_kernels c (img_jump_table_init c)))"
proof -
  have "local_only \<lparr>g_jump_table = replicate 256 None, g_batch_jump_table = x\<rparr>" for x
    by (simp add: local_only_def lookup_op_def)
  then show ?thesis
    by (simp add: img_fused_init_def img_hw_register_kernels_def img_jump_table_init_def Let_def local_only_set_op)
qed

text \<open>
  C39. The remote path is never served: with the tables \<open>img_engine_init\<close> leaves (the plugins of the
  repository in any number and order), every opcode that \<open>img_exec_dispatch\<close> sends to a server has no
  kernel there. Once the four bytes of the opcode arrive, the server calls through a null pointer
  or reads past the table, for every image and every length of the other transfers.
\<close>

theorem remote_never_served:
  assumes "set ps \<subseteq> {Some grayscale_plugin, Some resize_plugin}"
    and "img_engine_init True caps ps True st = Some (Inr e)" and "img_exec_route code = IMG_EXEC_REMOTE"
    and "4 \<le> req_sent net" and "4 \<le> req_got net"
  shows "img_exec_dispatch run
     (\<lambda>code params (b, s). map_option (\<lambda>(r, s). (r, b, s)) (img_rpc_send (serve exec (tables e) mem net) True True net code b s))
     t code params (b, s) = None"
proof -
  define u where "u = img_fused_init caps (img_hw_register_kernels caps (img_jump_table_init caps))"
  have init: "local_only (fold plugin_init ps t)" if "local_only t" "set ps \<subseteq> {Some grayscale_plugin, Some resize_plugin}" for t ps
    using that by (induction ps arbitrary: t)
      (auto simp: plugin_init_def grayscale_plugin_def resize_plugin_def local_only_register)
  have load: "local_only (fold (\<lambda>po t. the (plugin_load po t)) ps t)"
    if "local_only t" "set ps \<subseteq> {Some grayscale_plugin, Some resize_plugin}" for t ps
    using that by (induction ps arbitrary: t)
      (auto simp: plugin_load_def grayscale_plugin_def resize_plugin_def local_only_register)
  have "None \<notin> set ps" using assms(1) by auto
  then have "tables e = fold (\<lambda>po t. the (plugin_load po t)) ps (img_plugins_init_all ps u)"
    using assms(2) by (auto simp: img_engine_init_def load_all_fold u_def Let_def)
  then have "local_only (tables e)"
    using init [OF _ assms(1)] load [OF _ assms(1)] by (simp add: img_plugins_init_all_def u_def hw_local_only)
  then have none: "Option.bind (lookup_op (g_jump_table (tables e)) code) id = None"
    using assms(3) by (simp add: local_only_def)
  have "serve exec (tables e) mem net (take (req_sent net) (encode_request r) @ xs) = None" if r: "req_op r = code" for r xs
  proof -
    obtain hdr rest where h: "recv_into (req_got net) HEADER (take (req_sent net) (encode_request r) @ xs) (map (junk_req net) [0..<HEADER]) =
        (hdr, rest)"
      by fastforce
    have "req_op (decode_request hdr) = code"
      using recv_opcode [OF assms(4,5), of r xs "map (junk_req net) [0..<HEADER]"] r by (simp only: h fst_conv)
    then show ?thesis
      using none unfolding serve_def h by (auto simp: Let_def split: bind_splits prod.splits)
  qed
  then show ?thesis using assms(3)
    by (auto simp: img_exec_dispatch_def img_rpc_send_def Let_def)
qed

theorem remote_never_served_witness:
  "\<exists>e. img_engine_init True 0 [] True \<lparr>tables = img_jump_table_init 0, engine_caps = 0, io_registered = False\<rparr> = Some (Inr e) \<and>
     img_exec_dispatch (\<lambda>_ _ s. Some s)
       (\<lambda>code params (b, s). map_option (\<lambda>(r, s). (r, b, s))
          (img_rpc_send (serve (exec_null (\<lambda>_ _ _. None)) (tables e) 64 short_net) True True short_net code b s))
       (tables e) OP_CROP 0 (empty_buffer, []) = None"
proof -
  let ?st = "\<lparr>tables = img_jump_table_init 0, engine_caps = 0, io_registered = False\<rparr>"
  obtain e where e: "img_engine_init True 0 [] True ?st = Some (Inr e)"
    by (simp add: img_engine_init_def img_plugin_load_all_def Let_def)
  have "img_exec_route OP_CROP = IMG_EXEC_REMOTE"
    by (simp add: img_exec_route_def OP_CROP_def OP_RESIZE_def OP_RESIZE_H_def OP_RESIZE_V_def OP_GRAYSCALE_def OP_BRIGHTNESS_def)
  from remote_never_served [OF _ e this, of short_net, where run = "\<lambda>_ _ s. Some s" and t = "tables e" and exec = "exec_null (\<lambda>_ _ _. None)"
      and mem = 64 and params = 0 and b = empty_buffer and s = "[]"] e
  show ?thesis by (auto simp: short_net_def)
qed

end
