(* ===== verification/Context.thy ===== *)
theory Context
  imports Slab
begin

text \<open>
  Threads' contexts and who owns which memory: \<open>core/context.c\<close>, \<open>memory/numa.c\<close>, the destruction
  functions of \<open>memory/arena.c\<close> and \<open>memory/slab.c\<close>, \<open>core/batch_builder.c\<close> and
  \<open>core/buffer_lifecycle.c\<close>. The live allocations are a set of addresses, each with the way it
  has to be given back.
\<close>

section \<open>Live allocations\<close>

datatype owner = By_malloc | By_numa u64

type_synonym live = "(ptr \<times> owner) set"

definition malloc :: "ptr \<Rightarrow> live \<Rightarrow> live" where
  "malloc p l = (if p = NULL then l else insert (p, By_malloc) l)"

text \<open>Giving back what was not obtained in this way is undefined.\<close>

definition give_back :: "ptr \<Rightarrow> owner \<Rightarrow> live \<Rightarrow> live option" where
  "give_back p w l = (if p = NULL then Some l else if (p, w) \<in> l then Some (l - {(p, w)}) else None)"

text \<open>
  What the system answers: whether it has NUMA, the CPU number or -1, the node of a CPU, and the
  results of the allocations of \<^const>\<open>img_slab_create\<close>, \<^const>\<open>img_arena_create\<close> and the context.
\<close>

record answers =
  numa_works :: bool
  cpu :: int
  numa_node_of_cpu :: "int \<Rightarrow> int"
  ctx_mem :: ptr
  pool_hdr :: ptr
  pool_mem :: ptr
  arena_hdr :: ptr
  arena_mem :: ptr

section \<open>Operations\<close>

definition img_numa_get_node :: "answers \<Rightarrow> int" where
  "img_numa_get_node a = (if \<not> numa_works a then 0 else if cpu a < 0 then 0 else numa_node_of_cpu a (cpu a))"

definition img_numa_alloc_onnode :: "answers \<Rightarrow> ptr \<Rightarrow> u64 \<Rightarrow> live \<Rightarrow> live" where
  "img_numa_alloc_onnode a p n l =
     (if p = NULL then l
      else if \<not> numa_works a then insert (p, By_malloc) l
      else insert (p, By_numa (align64 n)) l)"

definition img_numa_free :: "answers \<Rightarrow> ptr \<Rightarrow> u64 \<Rightarrow> live \<Rightarrow> live option" where
  "img_numa_free a p n l =
     (if p = NULL then Some l
      else let n = align64 n in
        if \<not> numa_works a then give_back p By_malloc l else give_back p (By_numa n) l)"

text \<open>The allocations that \<^const>\<open>img_slab_create\<close> and \<^const>\<open>img_arena_create\<close> make and release.\<close>

definition slab_create_live :: "answers \<Rightarrow> u64 \<Rightarrow> u64 \<Rightarrow> heap \<Rightarrow> live \<Rightarrow> ((ptr \<times> img_slab_pool) option \<times> heap \<times> live) option" where
  "slab_create_live a tot blk h l = do {
     let l = malloc (pool_hdr a) l;
     (po, h) \<leftarrow> img_slab_create (pool_hdr a \<noteq> NULL) (img_numa_get_node a) (\<lambda>_. pool_mem a) tot blk h;
     if pool_hdr a = NULL then Some (None, h, l)
     else do {
       let l = img_numa_alloc_onnode a (pool_mem a) (align64 tot) l;
       if pool_mem a = NULL then do { l \<leftarrow> give_back (pool_hdr a) By_malloc l; Some (None, h, l) }
       else Some (map_option (Pair (pool_hdr a)) po, h, l) } }"

definition arena_create_live :: "answers \<Rightarrow> u64 \<Rightarrow> live \<Rightarrow> ((ptr \<times> img_arena) option \<times> live) option" where
  "arena_create_live a n l = do {
     let l = malloc (arena_hdr a) l;
     if arena_hdr a = NULL then Some (None, l)
     else do {
       let l = malloc (arena_mem a) l;
       if arena_mem a = NULL then do { l \<leftarrow> give_back (arena_hdr a) By_malloc l; Some (None, l) }
       else Some (map_option (Pair (arena_hdr a)) (img_arena_create True (\<lambda>_. arena_mem a) n), l) } }"

definition img_arena_destroy :: "(ptr \<times> img_arena) option \<Rightarrow> live \<Rightarrow> live option" where
  "img_arena_destroy ao l =
     (case ao of
        None \<Rightarrow> Some l
      | Some (p, ar) \<Rightarrow> do { l \<leftarrow> give_back (base ar) By_malloc l; give_back p By_malloc l })"

definition img_slab_destroy :: "answers \<Rightarrow> (ptr \<times> img_slab_pool) option \<Rightarrow> live \<Rightarrow> live option" where
  "img_slab_destroy a po l =
     (case po of
        None \<Rightarrow> Some l
      | Some (p, s) \<Rightarrow> do { l \<leftarrow> img_numa_free a (memory s) (total_size s) l; give_back p By_malloc l })"

record img_ctx =
  thread_id :: u32
  local_pool :: "(ptr \<times> img_slab_pool) option"
  scratch_arena :: "(ptr \<times> img_arena) option"
  ctx_caps :: cpu_caps

text \<open>A context and its own address; the fields that are not set are left out.\<close>

definition img_ctx_create :: "answers \<Rightarrow> u32 \<Rightarrow> cpu_caps \<Rightarrow> heap \<Rightarrow> live \<Rightarrow> ((ptr \<times> img_ctx) option \<times> heap \<times> live) option" where
  "img_ctx_create a tid cp h l = do {
     let l = malloc (ctx_mem a) l;
     if ctx_mem a = NULL then Some (None, h, l)
     else do {
       (pool, h, l) \<leftarrow> slab_create_live a (64 * 1024 * 1024) (256 * 1024) h l;
       if pool = None then do { l \<leftarrow> give_back (ctx_mem a) By_malloc l; Some (None, h, l) }
       else do {
         (ar, l) \<leftarrow> arena_create_live a (1024 * 1024) l;
         if ar = None then do {
           l \<leftarrow> img_slab_destroy a pool l;
           l \<leftarrow> give_back (ctx_mem a) By_malloc l;
           Some (None, h, l) }
         else Some (Some (ctx_mem a, \<lparr>thread_id = tid, local_pool = pool, scratch_arena = ar, ctx_caps = cp\<rparr>), h, l) } } }"

definition img_ctx_destroy :: "answers \<Rightarrow> (ptr \<times> img_ctx) option \<Rightarrow> live \<Rightarrow> live option" where
  "img_ctx_destroy a co l =
     (case co of
        None \<Rightarrow> Some l
      | Some (p, c) \<Rightarrow> do {
          l \<leftarrow> img_arena_destroy (scratch_arena c) l;
          l \<leftarrow> img_slab_destroy a (local_pool c) l;
          give_back p By_malloc l })"

text \<open>
  \<open>img_batch_create\<close>: 520 bytes of the scratch arena, a pointer array of 64 and the count. The
  null address is a failed allocation; the batch is its address and its count.
\<close>

definition img_batch_create :: "img_ctx \<Rightarrow> u32 \<Rightarrow> (ptr \<times> u32) option \<times> img_ctx" where
  "img_batch_create c n =
     (let (p, ar) = img_arena_alloc (map_option snd (scratch_arena c)) 520;
          c = c\<lparr>scratch_arena := (case (scratch_arena c, ar) of (Some (q, _), Some x) \<Rightarrow> Some (q, x) | _ \<Rightarrow> scratch_arena c)\<rparr>
      in (if p = NULL then None else Some (p, n), c))"

text \<open>\<open>refs\<close> are the counters at the addresses that \<^const>\<open>img_buf_hdr\<close> computes.\<close>

definition img_buffer_acquire :: "img_buffer option \<Rightarrow> (ptr \<Rightarrow> u32) \<Rightarrow> ptr \<Rightarrow> u32" where
  "img_buffer_acquire bo refs =
     (case bo of None \<Rightarrow> refs
      | Some b \<Rightarrow> if data b = NULL then refs else refs(img_buf_hdr b := refs (img_buf_hdr b) + 1))"

definition img_buffer_release :: "img_buffer option \<Rightarrow> (ptr \<Rightarrow> u32) \<Rightarrow> ptr \<Rightarrow> u32" where
  "img_buffer_release bo refs =
     (case bo of None \<Rightarrow> refs
      | Some b \<Rightarrow> if data b = NULL then refs else refs(img_buf_hdr b := refs (img_buf_hdr b) - 1))"

section \<open>No leak and no bad free\<close>

text \<open>The answers are fresh: what is not null was not live and is obtained once.\<close>

fun fresh :: "ptr list \<Rightarrow> live \<Rightarrow> bool" where
  "fresh [] l = True"
| "fresh (p # ps) l = ((p \<noteq> NULL \<longrightarrow> p \<notin> fst ` l \<and> p \<notin> set ps) \<and> fresh ps l)"

definition fresh_answers :: "answers \<Rightarrow> live \<Rightarrow> bool" where
  "fresh_answers a l \<longleftrightarrow> fresh [ctx_mem a, pool_hdr a, pool_mem a, arena_hdr a, arena_mem a] l"

lemma pool_sizes: "align64 67108864 = 67108864" "align64 262144 = 262144" "align64 1048576 = 1048576"
  by (simp_all add: align64_def)

lemma give_back_malloc [simp]: "p \<noteq> NULL \<Longrightarrow> (p, w) \<notin> l \<Longrightarrow> give_back p w (insert (p, w) l) = Some l"
  by (auto simp: give_back_def)

lemma slab_create_cases:
  assumes "pool_mem a \<noteq> NULL \<longrightarrow> fresh_region h (pool_mem a) 67108864 262144"
    and "\<And>p w. p = pool_hdr a \<or> p = pool_mem a \<Longrightarrow> p \<noteq> NULL \<Longrightarrow> (p, w) \<notin> l" and "pool_hdr a \<noteq> NULL \<longrightarrow> pool_hdr a \<noteq> pool_mem a"
  shows "\<exists>po h' l'. slab_create_live a (64 * 1024 * 1024) (256 * 1024) h l = Some (po, h', l') \<and>
    img_slab_destroy a po l' = Some l \<and> (po = None \<longleftrightarrow> pool_hdr a = NULL \<or> pool_mem a = NULL) \<and> (po = None \<longrightarrow> l' = l) \<and>
    fst ` l' \<subseteq> fst ` l \<union> {pool_hdr a, pool_mem a} \<and> l \<subseteq> l' \<and>
    (\<forall>q s. po = Some (q, s) \<longrightarrow> (\<exists>free. slab_wf h' s free))"
proof (cases "pool_hdr a = NULL \<or> pool_mem a = NULL")
  case True
  then show ?thesis
    using assms(2) by (auto simp: slab_create_live_def img_slab_create_def malloc_def img_numa_alloc_onnode_def img_slab_destroy_def Let_def)
next
  case False
  then have nz: "pool_mem a \<noteq> NULL" "align64 262144 \<noteq> 0" using pool_sizes by simp_all
  have region: "fresh_region h (pool_mem a) (align64 67108864) (align64 262144)"
    using assms(1) nz(1) unfolding pool_sizes by simp
  obtain s h' where s: "img_slab_create True (img_numa_get_node a) (\<lambda>_. pool_mem a) 67108864 262144 h = Some (Some s, h')"
    and "memory s = pool_mem a" "slab_wf h' s (map (\<lambda>i. pool_mem a + of_nat i * align64 262144) (rev [0..<unat (block_count s)]))"
    by (rule slab_create_wf [OF nz region], rule that)
  moreover have "total_size s = 67108864"
    using s pool_sizes by (auto simp: img_slab_create_def Let_def split: if_splits bind_splits)
  ultimately show ?thesis
    using False assms(2,3) pool_sizes
    by (auto simp: slab_create_live_def malloc_def img_numa_alloc_onnode_def img_slab_destroy_def img_numa_free_def
        give_back_def Let_def)
qed

lemma arena_create_cases:
  assumes "\<And>p w. p = arena_hdr a \<or> p = arena_mem a \<Longrightarrow> p \<noteq> NULL \<Longrightarrow> (p, w) \<notin> l" and "arena_hdr a \<noteq> NULL \<longrightarrow> arena_hdr a \<noteq> arena_mem a"
  shows "\<exists>ao l'. arena_create_live a n l = Some (ao, l') \<and> img_arena_destroy ao l' = Some l \<and>
    (ao = None \<longleftrightarrow> arena_hdr a = NULL \<or> arena_mem a = NULL) \<and> (ao = None \<longrightarrow> l' = l)"
  using assms by (auto simp: arena_create_live_def img_arena_create_def img_arena_destroy_def malloc_def give_back_def Let_def)

lemma fresh_answersD:
  assumes "fresh_answers a l"
  shows "p \<in> {ctx_mem a, pool_hdr a, pool_mem a, arena_hdr a, arena_mem a} \<Longrightarrow> p \<noteq> NULL \<Longrightarrow> (p, w) \<notin> l"
    and "p \<in> {pool_hdr a, pool_mem a, arena_hdr a, arena_mem a} \<Longrightarrow> p \<noteq> NULL \<Longrightarrow> p \<noteq> ctx_mem a"
    and "p \<in> {arena_hdr a, arena_mem a} \<Longrightarrow> p \<noteq> NULL \<Longrightarrow> p \<notin> {pool_hdr a, pool_mem a}"
    and "pool_hdr a \<noteq> NULL \<longrightarrow> pool_hdr a \<noteq> pool_mem a" and "arena_hdr a \<noteq> NULL \<longrightarrow> arena_hdr a \<noteq> arena_mem a"
proof -
  have d: "fresh [ctx_mem a, pool_hdr a, pool_mem a, arena_hdr a, arena_mem a] l" using assms by (simp add: fresh_answers_def)
  have "p \<in> {ctx_mem a, pool_hdr a, pool_mem a, arena_hdr a, arena_mem a} \<Longrightarrow> p \<noteq> NULL \<Longrightarrow> p \<notin> fst ` l"
    using d by (elim insertE emptyE) simp_all
  then show "p \<in> {ctx_mem a, pool_hdr a, pool_mem a, arena_hdr a, arena_mem a} \<Longrightarrow> p \<noteq> NULL \<Longrightarrow> (p, w) \<notin> l"
    by (metis fst_conv image_eqI)
  show "p \<in> {pool_hdr a, pool_mem a, arena_hdr a, arena_mem a} \<Longrightarrow> p \<noteq> NULL \<Longrightarrow> p \<noteq> ctx_mem a"
    using d by (elim insertE emptyE) auto
  show "p \<in> {arena_hdr a, arena_mem a} \<Longrightarrow> p \<noteq> NULL \<Longrightarrow> p \<notin> {pool_hdr a, pool_mem a}"
    using d by (elim insertE emptyE) auto
  show "pool_hdr a \<noteq> NULL \<longrightarrow> pool_hdr a \<noteq> pool_mem a" using d by simp
  show "arena_hdr a \<noteq> NULL \<longrightarrow> arena_hdr a \<noteq> arena_mem a" using d by simp
qed

section \<open>Properties\<close>

text \<open>
  C14. Creating a context, whatever allocations fail, is defined and either gives a context with a
  well-formed pool or gives back everything it had obtained; it fails only when an allocation failed.
  Destroying the context gives back exactly what creating it obtained, each piece once and in the
  way it was obtained, with or without NUMA.
\<close>

theorem ctx_lifecycle:
  assumes "fresh_answers a l" and "pool_mem a \<noteq> NULL \<longrightarrow> fresh_region h (pool_mem a) 67108864 262144"
  shows "\<exists>co h' l'. img_ctx_create a t cp h l = Some (co, h', l') \<and> img_ctx_destroy a co l' = Some l \<and>
    (co = None \<longleftrightarrow> NULL \<in> {ctx_mem a, pool_hdr a, pool_mem a, arena_hdr a, arena_mem a}) \<and> (co = None \<longrightarrow> l' = l) \<and>
    (\<forall>p c. co = Some (p, c) \<longrightarrow> (\<exists>q s free. local_pool c = Some (q, s) \<and> slab_wf h' s free) \<and> scratch_arena c \<noteq> None)"
proof (cases "ctx_mem a = NULL")
  case True
  then show ?thesis by (simp add: img_ctx_create_def img_ctx_destroy_def malloc_def)
next
  case False
  let ?l1 = "insert (ctx_mem a, By_malloc) l"
  note f = fresh_answersD [OF assms(1)]
  have new: "\<And>p w. p = pool_hdr a \<or> p = pool_mem a \<Longrightarrow> p \<noteq> NULL \<Longrightarrow> (p, w) \<notin> ?l1"
    using f(1,2) by auto
  obtain po h1 l1 where pool: "slab_create_live a (64 * 1024 * 1024) (256 * 1024) h ?l1 = Some (po, h1, l1)"
    and po: "img_slab_destroy a po l1 = Some ?l1" "po = None \<longleftrightarrow> pool_hdr a = NULL \<or> pool_mem a = NULL" "po = None \<longrightarrow> l1 = ?l1"
    and l1: "fst ` l1 \<subseteq> fst ` ?l1 \<union> {pool_hdr a, pool_mem a}" and wf: "\<forall>q s. po = Some (q, s) \<longrightarrow> (\<exists>free. slab_wf h1 s free)"
    using slab_create_cases [OF assms(2) new f(4)] by blast
  have done1: "give_back (ctx_mem a) By_malloc ?l1 = Some l"
    using False f(1) by (intro give_back_malloc) blast+
  show ?thesis
  proof (cases po)
    case None
    then show ?thesis
      using False pool po done1 by (auto simp: img_ctx_create_def img_ctx_destroy_def malloc_def)
  next
    case (Some pool_s)
    have arena_new: "(p, w) \<notin> l1" if p: "p = arena_hdr a \<or> p = arena_mem a" "p \<noteq> NULL" for p w
    proof
      assume "(p, w) \<in> l1"
      then have "p \<in> fst ` l1" by force
      then have "p \<in> fst ` ?l1 \<union> {pool_hdr a, pool_mem a}" using l1 by blast
      moreover have "p \<noteq> ctx_mem a" "p \<notin> {pool_hdr a, pool_mem a}" using f(2,3) p by blast+
      ultimately have "p \<in> fst ` l" by auto
      then show False using f(1) p by force
    qed
    obtain ao l2 where ar: "arena_create_live a (1024 * 1024) l1 = Some (ao, l2)" "img_arena_destroy ao l2 = Some l1"
      "ao = None \<longleftrightarrow> arena_hdr a = NULL \<or> arena_mem a = NULL" "ao = None \<longrightarrow> l2 = l1"
      using arena_create_cases [OF arena_new f(5)] by blast
    obtain q s where qs: "pool_s = (q, s)" by fastforce
    show ?thesis
    proof (cases ao)
      case None
      then show ?thesis
        using False Some pool po done1 ar by (auto simp: img_ctx_create_def img_ctx_destroy_def malloc_def)
    next
      case ao: (Some ar_s)
      then show ?thesis
        using False Some qs pool po done1 ar wf by (simp add: img_ctx_create_def img_ctx_destroy_def malloc_def)
    qed
  qed
qed

theorem ctx_lifecycle_witness:
  "\<exists>co h' l'. img_ctx_create \<lparr>numa_works = True, cpu = 3, numa_node_of_cpu = (\<lambda>_. 1), ctx_mem = 64, pool_hdr = 256, pool_mem = 65536,
      arena_hdr = 512, arena_mem = 0x10000000\<rparr> 7 1 (\<lambda>_. replicate 262144 0) {(1024, By_malloc)} = Some (Some co, h', l') \<and>
    img_ctx_destroy \<lparr>numa_works = True, cpu = 3, numa_node_of_cpu = (\<lambda>_. 1), ctx_mem = 64, pool_hdr = 256, pool_mem = 65536,
      arena_hdr = 512, arena_mem = 0x10000000\<rparr> (Some co) l' = Some {(1024, By_malloc)}"
proof -
  let ?a = "\<lparr>numa_works = True, cpu = 3, numa_node_of_cpu = (\<lambda>_. 1), ctx_mem = 64, pool_hdr = 256, pool_mem = 65536,
      arena_hdr = 512, arena_mem = 0x10000000\<rparr> :: answers"
  have "fresh_answers ?a {(1024, By_malloc)}" by (simp add: fresh_answers_def)
  moreover have "pool_mem ?a \<noteq> NULL \<longrightarrow> fresh_region (\<lambda>_. replicate 262144 0) (pool_mem ?a) 67108864 262144"
    by (simp add: fresh_region_def)
  ultimately show ?thesis using ctx_lifecycle [of ?a "{(1024, By_malloc)}" "\<lambda>_. replicate 262144 0" 7 1] by auto
qed

end
