(* ===== verification/File_Io.thy ===== *)
theory File_Io
  imports Core_Types
begin

text \<open>
  Whole files: the io_uring reader and writer of \<open>cmd/imgengine/io_uring_engine.c\<close>, the mapping of
  \<open>io/vfs/posix_io.c\<close> and the huge pages of \<open>memory/hugepage.c\<close>. The answers of the system are
  arguments. The ring is its two queues: requests taken but not submitted, and completions not
  yet marked as seen, oldest first; the kernel completes every submitted request, in order, before
  a wait for it returns. A byte of a fresh block is \<^const>\<open>None\<close> until something is read into it.
\<close>

section \<open>The ring\<close>

text \<open>\<open>sq\<close> and \<open>cq\<close> are the ring; \<open>open_fds\<close> and \<open>live\<close> are the descriptors and blocks of the process.\<close>

record img_io_uring =
  sq :: "int list"
  cq :: "int list"
  open_fds :: "int list"
  live :: "ptr list"

text \<open>The answers to one call; \<open>a_res\<close> is the result its request will have, \<open>a_file\<close> what the file holds.\<close>

record io_answers =
  a_open :: int
  a_size :: "u64 option"
  a_malloc :: ptr
  a_sqe :: bool
  a_submit :: bool
  a_res :: int
  a_file :: bytes

text \<open>\<open>queued\<close> is the result of \<open>io_uring_queue_init\<close>.\<close>

definition img_io_uring_init :: "int \<Rightarrow> img_io_uring option \<Rightarrow> int \<times> img_io_uring option" where
  "img_io_uring_init queued u =
     (case u of None \<Rightarrow> (- 1, None) | Some u \<Rightarrow> (queued, Some (u\<lparr>sq := [], cq := []\<rparr>)))"

definition img_io_uring_destroy :: "img_io_uring option \<Rightarrow> img_io_uring option" where
  "img_io_uring_destroy u = map_option (\<lambda>u. u\<lparr>sq := [], cq := []\<rparr>) u"

text \<open>A request is queued and submitted; the oldest completion is returned. With none the wait never ends.\<close>

definition submit_and_wait :: "io_answers \<Rightarrow> img_io_uring \<Rightarrow> (int \<times> img_io_uring) option" where
  "submit_and_wait a u =
     (if \<not> a_sqe a then None
      else let u = u\<lparr>sq := sq u @ [a_res a]\<rparr>;
               u = (if a_submit a then u\<lparr>cq := cq u @ sq u, sq := []\<rparr> else u) in
        (case cq u of [] \<Rightarrow> None | r # _ \<Rightarrow> Some (r, u)))"

definition close_fd :: "int \<Rightarrow> img_io_uring \<Rightarrow> img_io_uring" where
  "close_fd fd u = u\<lparr>open_fds := remove1 fd (open_fds u)\<rparr>"

definition read_block :: "io_answers \<Rightarrow> nat \<Rightarrow> u8 option list" where
  "read_block a n = (let got = take (min n (nat (a_res a))) (a_file a) in
     map Some got @ replicate (n - length got) None)"

definition img_io_uring_read_file ::
  "io_answers \<Rightarrow> img_io_uring \<Rightarrow> ((int \<times> (ptr \<times> u8 option list) option) \<times> img_io_uring) option" where
  "img_io_uring_read_file a u =
     (let fd = a_open a in
      if fd < 0 then Some ((- 1, None), u)
      else let u = u\<lparr>open_fds := fd # open_fds u\<rparr> in
        (case a_size a of
           None \<Rightarrow> Some ((- 1, None), close_fd fd u)
         | Some n \<Rightarrow>
             if a_malloc a = NULL then Some ((- 1, None), close_fd fd u)
             else let u = u\<lparr>live := a_malloc a # live u\<rparr> in do {
               (res, u) \<leftarrow> submit_and_wait a u;
               if res < 0 then Some ((- 1, None), close_fd fd (u\<lparr>live := remove1 (a_malloc a) (live u)\<rparr>))
               else Some ((0, Some (a_malloc a, read_block a (unat n))), close_fd fd (u\<lparr>cq := tl (cq u)\<rparr>)) }))"

definition img_io_uring_write_file :: "io_answers \<Rightarrow> img_io_uring \<Rightarrow> (int \<times> img_io_uring) option" where
  "img_io_uring_write_file a u =
     (let fd = a_open a in
      if fd < 0 then Some (- 1, u)
      else do {
        (res, u) \<leftarrow> submit_and_wait a (u\<lparr>open_fds := fd # open_fds u\<rparr>);
        if res < 0 then Some (- 1, close_fd fd u)
        else Some (0, close_fd fd (u\<lparr>cq := tl (cq u)\<rparr>)) })"

section \<open>Mapped files and huge pages\<close>

text \<open>
  \<open>openable\<close>: whether the file can be opened; \<open>sz\<close>: the result of \<open>lseek\<close>, which is not tested;
  \<open>mmap\<close>: what a mapping of a length gives, \<^const>\<open>None\<close> for \<open>MAP_FAILED\<close>.
\<close>

definition img_vfs_mmap_file :: "bool \<Rightarrow> int \<Rightarrow> (u64 \<Rightarrow> ptr option) \<Rightarrow> img_result \<times> (ptr \<times> u64) option" where
  "img_vfs_mmap_file openable sz mmap =
     (if \<not> openable then (IMG_ERR_IO, None)
      else (case mmap (word_of_int sz) of
          None \<Rightarrow> (IMG_ERR_IO, None)
        | Some p \<Rightarrow> (IMG_SUCCESS, Some (p, word_of_int sz))))"

definition img_hugepage_alloc :: "(u64 \<Rightarrow> ptr option) \<Rightarrow> u64 \<Rightarrow> ptr" where
  "img_hugepage_alloc mmap n = (case mmap n of None \<Rightarrow> NULL | Some p \<Rightarrow> p)"

section \<open>Sequences of calls\<close>

datatype io_call = Read_File io_answers | Write_File io_answers

primrec answers :: "io_call \<Rightarrow> io_answers" where
  "answers (Read_File a) = a"
| "answers (Write_File a) = a"

fun io_run :: "io_call list \<Rightarrow> img_io_uring \<Rightarrow> ((int \<times> (ptr \<times> u8 option list) option) list \<times> img_io_uring) option" where
  "io_run [] u = Some ([], u)"
| "io_run (Read_File a # cs) u = do {
     (r, u) \<leftarrow> img_io_uring_read_file a u;
     (rs, u) \<leftarrow> io_run cs u;
     Some (r # rs, u) }"
| "io_run (Write_File a # cs) u = do {
     (r, u) \<leftarrow> img_io_uring_write_file a u;
     (rs, u) \<leftarrow> io_run cs u;
     Some ((r, None) # rs, u) }"

text \<open>Whether a call gets to the ring, and what it should return for its own request.\<close>

primrec reaches_ring :: "io_call \<Rightarrow> bool" where
  "reaches_ring (Read_File a) = (0 \<le> a_open a \<and> a_size a \<noteq> None \<and> a_malloc a \<noteq> NULL)"
| "reaches_ring (Write_File a) = (0 \<le> a_open a)"

definition io_fails :: "io_call \<Rightarrow> bool" where
  "io_fails c \<longleftrightarrow> reaches_ring c \<and> a_res (answers c) < 0"

primrec own_result :: "io_call \<Rightarrow> int \<times> (ptr \<times> u8 option list) option" where
  "own_result (Read_File a) =
     (if reaches_ring (Read_File a) \<and> 0 \<le> a_res a then (0, Some (a_malloc a, read_block a (unat (the (a_size a))))) else (- 1, None))"
| "own_result (Write_File a) = (if 0 \<le> a_open a \<and> 0 \<le> a_res a then (0, None) else (- 1, None))"

definition handed_out :: "(int \<times> (ptr \<times> u8 option list) option) list \<Rightarrow> ptr list" where
  "handed_out rs = map fst (List.map_filter snd rs)"

lemma handed_out_simps [simp]:
  "handed_out [] = []" "handed_out ((r, None) # rs) = handed_out rs" "handed_out ((r, Some (p, b)) # rs) = p # handed_out rs"
  by (simp_all add: handed_out_def map_filter_simps)

lemma handed_out_failed [simp]: "handed_out (replicate n (- 1, None)) = []"
  by (induction n) simp_all

text \<open>One call on an empty ring, and on a ring with a completion of an error at its head.\<close>

primrec io_one :: "io_call \<Rightarrow> img_io_uring \<Rightarrow> ((int \<times> (ptr \<times> u8 option list) option) \<times> img_io_uring) option" where
  "io_one (Read_File a) u = img_io_uring_read_file a u"
| "io_one (Write_File a) u = map_option (\<lambda>(r, u). ((r, None), u)) (img_io_uring_write_file a u)"

lemma io_run_Cons: "io_run (c # cs) u = do { (r, u) \<leftarrow> io_one c u; (rs, u) \<leftarrow> io_run cs u; Some (r # rs, u) }"
  by (cases c; cases "io_one c u") (auto split: bind_splits)

lemma io_one_fresh:
  assumes "a_sqe (answers c)" "a_submit (answers c)" "sq u = []" "cq u = []"
  shows "\<exists>u'. io_one c u = Some (own_result c, u') \<and> sq u' = [] \<and> cq u' = (if io_fails c then [a_res (answers c)] else []) \<and>
    open_fds u' = open_fds u \<and> live u' = handed_out [own_result c] @ live u"
  using assms
  by (cases c) (auto simp: img_io_uring_read_file_def img_io_uring_write_file_def submit_and_wait_def close_fd_def io_fails_def Let_def
      split: option.splits)

lemma io_one_stuck:
  assumes "a_sqe (answers c)" "a_submit (answers c)" "sq u = []" "cq u = e # es" "e < 0"
  shows "\<exists>u' es'. io_one c u = Some ((- 1, None), u') \<and> sq u' = [] \<and> cq u' = e # es' \<and> open_fds u' = open_fds u \<and> live u' = live u"
  using assms
  by (cases c) (auto simp: img_io_uring_read_file_def img_io_uring_write_file_def submit_and_wait_def close_fd_def Let_def
      split: option.splits)

lemma io_run_stuck:
  assumes "\<forall>c \<in> set cs. a_sqe (answers c) \<and> a_submit (answers c)" "sq u = []" "cq u = e # es" "e < 0"
  shows "\<exists>u'. io_run cs u = Some (replicate (length cs) (- 1, None), u') \<and> open_fds u' = open_fds u \<and> live u' = live u"
  using assms
proof (induction cs arbitrary: u es)
  case (Cons c cs)
  then obtain u1 es1 where "io_one c u = Some ((- 1, None), u1)" "sq u1 = []" "cq u1 = e # es1" "open_fds u1 = open_fds u" "live u1 = live u"
    using io_one_stuck [of c u e es] by auto
  then show ?case using Cons.IH [of u1 es1] Cons.prems by (auto simp: io_run_Cons)
qed simp

text \<open>
  C40. Calls on a fresh ring: every call up to and including the first whose request fails returns
  the result of its own request; the failed completion is never marked as seen, so every later
  call reads it again and fails, whatever its own request did. No descriptor and no block leaks:
  the blocks that live afterwards are those handed out.
\<close>

theorem uring_error_sticks:
  assumes "\<forall>c \<in> set cs. a_sqe (answers c) \<and> a_submit (answers c)" and "sq u = []" "cq u = []"
  shows "\<exists>rs u'. io_run cs u = Some (rs, u') \<and>
    (let good = takeWhile (\<lambda>c. \<not> io_fails c) cs in
       rs = map own_result good @ replicate (length cs - length good) (- 1, None)) \<and>
    open_fds u' = open_fds u \<and> live u' = rev (handed_out rs) @ live u"
  using assms
proof (induction cs arbitrary: u)
  case (Cons c cs)
  obtain u1 where one: "io_one c u = Some (own_result c, u1)" "sq u1 = []" "open_fds u1 = open_fds u"
      "cq u1 = (if io_fails c then [a_res (answers c)] else [])" "live u1 = handed_out [own_result c] @ live u"
    using io_one_fresh [of c u] Cons.prems by auto
  show ?case
  proof (cases "io_fails c")
    case True
    then have "own_result c = (- 1, None)" by (cases c) (auto simp: io_fails_def)
    moreover obtain u' where "io_run cs u1 = Some (replicate (length cs) (- 1, None), u')" "open_fds u' = open_fds u1" "live u' = live u1"
      using io_run_stuck [of cs u1 "a_res (answers c)" "[]"] Cons.prems one True by (auto simp: io_fails_def)
    ultimately show ?thesis using one True by (simp add: io_run_Cons)
  next
    case False
    then obtain rs u' where "io_run cs u1 = Some (rs, u')" "open_fds u' = open_fds u1" "live u' = rev (handed_out rs) @ live u1"
        "rs = map own_result (takeWhile (\<lambda>c. \<not> io_fails c) cs) @
           replicate (length cs - length (takeWhile (\<lambda>c. \<not> io_fails c) cs)) (- 1, None)"
      using Cons.IH [of u1] Cons.prems one by (auto simp: Let_def)
    moreover have "rev (handed_out (r # rs)) = rev (handed_out rs) @ handed_out [r]" for r rs
      by (cases r; cases "snd r") auto
    ultimately show ?thesis using one False by (auto simp: io_run_Cons Let_def)
  qed
qed simp

definition demo_answers :: "ptr \<Rightarrow> int \<Rightarrow> io_answers" where
  "demo_answers p res = \<lparr>a_open = 3, a_size = Some 2, a_malloc = p, a_sqe = True, a_submit = True, a_res = res, a_file = [7, 8]\<rparr>"

theorem uring_error_sticks_witness:
  "\<exists>u'. io_run [Read_File (demo_answers 64 2), Write_File (demo_answers 0 (- 28)), Read_File (demo_answers 128 2)]
      \<lparr>sq = [], cq = [], open_fds = [], live = []\<rparr> =
    Some ([(0, Some (64, [Some 7, Some 8])), (- 1, None), (- 1, None)], u') \<and> open_fds u' = [] \<and> live u' = [64]"
proof -
  let ?cs = "[Read_File (demo_answers 64 2), Write_File (demo_answers 0 (- 28)), Read_File (demo_answers 128 2)]"
  have "\<forall>c \<in> set ?cs. a_sqe (answers c) \<and> a_submit (answers c)" by (simp add: demo_answers_def)
  from uring_error_sticks [OF this, of "\<lparr>sq = [], cq = [], open_fds = [], live = []\<rparr>"]
  show ?thesis by (simp add: io_fails_def demo_answers_def read_block_def)
qed

text \<open>A short read succeeds with the full size: the end of the block was never written.\<close>

lemma short_read_uninitialised:
  assumes "reaches_ring (Read_File a)" "a_size a = Some n" "0 \<le> a_res a" "nat (a_res a) < unat n"
    and "a_sqe a" "a_submit a" "sq u = []" "cq u = []"
  shows "\<exists>bs u'. img_io_uring_read_file a u = Some ((0, Some (a_malloc a, bs)), u') \<and> length bs = unat n \<and> bs ! (unat n - 1) = None"
proof -
  have "length (read_block a k) = k \<and> read_block a k ! (k - 1) = None" if "nat (a_res a) < k" for k
    using that by (auto simp: read_block_def Let_def nth_append simp del: nat_less_iff)
  then have "length (read_block a (unat n)) = unat n" "read_block a (unat n) ! (unat n - 1) = None"
    using assms(4) by blast+
  then show ?thesis using io_one_fresh [of "Read_File a" u] assms by auto
qed

end
