(* ===== verification/Spec2Isabelle.thy ===== *)
theory Spec2Isabelle
  imports Bench Validation Fusion Queue_Concurrent Logger Binlog_Threads Rpc Context File_Io
begin

text \<open>
  A verification library for imgengine, an image engine in C whose main product is a print
  sheet: one photo, placed several times on an A4 page with borders, bleed and crop marks, as a
  JPEG or PDF file. Paths below are relative to \<open>src/imgengine\<close>.

  The program. \<open>cmd/imgengine\<close> parses the command line, builds a job and runs it through
  \<open>api/api.c\<close>: the input is mapped, checked by \<open>security\<close>, decoded by \<open>io/decoder\<close> into a block of
  the slab pool (\<open>memory/slab.c\<close>), resized and placed on a canvas (\<open>pipeline/canvas.c\<close>,
  \<open>layout.c\<close>, \<open>arch/x86_64/avx2/blit_avx2.c\<close>), decorated in place by three passes (\<open>border.c\<close>,
  \<open>bleed.c\<close>, \<open>crop_marks.c\<close>) and encoded by \<open>io/encoder\<close>. Beside this job the engine has a
  pipeline of operations behind a jump table (\<open>pipeline/jump_table.c\<close>, \<open>hot\<close>) with its kernels
  (\<open>arch\<close>, \<open>plugins\<close>), their fusion (\<open>pipeline_fuse.c\<close>), lock-free queues, a work-stealing scheduler
  and remote execution (\<open>runtime\<close>), and a logger, a binary log and metrics (\<open>observability\<close>).

  How the code is modelled.
    \<^item> Machine integers are words of their width (\<open>u8\<close> to \<open>u64\<close>, theory \<open>Prelude\<close>); where the C
      code computes in \<open>int\<close>, the value is an \<open>int\<close> and leaving the range is undefined.
    \<^item> Undefined behaviour (a read or write outside its array, signed overflow, a null call, a
      division by zero) is \<^const>\<open>None\<close> in the option monad; a theorem that an operation returns
      \<open>Some\<close> shows that it is free of it. Error codes are values of \<open>img_result\<close>.
    \<^item> Memory is a \<open>heap\<close> from addresses to blocks of bytes; a nullable pointer to a structure is
      an option, a counted loop is \<open>foreach\<close>, a loop with early exit \<open>foreach_brk\<close>; loops that may
      run forever are partial functions with the value \<^const>\<open>None\<close>.
    \<^item> \<open>float\<close> is the binary32 arithmetic of theory \<open>Float32\<close>: rationals, two infinities, NaN.
    \<^item> What is not in the repository is a parameter: the JPEG codec (record \<open>turbojpeg\<close>), the
      PNG loader, the HTTP client, the results of allocation and of system calls (\<open>os_env\<close> with
      the room on the disk, \<open>init_env\<close> with what \<open>pthread_create\<close> answers, \<open>net_env\<close> with the length
      of every transfer).

  The theories, in the order of their use.
    \<^item> \<open>Prelude\<close>: bytes, heap, the monad and its loops with their invariant rules, word lemmas.
      \<open>Float32\<close>: rounding and arithmetic, with error bounds. \<open>Core_Types\<close>: result codes, opcodes,
      CPU capabilities, buffers, jobs, cells.
    \<^item> \<open>Arena\<close>, \<open>Slab\<close>: the allocators. \<open>slab_wf h s xs\<close> says that \<open>xs\<close> is the free list of \<open>s\<close>
      in \<open>h\<close>. The locale \<open>block_allocator\<close> proves once that a client which frees only its own
      blocks neither loses nor duplicates one; \<open>slab\<close> interprets it.
    \<^item> \<open>Raster\<close>: regions of pixels and what it means to draw one. \<open>Border\<close>, \<open>Bleed\<close>,
      \<open>Crop_Marks\<close>: the passes; each paints exactly its region. \<open>Blit\<close>: the AVX2 copy equals the
      scalar copy. \<open>Canvas\<close>: the geometry of the page in binary32 always fits the page.
    \<^item> \<open>Layout\<close>, \<open>Layout_Grid\<close>: resizing, the two ways to prepare a photo (locale
      \<open>photo_preparer\<close>, interpreted by \<open>fill\<close> and \<open>fit\<close>), and the grid; no block is lost on any path.
    \<^item> \<open>Validation\<close>: the input checks, exactly, and the seccomp program.
    \<^item> \<open>Decoder\<close>: JPEG, stb, streams (locale \<open>image_decoder\<close>, interpreted by \<open>jpeg\<close>). \<open>Encoder\<close>:
      JPEG and the PDF file byte by byte, with a reader as the reference.
    \<^item> \<open>Queue_SPSC\<close>, \<open>Queue_MPMC\<close>: the rings refine a bounded list (locale \<open>bounded_fifo\<close>,
      interpreted by \<open>spsc\<close> and \<open>mpmc\<close>); the first also as a step relation with every
      interleaving of a producer and a consumer. \<open>Queue_Concurrent\<close>: the MPMC ring as a step
      relation, one load, store or exchange of one of any number of threads at a time; it is
      simulated by the same ring over natural numbers, whose invariant says which thread owns
      which cell. \<open>Scheduler\<close>: submission, stealing and the worker loop; when calls do not overlap
      tasks are conserved as multisets, and separate lemmas show how overlapping pops of one ring
      duplicate a task or bring it back.
    \<^item> \<open>Dispatch\<close>: jump table, plugins, building, compiling, routing and the hot loop. \<open>Simd\<close>,
      \<open>Fusion\<close>: vectors of bytes and 16-bit lanes (locale \<open>simd_row\<close>), and the fused kernels.
      \<open>Kernels\<close>: every kernel behind the jump table, scalar and AVX2, on bytes. \<open>Rpc\<close>: the client, the
      server and the node list of remote execution, on streams of bytes whose transfers may be
      short, composed with the router.
    \<^item> \<open>Logger\<close>: the ring of messages and its thread, on the MPMC ring. \<open>Observability\<close>: the binary
      log of each CPU, spans, counters and their export; \<open>Binlog_Threads\<close>: the same log written by
      several threads, one load or store at a time. \<open>Context\<close>: contexts, NUMA memory, batches
      and reference counts, with the live allocations. \<open>File_Io\<close>: the io_uring reader and writer with
      the two queues of the ring, and mapped files.
    \<^item> \<open>Api\<close>, \<open>Print_Job\<close>: the entry points; the composition theorem of the print job.
      \<open>Engine\<close>: start, submission, threads and shutdown. \<open>Cli\<close>: the program. \<open>Bench\<close>: the benchmark.

  What the theorems show. Every component's operations keep its invariant and do on every
  branch what is stated; together they give \<open>run_job_correct\<close> (no undefined behaviour, no block
  lost, the output is the page pixel by pixel, as far as the disk takes it) and
  \<open>run_job_succeeds\<close> (with enough memory and a codec that works nothing refuses the job). Other
  theorems show what the program does not do as intended; the manifest lists them as findings.

  Bounds. Queues are followed for \<open>2\<^sup>6\<^sup>1\<close> operations or steps, far below the wrap of their
  64-bit counters. The job theorems assume a grid that fits its page, a page below 65536 pixels a
  side, sizes of marks and bleed below \<open>2\<^sup>2\<^sup>9\<close>, and blocks below 4 GiB.

  What is modelled is the repository, not one build of it: \<open>CMakeLists.txt\<close> leaves out
  \<open>runtime/rpc_server.c\<close>, \<open>pipeline/batch_exec.c\<close>, \<open>tools/binlog_decode.c\<close> and \<open>io/vfs/s3_adapter.c\<close>, and
  makes \<open>plugins/plugin_resize.c\<close> a library of its own. Outside the two queues and the binary log a
  call is one whole step: of the scheduler the races are shown by lemmas of their own, and the
  allocators, which have no synchronisation, are followed in one thread.

  Not modelled: the third-party code (stb, libjpeg-turbo, libnuma, liburing); of a thread anything
  but its steps and whether it runs; weak memory orders (every interleaving is sequentially
  consistent); messages to the user and \<open>cold/debug.c\<close>; the affinity of threads; the fuzz targets
  and the Java binding; the memory poisoning of debug builds; the signal of a write to a closed
  connection.
\<close>

end
